(* ===== verification/Prelude.thy ===== *)
theory Prelude
  imports Complex_Main "HOL-Library.Code_Target_Nat"
begin

text \<open>
  Shared vocabulary of the development: JavaScript strings, numbers, insertion-ordered maps and
  the outcome of an operation that may throw.

  Strings are lists of UTF-16 code units (\<open>jstr\<close>), because the program slices, measures and scans
  text that is largely Chinese; \<open>asc\<close> embeds ASCII literals. A JavaScript \<open>Map\<close> iterates in
  insertion order, and the program relies on that, so it is an association list with the two
  laws of \<open>Map.prototype.set\<close>: overwriting keeps the position, a new key goes to the end.
  The locale \<open>insertion_map\<close> is the interface the components use; it is interpreted on the
  association lists right after its definition.
\<close>

section \<open>Collections of rules\<close>

named_theorems omap_simps \<open>lookup, keys and well-formedness of insertion-ordered maps\<close>
named_theorems step_defs \<open>definitions unfolded together when one operation is stepped through\<close>

section \<open>Strings\<close>

type_synonym jstr = "nat list"

definition asc :: "string \<Rightarrow> jstr" where
  "asc s = map of_char s"

lemma asc_inject [simp]: "asc s = asc t \<longleftrightarrow> s = t"
proof -
  have "inj (map (of_char :: char \<Rightarrow> nat))"
    by (simp add: inj_of_char)
  then show ?thesis
    by (auto simp: asc_def dest: injD)
qed

lemma length_asc [simp]: "length (asc s) = length s"
  by (simp add: asc_def)

lemma asc_Nil [simp]: "asc [] = []"
  by (simp add: asc_def)

lemma asc_eq_Nil [simp]: "asc s = [] \<longleftrightarrow> s = []"
  by (simp add: asc_def)

lemma asc_append: "asc (s @ t) = asc s @ asc t"
  by (simp add: asc_def)

text \<open>White space as \<open>trim\<close> and \<open>\s\<close> see it (ECMAScript WhiteSpace and LineTerminator).\<close>

definition is_ws :: "nat \<Rightarrow> bool" where
  "is_ws c \<longleftrightarrow> (9 \<le> c \<and> c \<le> 13) \<or> c = 32 \<or> c = 160 \<or> c = 5760 \<or> (8192 \<le> c \<and> c \<le> 8202)
     \<or> c = 8232 \<or> c = 8233 \<or> c = 8239 \<or> c = 8287 \<or> c = 12288 \<or> c = 65279"

definition js_trim :: "jstr \<Rightarrow> jstr" where
  "js_trim s = rev (dropWhile is_ws (rev (dropWhile is_ws s)))"

definition js_starts_with :: "jstr \<Rightarrow> jstr \<Rightarrow> bool" where
  "js_starts_with p s \<longleftrightarrow> take (length p) s = p"

text \<open>\<open>indexOf(p, i)\<close>: the least position from \<open>i\<close> at which \<open>p\<close> occurs.\<close>

fun js_index_aux :: "jstr \<Rightarrow> jstr \<Rightarrow> nat \<Rightarrow> nat option" where
  "js_index_aux p [] i = (if p = [] then Some i else None)"
| "js_index_aux p (c # s) i =
     (if js_starts_with p (c # s) then Some i else js_index_aux p s (Suc i))"

definition js_index_from :: "jstr \<Rightarrow> jstr \<Rightarrow> nat \<Rightarrow> nat option" where
  "js_index_from p s i = js_index_aux p (drop i s) (min i (length s))"

definition js_includes :: "jstr \<Rightarrow> jstr \<Rightarrow> bool" where
  "js_includes p s \<longleftrightarrow> js_index_from p s 0 \<noteq> None"

lemma js_starts_with_append: "js_starts_with p (a @ b) \<Longrightarrow> length p \<le> length a \<Longrightarrow> js_starts_with p a"
  by (simp add: js_starts_with_def)

lemma js_starts_with_extend: "js_starts_with p a \<Longrightarrow> js_starts_with p (a @ b)"
  unfolding js_starts_with_def by (metis append_take_drop_id append_eq_appendI append_eq_conv_conj take_append)

lemma js_index_aux_iff:
  "js_index_aux p s i \<noteq> None \<longleftrightarrow> (\<exists>k \<le> length s. js_starts_with p (drop k s))"
proof (induction s arbitrary: i)
  case Nil
  then show ?case by (auto simp: js_starts_with_def)
next
  case (Cons c s)
  have "(\<exists>k \<le> length (c # s). js_starts_with p (drop k (c # s)))
      \<longleftrightarrow> js_starts_with p (c # s) \<or> (\<exists>k \<le> length s. js_starts_with p (drop k s))"
    by (metis Suc_le_mono drop0 drop_Suc_Cons le0 length_Cons not0_implies_Suc)
  then show ?case using Cons.IH [of "Suc i"] by simp
qed

lemma js_includes_iff: "js_includes p s \<longleftrightarrow> (\<exists>k \<le> length s. js_starts_with p (drop k s))"
  using js_index_aux_iff [of p s "min 0 (length s)"] by (simp add: js_includes_def js_index_from_def)

text \<open>\<open>slice(-n)\<close>: the last \<open>n\<close> units, and the whole string for \<open>n = 0\<close> (as \<open>slice(-0)\<close> is).\<close>

definition js_slice_last :: "nat \<Rightarrow> 'a list \<Rightarrow> 'a list" where
  "js_slice_last n s = (if n = 0 then s else drop (length s - n) s)"

fun js_join :: "jstr \<Rightarrow> jstr list \<Rightarrow> jstr" where
  "js_join sep [] = []"
| "js_join sep [x] = x"
| "js_join sep (x # y # xs) = x @ sep @ js_join sep (y # xs)"

text \<open>Decimal rendering of a natural number, as template literals do it.\<close>

fun dec :: "nat \<Rightarrow> jstr" where
  "dec n = (if n < 10 then [48 + n] else dec (n div 10) @ [48 + n mod 10])"

declare dec.simps [simp del]

lemma dec_value: "foldl (\<lambda>a d. a * 10 + (d - 48)) 0 (dec n) = n"
proof (induction n rule: dec.induct)
  case (1 n)
  show ?case
  proof (cases "n < 10")
    case True
    then show ?thesis by (simp add: dec.simps)
  next
    case False
    with 1 have "foldl (\<lambda>a d. a * 10 + (d - 48)) 0 (dec (n div 10)) = n div 10" by simp
    with False show ?thesis by (subst dec.simps) simp
  qed
qed

lemma dec_inject [simp]: "dec m = dec n \<longleftrightarrow> m = n"
  by (metis dec_value)

lemma js_trim_subset: "set (js_trim s) \<subseteq> set s"
  by (auto simp: js_trim_def dest!: set_dropWhileD)

lemma dropWhile_idem: "dropWhile P (dropWhile P xs) = dropWhile P xs"
  by (induction xs) auto

lemma dropWhile_rev_dropWhile:
  "dropWhile P (rev (dropWhile P (rev (dropWhile P xs)))) = rev (dropWhile P (rev (dropWhile P xs)))"
proof (cases "rev (dropWhile P (rev (dropWhile P xs)))")
  case Nil
  then show ?thesis by (simp only: dropWhile.simps)
next
  case (Cons y ys)
  obtain zs where zs: "rev (dropWhile P xs) = zs @ dropWhile P (rev (dropWhile P xs))"
    by (metis takeWhile_dropWhile_id)
  then have "dropWhile P xs = rev (dropWhile P (rev (dropWhile P xs))) @ rev zs"
    by (metis rev_append rev_rev_ident)
  with Cons have "dropWhile P xs = y # ys @ rev zs" by simp
  then have "\<not> P y" by (metis dropWhile_eq_Cons_conv)
  with Cons show ?thesis by simp
qed

lemma js_trim_idem [simp]: "js_trim (js_trim s) = js_trim s"
  by (simp add: js_trim_def dropWhile_rev_dropWhile dropWhile_idem)

section \<open>Sets built from arrays\<close>

text \<open>\<open>[...new Set(xs)]\<close> keeps the first occurrence of every element.\<close>

definition uniq_first :: "'a list \<Rightarrow> 'a list" where
  "uniq_first xs = rev (remdups (rev xs))"

lemma set_uniq_first [simp]: "set (uniq_first xs) = set xs"
  by (simp add: uniq_first_def)

lemma distinct_uniq_first [simp]: "distinct (uniq_first xs)"
  by (simp add: uniq_first_def)

lemma uniq_first_Nil [simp]: "uniq_first [] = []"
  by (simp add: uniq_first_def)

lemma uniq_first_snoc:
  "uniq_first (xs @ [x]) = (if x \<in> set xs then uniq_first xs else uniq_first xs @ [x])"
  by (simp add: uniq_first_def)

lemma uniq_first_distinct [simp]: "distinct xs \<Longrightarrow> uniq_first xs = xs"
  by (simp add: uniq_first_def distinct_remdups_id)

section \<open>Numbers\<close>

text \<open>
  The numbers the program takes from callers. A finite double is represented by its value
  as a rational, so \<open>Number.isFinite\<close>, \<open>Math.floor\<close> and the comparisons are exact; the three
  values that are not finite are kept apart because the code tests for them.
\<close>

datatype jnum = Num rat | NaN | PosInf | NegInf

definition jnum_finite :: "jnum \<Rightarrow> bool" where
  "jnum_finite x = (case x of Num _ \<Rightarrow> True | _ \<Rightarrow> False)"

text \<open>\<open>Math.floor\<close>, \<open>Math.max(n, x)\<close> for a finite \<open>n\<close>, and \<open>n >= x\<close> with an integer on the left.\<close>

definition jnum_floor :: "jnum \<Rightarrow> jnum" where
  "jnum_floor x = (case x of Num r \<Rightarrow> Num (of_int \<lfloor>r\<rfloor>) | _ \<Rightarrow> x)"

definition jnum_max :: "rat \<Rightarrow> jnum \<Rightarrow> jnum" where
  "jnum_max n x = (case x of Num r \<Rightarrow> Num (max n r) | NaN \<Rightarrow> NaN | PosInf \<Rightarrow> PosInf | NegInf \<Rightarrow> Num n)"

definition nat_ge_jnum :: "nat \<Rightarrow> jnum \<Rightarrow> bool" where
  "nat_ge_jnum n x = (case x of Num r \<Rightarrow> r \<le> of_nat n | NegInf \<Rightarrow> True | _ \<Rightarrow> False)"

text \<open>\<open>Math.round\<close>: halves go up.\<close>

definition js_round :: "rat \<Rightarrow> int" where
  "js_round r = \<lfloor>r + 1 / 2\<rfloor>"

section \<open>Operations that may throw\<close>

text \<open>
  An operation on a state returns the state it leaves behind together with either the value
  it returns or the error it throws, so that what happened before a throw stays visible.
\<close>

type_synonym ('s, 'e, 'a) outcome = "'s \<times> ('e + 'a)"

text \<open>Mapping a throwing function over an array stops at the first throw.\<close>

fun map_err :: "('a \<Rightarrow> 'e + 'b) \<Rightarrow> 'a list \<Rightarrow> 'e + 'b list" where
  "map_err f [] = Inr []"
| "map_err f (x # xs) =
     (case f x of
        Inl e \<Rightarrow> Inl e
      | Inr y \<Rightarrow> (case map_err f xs of Inl e \<Rightarrow> Inl e | Inr ys \<Rightarrow> Inr (y # ys)))"

lemma map_err_Inr_iff:
  "map_err f xs = Inr ys \<longleftrightarrow> list_all2 (\<lambda>x y. f x = Inr y) xs ys"
proof (induction xs arbitrary: ys)
  case Nil
  then show ?case by auto
next
  case (Cons x xs)
  show ?case
    by (cases ys) (auto split: sum.splits simp flip: Cons.IH)
qed

lemma map_err_Inl_iff:
  "map_err f xs = Inl e \<longleftrightarrow>
   (\<exists>us x vs. xs = us @ x # vs \<and> f x = Inl e \<and> (\<forall>u \<in> set us. \<exists>y. f u = Inr y))"
proof (induction xs)
  case Nil
  then show ?case by simp
next
  case (Cons a xs)
  show ?case
  proof (cases "f a")
    case (Inl e')
    then show ?thesis
      by (auto simp: Cons_eq_append_conv intro: exI [of _ "[]"])
  next
    case (Inr b)
    then have "map_err f (a # xs) = Inl e \<longleftrightarrow> map_err f xs = Inl e"
      by (simp split: sum.splits)
    also have "\<dots> \<longleftrightarrow> (\<exists>us x vs. a # xs = us @ x # vs \<and> f x = Inl e \<and> (\<forall>u \<in> set us. \<exists>y. f u = Inr y))"
      using Inr by (fastforce simp: Cons.IH Cons_eq_append_conv intro: exI [of _ "a # _"])
    finally show ?thesis .
  qed
qed

section \<open>Insertion-ordered maps\<close>

type_synonym ('k, 'v) omap = "('k \<times> 'v) list"

abbreviation om_get :: "('k, 'v) omap \<Rightarrow> 'k \<Rightarrow> 'v option" where
  "om_get \<equiv> map_of"

fun om_set :: "'k \<Rightarrow> 'v \<Rightarrow> ('k, 'v) omap \<Rightarrow> ('k, 'v) omap" where
  "om_set k v [] = [(k, v)]"
| "om_set k v ((k', v') # m) = (if k = k' then (k, v) # m else (k', v') # om_set k v m)"

definition om_del :: "'k \<Rightarrow> ('k, 'v) omap \<Rightarrow> ('k, 'v) omap" where
  "om_del k m = filter (\<lambda>p. fst p \<noteq> k) m"

abbreviation om_keys :: "('k, 'v) omap \<Rightarrow> 'k list" where
  "om_keys m \<equiv> map fst m"

abbreviation om_wf :: "('k, 'v) omap \<Rightarrow> bool" where
  "om_wf m \<equiv> distinct (om_keys m)"

definition om_has :: "('k, 'v) omap \<Rightarrow> 'k \<Rightarrow> bool" where
  "om_has m k \<longleftrightarrow> k \<in> set (om_keys m)"

text \<open>Storing several bindings, the first one first.\<close>

definition put_all :: "('k \<Rightarrow> 'v \<Rightarrow> 'm \<Rightarrow> 'm) \<Rightarrow> ('k \<times> 'v) list \<Rightarrow> 'm \<Rightarrow> 'm" where
  "put_all put kvs m = foldl (\<lambda>m (k, v). put k v m) m kvs"

abbreviation om_put_all :: "('k \<times> 'v) list \<Rightarrow> ('k, 'v) omap \<Rightarrow> ('k, 'v) omap" where
  "om_put_all \<equiv> put_all om_set"

text \<open>The interface: what a client of a \<open>Map\<close> may rely on.\<close>

locale insertion_map =
  fixes get :: "'m \<Rightarrow> 'k \<Rightarrow> 'v option"
    and put :: "'k \<Rightarrow> 'v \<Rightarrow> 'm \<Rightarrow> 'm"
    and del :: "'k \<Rightarrow> 'm \<Rightarrow> 'm"
    and keys :: "'m \<Rightarrow> 'k list"
    and inv :: "'m \<Rightarrow> bool"
  assumes get_put: "get (put k v m) = (get m)(k \<mapsto> v)"
    and get_del: "get (del k m) = (get m)(k := None)"
    and keys_put: "keys (put k v m) = (if k \<in> set (keys m) then keys m else keys m @ [k])"
    and keys_del: "keys (del k m) = filter (\<lambda>x. x \<noteq> k) (keys m)"
    and dom_get: "dom (get m) = set (keys m)"
    and inv_put: "inv m \<Longrightarrow> inv (put k v m)"
    and inv_del: "inv m \<Longrightarrow> inv (del k m)"
    and inv_keys: "inv m \<Longrightarrow> distinct (keys m)"
begin

lemma put_all_simps: "put_all put [] m = m" "put_all put ((k, v) # kvs) m = put_all put kvs (put k v m)"
  by (simp_all add: put_all_def)

lemma put_all_snoc: "put_all put (kvs @ [(k, v)]) m = put k v (put_all put kvs m)"
  by (simp add: put_all_def)

lemma get_put_all: "get (put_all put kvs m) = get m ++ map_of (rev kvs)"
  by (induction kvs arbitrary: m) (auto simp: put_all_simps get_put map_add_upd_left fun_eq_iff map_add_def
      split: option.splits)

lemma inv_put_all: "inv m \<Longrightarrow> inv (put_all put kvs m)"
  by (induction kvs arbitrary: m) (auto simp: put_all_simps inv_put)

lemma keys_put_all:
  "keys (put_all put kvs m) = keys m @ filter (\<lambda>k. k \<notin> set (keys m)) (uniq_first (map fst kvs))"
proof (induction kvs rule: rev_induct)
  case Nil
  then show ?case by (simp add: put_all_simps)
next
  case (snoc p kvs)
  obtain k v where p: "p = (k, v)" by (cases p)
  show ?case
    by (auto simp: p put_all_snoc keys_put snoc.IH uniq_first_snoc)
qed

end

lemma map_of_om_set: "map_of (om_set k v m) = (map_of m)(k \<mapsto> v)"
  by (induction k v m rule: om_set.induct) (auto simp: fun_eq_iff)

lemma map_of_om_del: "map_of (om_del k m) = (map_of m)(k := None)"
  by (induction m) (auto simp: fun_eq_iff om_del_def)

lemma keys_om_set: "om_keys (om_set k v m) = (if k \<in> set (om_keys m) then om_keys m else om_keys m @ [k])"
  by (induction k v m rule: om_set.induct) (auto split: if_splits)

lemma keys_om_del: "om_keys (om_del k m) = filter (\<lambda>x. x \<noteq> k) (om_keys m)"
  by (simp add: om_del_def filter_map comp_def)

interpretation om: insertion_map om_get om_set om_del om_keys om_wf
  by unfold_locales
    (auto simp: map_of_om_set map_of_om_del keys_om_set keys_om_del dom_map_of_conv_image_fst)

lemmas om_laws [omap_simps] =
  map_of_om_set map_of_om_del keys_om_set keys_om_del om.get_put_all om.keys_put_all

lemma om_set_wf [simp]: "om_wf m \<Longrightarrow> om_wf (om_set k v m)"
  by (rule om.inv_put)

lemma om_del_wf [simp]: "om_wf m \<Longrightarrow> om_wf (om_del k m)"
  by (rule om.inv_del)

lemma om_del_absent: "k \<notin> set (om_keys m) \<Longrightarrow> om_del k m = m"
  by (auto simp: om_del_def filter_id_conv)

lemma om_set_absent: "k \<notin> set (om_keys m) \<Longrightarrow> om_set k v m = m @ [(k, v)]"
  by (induction k v m rule: om_set.induct) auto

lemma fst_set_om_set [simp]: "fst ` set (om_set k v m) = insert k (fst ` set m)"
  using arg_cong [OF keys_om_set [of k v m], of set] by (auto split: if_splits)

lemma fst_set_om_del [simp]: "fst ` set (om_del k m) = fst ` set m - {k}"
  by (auto simp: om_del_def)

lemma set_om_set_subset: "set (om_set k v m) \<subseteq> insert (k, v) (set m)"
  by (induction k v m rule: om_set.induct) (auto split: if_splits)

lemma set_om_set: "om_wf m \<Longrightarrow> set (om_set k v m) = insert (k, v) {p \<in> set m. fst p \<noteq> k}"
  by (induction k v m rule: om_set.induct) (auto simp: image_iff split: if_splits)

lemma set_om_del: "set (om_del k m) = {p \<in> set m. fst p \<noteq> k}"
  by (auto simp: om_del_def)

lemma om_put_all_fresh:
  "distinct (map fst kvs) \<Longrightarrow> fst ` set kvs \<inter> fst ` set m = {} \<Longrightarrow> om_put_all kvs m = m @ kvs"
proof (induction kvs arbitrary: m)
  case Nil
  then show ?case by (simp add: om.put_all_simps)
next
  case (Cons kv kvs)
  obtain k v where kv: "kv = (k, v)" by (cases kv)
  have "om_set k v m = m @ [(k, v)]" using Cons.prems kv by (intro om_set_absent) auto
  moreover have "om_put_all kvs (m @ [(k, v)]) = (m @ [(k, v)]) @ kvs"
    using Cons.prems kv by (intro Cons.IH) auto
  ultimately show ?case by (simp add: kv om.put_all_simps)
qed

end
