(* ===== verification/Todo_Store.thy ===== *)
theory Todo_Store
  imports Prelude
begin

text \<open>
  The session todo list (\<open>packages/core/src/todo/todoStore.ts\<close>): the records a caller passes in
  (\<open>raw_todo\<close>, whose status is any string), the validated items the store keeps, and its
  operations \<open>write\<close>, \<open>clear\<close>, \<open>restore\<close>, \<open>snapshot\<close>, \<open>onChange\<close> and \<open>formatForPrompt\<close>.
  A listener is an opaque value; the field \<open>notified\<close> records the calls \<open>emitChange\<close> makes.
\<close>

datatype todo_status = Pending | In_progress | Completed | Cancelled

record raw_todo =
  raw_id :: jstr
  raw_content :: jstr
  raw_status :: jstr

record todo_item =
  todo_id :: jstr
  todo_content :: jstr
  todo_state :: todo_status

datatype todo_error = EmptyTodoId | EmptyTodoContent jstr | InvalidTodoStatus jstr jstr

record 'l todo_store =
  items :: "todo_item list"
  listeners :: "'l list"
  notified :: "'l list"

record todo_snapshot =
  snap_todos :: "todo_item list"
  snap_counts :: "todo_status \<Rightarrow> nat"

definition todo_status_text :: "todo_status \<Rightarrow> jstr" where
  "todo_status_text st = (case st of
     Pending \<Rightarrow> asc ''pending'' | In_progress \<Rightarrow> asc ''in_progress''
   | Completed \<Rightarrow> asc ''completed'' | Cancelled \<Rightarrow> asc ''cancelled'')"

text \<open>\<open>isTodoStatus\<close>, returning the status it recognises.\<close>

definition parse_todo_status :: "jstr \<Rightarrow> todo_status option" where
  "parse_todo_status s =
     (if s = asc ''pending'' then Some Pending
      else if s = asc ''in_progress'' then Some In_progress
      else if s = asc ''completed'' then Some Completed
      else if s = asc ''cancelled'' then Some Cancelled
      else None)"

definition normalize_todo_item :: "raw_todo \<Rightarrow> todo_error + todo_item" where
  "normalize_todo_item r =
     (let i = js_trim (raw_id r); c = js_trim (raw_content r)
      in if i = [] then Inl EmptyTodoId
         else if c = [] then Inl (EmptyTodoContent i)
         else (case parse_todo_status (raw_status r) of
                 None \<Rightarrow> Inl (InvalidTodoStatus i (raw_status r))
               | Some st \<Rightarrow> Inr \<lparr>todo_id = i, todo_content = c, todo_state = st\<rparr>))"

definition by_id :: "todo_item list \<Rightarrow> (jstr \<times> todo_item) list" where
  "by_id ts = map (\<lambda>t. (todo_id t, t)) ts"

definition dedupe_by_id :: "todo_item list \<Rightarrow> todo_item list" where
  "dedupe_by_id ts = map snd (om_put_all (by_id ts) [])"

definition todo_snapshot_of :: "'l todo_store \<Rightarrow> todo_snapshot" where
  "todo_snapshot_of s =
     \<lparr>snap_todos = items s, snap_counts = (\<lambda>st. length (filter (\<lambda>t. todo_state t = st) (items s)))\<rparr>"

definition emit_change :: "'l todo_store \<Rightarrow> 'l todo_store" where
  "emit_change s = s\<lparr>notified := notified s @ listeners s\<rparr>"

text \<open>\<open>onChange\<close> adds to a \<open>Set\<close>, the function it returns removes from it.\<close>

definition on_change :: "'l \<Rightarrow> 'l todo_store \<Rightarrow> 'l todo_store" where
  "on_change l s = s\<lparr>listeners := (if l \<in> set (listeners s) then listeners s else listeners s @ [l])\<rparr>"

definition off_change :: "'l \<Rightarrow> 'l todo_store \<Rightarrow> 'l todo_store" where
  "off_change l s = s\<lparr>listeners := filter (\<lambda>x. x \<noteq> l) (listeners s)\<rparr>"

text \<open>
  \<open>write\<close>: \<open>merge\<close> defaults to true. The whole input is validated before the list is touched.
\<close>

definition todo_write ::
  "raw_todo list \<Rightarrow> bool option \<Rightarrow> 'l todo_store \<Rightarrow> ('l todo_store, todo_error, todo_snapshot) outcome" where
  "todo_write todos merge s =
     (case map_err normalize_todo_item todos of
        Inl e \<Rightarrow> (s, Inl e)
      | Inr incoming \<Rightarrow>
          (let s' = (if merge = Some False then s\<lparr>items := dedupe_by_id incoming\<rparr>
                     else s\<lparr>items := map snd (om_put_all (by_id incoming) (om_put_all (by_id (items s)) []))\<rparr>);
               s'' = emit_change s'
           in (s'', Inr (todo_snapshot_of s''))))"

definition todo_clear :: "'l todo_store \<Rightarrow> 'l todo_store" where
  "todo_clear s = emit_change (s\<lparr>items := []\<rparr>)"

definition todo_restore ::
  "raw_todo list \<Rightarrow> 'l todo_store \<Rightarrow> ('l todo_store, todo_error, todo_snapshot) outcome" where
  "todo_restore todos s =
     (case map_err normalize_todo_item todos of
        Inl e \<Rightarrow> (s, Inl e)
      | Inr incoming \<Rightarrow>
          (let s' = emit_change (s\<lparr>items := dedupe_by_id incoming\<rparr>)
           in (s', Inr (todo_snapshot_of s'))))"

definition status_mark :: "todo_status \<Rightarrow> jstr" where
  "status_mark st = (case st of
     Pending \<Rightarrow> asc ''[ ]'' | In_progress \<Rightarrow> asc ''[~]''
   | Completed \<Rightarrow> asc ''[x]'' | Cancelled \<Rightarrow> asc ''[-]'')"

definition format_for_prompt :: "'l todo_store \<Rightarrow> jstr" where
  "format_for_prompt s =
     (if items s = [] then []
      else let counts = snap_counts (todo_snapshot_of s)
           in js_join [10]
                (asc ''Session todo list (update via TodoWrite; mark in_progress/completed as you work):''
                 # map (\<lambda>t. status_mark (todo_state t) @ asc '' '' @ todo_id t @ asc '': '' @ todo_content t) (items s)
                 @ [asc ''Progress: '' @ dec (counts Completed) @ asc ''/'' @ dec (length (items s))
                    @ asc '' completed, '' @ dec (counts In_progress) @ asc '' in progress, ''
                    @ dec (counts Pending) @ asc '' pending.'']))"

section \<open>Well-formed stores\<close>

definition todo_item_ok :: "todo_item \<Rightarrow> bool" where
  "todo_item_ok t \<longleftrightarrow> todo_id t \<noteq> [] \<and> todo_content t \<noteq> []
     \<and> js_trim (todo_id t) = todo_id t \<and> js_trim (todo_content t) = todo_content t"

definition todo_wf :: "'l todo_store \<Rightarrow> bool" where
  "todo_wf s \<longleftrightarrow> distinct (map todo_id (items s)) \<and> list_all todo_item_ok (items s)"

text \<open>The item stored under an id.\<close>

definition todo_lookup :: "todo_item list \<Rightarrow> jstr \<Rightarrow> todo_item option" where
  "todo_lookup ts i = map_of (by_id ts) i"

lemma keys_by_id [simp]: "map fst (by_id ts) = map todo_id ts"
  by (simp add: by_id_def)

lemma vals_by_id [simp]: "map snd (by_id ts) = ts"
  by (simp add: by_id_def comp_def)

lemma by_id_rev: "rev (by_id ts) = by_id (rev ts)"
  by (simp add: by_id_def rev_map)

lemma normalize_todo_item_ok: "normalize_todo_item r = Inr t \<Longrightarrow> todo_item_ok t"
  by (auto simp: normalize_todo_item_def todo_item_ok_def Let_def split: if_splits option.splits)

lemma map_normalize_ok: "map_err normalize_todo_item rs = Inr ts \<Longrightarrow> list_all todo_item_ok ts"
  by (auto simp: map_err_Inr_iff list_all_iff list_all2_conv_all_nth in_set_conv_nth
      dest!: normalize_todo_item_ok)

text \<open>Entries of a map built from items stay keyed by their own ids.\<close>

definition self_keyed :: "(jstr \<times> todo_item) list \<Rightarrow> bool" where
  "self_keyed m \<longleftrightarrow> (\<forall>(k, t) \<in> set m. k = todo_id t)"

lemma self_keyed_by_id: "self_keyed (by_id ts)"
  by (auto simp: self_keyed_def by_id_def)

lemma insert_subset_union: "A \<subseteq> B \<union> C \<Longrightarrow> B \<subseteq> insert t D \<Longrightarrow> A \<subseteq> D \<union> insert t C"
  by blast

lemma self_keyed_put_all:
  "self_keyed m \<Longrightarrow> self_keyed (om_put_all (by_id ts) m) \<and>
     snd ` set (om_put_all (by_id ts) m) \<subseteq> snd ` set m \<union> set ts"
proof (induction ts arbitrary: m)
  case Nil
  then show ?case by (simp add: by_id_def om.put_all_simps)
next
  case (Cons t ts)
  have sub: "set (om_set (todo_id t) t m) \<subseteq> insert (todo_id t, t) (set m)"
    by (rule set_om_set_subset)
  with Cons.prems have "self_keyed (om_set (todo_id t) t m)"
    by (auto simp: self_keyed_def)
  note ih = Cons.IH [OF this]
  have "snd ` set (om_set (todo_id t) t m) \<subseteq> insert t (snd ` set m)"
    using image_mono [OF sub, of snd] by simp
  with ih have "snd ` set (om_put_all (by_id ts) (om_set (todo_id t) t m)) \<subseteq> snd ` set m \<union> insert t (set ts)"
    by (meson insert_subset_union subset_trans)
  moreover have "om_put_all (by_id (t # ts)) m = om_put_all (by_id ts) (om_set (todo_id t) t m)"
    by (simp add: by_id_def om.put_all_simps)
  ultimately show ?case using ih by simp
qed

lemma by_id_vals: "self_keyed m \<Longrightarrow> by_id (map snd m) = m"
  by (induction m) (auto simp: self_keyed_def by_id_def)

lemma upsert_items:
  assumes "distinct (map todo_id old)"
  shows "by_id (map snd (om_put_all (by_id new) (om_put_all (by_id old) []))) = om_put_all (by_id new) (by_id old)"
    and "om_put_all (by_id old) [] = by_id old"
proof -
  have put_old: "om_put_all (by_id us) m = m @ by_id us"
    if "distinct (map todo_id us)" "set (map fst m) \<inter> set (map todo_id us) = {}" for us m
    using that
  proof (induction us arbitrary: m)
    case Nil
    then show ?case by (simp add: by_id_def om.put_all_simps)
  next
    case (Cons u us)
    have "om_set (todo_id u) u m = m @ [(todo_id u, u)]"
      using Cons.prems by (intro om_set_absent) auto
    moreover have "om_put_all (by_id us) (m @ [(todo_id u, u)]) = (m @ [(todo_id u, u)]) @ by_id us"
      using Cons.prems by (intro Cons.IH) auto
    ultimately show ?case by (simp add: by_id_def om.put_all_simps)
  qed
  then show eq: "om_put_all (by_id old) [] = by_id old"
    using assms by simp
  show "by_id (map snd (om_put_all (by_id new) (om_put_all (by_id old) []))) = om_put_all (by_id new) (by_id old)"
    unfolding eq by (rule by_id_vals) (use self_keyed_put_all [OF self_keyed_by_id] in blast)
qed

lemma dedupe_wf:
  assumes "list_all todo_item_ok ts"
  shows "distinct (map todo_id (dedupe_by_id ts)) \<and> list_all todo_item_ok (dedupe_by_id ts)"
proof -
  have sk: "self_keyed (om_put_all (by_id ts) [])" "snd ` set (om_put_all (by_id ts) []) \<subseteq> set ts"
    using self_keyed_put_all [of "[]" ts] by (auto simp: self_keyed_def)
  have "map todo_id (dedupe_by_id ts) = map fst (om_put_all (by_id ts) [])"
    using arg_cong [OF by_id_vals [OF sk(1)], of "map fst"] by (simp add: dedupe_by_id_def)
  moreover have "om_wf (om_put_all (by_id ts) [])"
    by (rule om.inv_put_all) simp
  moreover have "list_all todo_item_ok (dedupe_by_id ts)"
    using assms sk(2) by (force simp: dedupe_by_id_def list_all_iff)
  ultimately show ?thesis by simp
qed

lemma upsert_wf:
  assumes "list_all todo_item_ok new" "distinct (map todo_id old)" "list_all todo_item_ok old"
  defines "ts \<equiv> map snd (om_put_all (by_id new) (om_put_all (by_id old) []))"
  shows "distinct (map todo_id ts) \<and> list_all todo_item_ok ts"
proof -
  have bi: "by_id ts = om_put_all (by_id new) (by_id old)"
    unfolding ts_def by (rule upsert_items(1) [OF assms(2)])
  have "map todo_id ts = map fst (om_put_all (by_id new) (by_id old))"
    using arg_cong [OF bi, of "map fst"] by simp
  moreover have "om_wf (om_put_all (by_id new) (by_id old))"
    using assms(2) by (intro om.inv_put_all) simp
  moreover have "set ts \<subseteq> set old \<union> set new"
  proof -
    have "snd ` set (om_put_all (by_id new) (by_id old)) \<subseteq> snd ` set (by_id old) \<union> set new"
      using self_keyed_put_all [OF self_keyed_by_id] by blast
    moreover have "snd ` set (by_id old) = set old" by (metis list.set_map vals_by_id)
    moreover have "set ts = snd ` set (by_id ts)" by (metis list.set_map vals_by_id)
    ultimately show ?thesis by (simp add: bi)
  qed
  ultimately show ?thesis using assms(1,3) by (auto simp: list_all_iff)
qed

lemma todo_wf_emit [simp]: "todo_wf (emit_change s) \<longleftrightarrow> todo_wf s"
  by (simp add: todo_wf_def emit_change_def)

lemma items_emit [simp]: "items (emit_change s) = items s"
  by (simp add: emit_change_def)

lemma todo_wf_items: "todo_wf (s\<lparr>items := ts\<rparr>) \<longleftrightarrow> distinct (map todo_id ts) \<and> list_all todo_item_ok ts"
  by (simp add: todo_wf_def)

section \<open>Properties\<close>

text \<open>
  C1. Every operation keeps the list well formed: ids are distinct, ids and contents are
  non-empty and trimmed. A \<open>write\<close> or \<open>restore\<close> whose input has an invalid item throws before
  anything changed: the list is as it was and no listener is called.
\<close>

theorem todo_operations_keep_wf:
  assumes "todo_wf s"
  shows "todo_wf (fst (todo_write todos merge s)) \<and> todo_wf (fst (todo_restore todos s))
    \<and> todo_wf (todo_clear s)
    \<and> (snd (todo_write todos merge s) = Inl e \<longrightarrow> fst (todo_write todos merge s) = s)
    \<and> (snd (todo_restore todos s) = Inl e \<longrightarrow> fst (todo_restore todos s) = s)"
proof (intro conjI)
  have ded: "todo_wf (s\<lparr>items := dedupe_by_id ts\<rparr>)" if "map_err normalize_todo_item todos = Inr ts" for ts
    using map_normalize_ok [OF that] dedupe_wf by (simp add: todo_wf_items)
  have ups: "todo_wf (s\<lparr>items := map snd (om_put_all (by_id ts) (om_put_all (by_id (items s)) []))\<rparr>)"
    if "map_err normalize_todo_item todos = Inr ts" for ts
    using map_normalize_ok [OF that] upsert_wf assms by (simp add: todo_wf_items todo_wf_def)
  show "todo_wf (fst (todo_write todos merge s))"
    using assms ded ups by (auto simp: todo_write_def Let_def split: sum.splits)
  show "todo_wf (fst (todo_restore todos s))"
    using assms ded by (auto simp: todo_restore_def Let_def split: sum.splits)
qed (auto simp: todo_write_def todo_restore_def todo_clear_def todo_wf_items Let_def split: sum.splits)

text \<open>A store with two items, and a write that changes the first and adds a third.\<close>

definition sample_store :: "nat todo_store" where
  "sample_store = \<lparr>items = [\<lparr>todo_id = asc ''a'', todo_content = asc ''x'', todo_state = Pending\<rparr>,
     \<lparr>todo_id = asc ''b'', todo_content = asc ''y'', todo_state = Pending\<rparr>], listeners = [7], notified = []\<rparr>"

definition sample_write :: "raw_todo list" where
  "sample_write = [\<lparr>raw_id = asc ''a'', raw_content = asc ''x'', raw_status = asc ''completed''\<rparr>,
     \<lparr>raw_id = asc ''c'', raw_content = asc ''z'', raw_status = asc ''pending''\<rparr>]"

definition sample_new :: "todo_item list" where
  "sample_new = [\<lparr>todo_id = asc ''a'', todo_content = asc ''x'', todo_state = Completed\<rparr>,
     \<lparr>todo_id = asc ''c'', todo_content = asc ''z'', todo_state = Pending\<rparr>]"

lemma sample_store_wf: "todo_wf sample_store"
  by (simp add: todo_wf_def sample_store_def todo_item_ok_def js_trim_def asc_def is_ws_def)

lemma sample_write_valid: "map_err normalize_todo_item sample_write = Inr sample_new"
  by (simp add: sample_write_def sample_new_def normalize_todo_item_def parse_todo_status_def
      js_trim_def is_ws_def asc_def)

theorem todo_operations_keep_wf_witness:
  "todo_wf sample_store \<and> todo_wf (fst (todo_write sample_write None sample_store))"
  using todo_operations_keep_wf [OF sample_store_wf, of sample_write None] sample_store_wf by simp

text \<open>
  C2. A merging \<open>write\<close> is an upsert by id: afterwards every id the input mentions has the last
  item the input gives for it, every other id keeps its item, the old ids keep their order and
  the new ids follow in the order of their first mention.
\<close>

theorem todo_write_upserts:
  assumes wf: "todo_wf s" and merge: "merge \<noteq> Some False"
    and valid: "map_err normalize_todo_item todos = Inr new"
  shows "(\<forall>i. todo_lookup (items (fst (todo_write todos merge s))) i =
           (case todo_lookup (rev new) i of None \<Rightarrow> todo_lookup (items s) i | Some t \<Rightarrow> Some t))
    \<and> map todo_id (items (fst (todo_write todos merge s))) =
           map todo_id (items s)
           @ filter (\<lambda>k. k \<notin> set (map todo_id (items s))) (uniq_first (map todo_id new))"
proof -
  let ?ts = "items (fst (todo_write todos merge s))"
  have "?ts = map snd (om_put_all (by_id new) (om_put_all (by_id (items s)) []))"
    using merge by (simp add: todo_write_def valid Let_def)
  then have bi: "by_id ?ts = om_put_all (by_id new) (by_id (items s))"
    using upsert_items(1) wf by (simp add: todo_wf_def)
  have "todo_lookup ?ts i = (case todo_lookup (rev new) i of None \<Rightarrow> todo_lookup (items s) i | Some t \<Rightarrow> Some t)" for i
    by (simp add: todo_lookup_def bi om.get_put_all by_id_rev map_add_def split: option.split)
  moreover have "map todo_id ?ts = map todo_id (items s)
           @ filter (\<lambda>k. k \<notin> set (map todo_id (items s))) (uniq_first (map todo_id new))"
    using arg_cong [OF bi, of "map fst"] by (simp add: om.keys_put_all)
  ultimately show ?thesis by blast
qed

theorem todo_write_upserts_witness:
  "map todo_id (items (fst (todo_write sample_write None sample_store))) = [asc ''a'', asc ''b'', asc ''c'']"
  using todo_write_upserts [OF sample_store_wf _ sample_write_valid, of None]
  by (simp add: sample_store_def sample_new_def uniq_first_def)

end
