(* ===== verification/Tool_Types.thy ===== *)
theory Tool_Types
  imports Prelude "HOL-Library.Sorting_Algorithms"
begin

text \<open>
  The vocabulary the runtime components share: JSON values and their text, messages and tool
  calls of the model protocol (\<open>llm/types.ts\<close>), tool metadata, risks, approvals and the abort
  signal (\<open>tools/toolGateway.ts\<close>, \<open>abort.ts\<close>).

  A JSON object lists its entries in the order \<open>Object.entries\<close> yields them. The rendering of a
  number is the parameter \<open>num_text\<close> and the collation \<open>localeCompare\<close> is a comparator
  parameter (\<open>HOL-Library.Sorting_Algorithms\<close>), since both are fixed by the JavaScript engine
  and its locale data.
\<close>

section \<open>JSON\<close>

datatype json =
    JUndefined
  | JNull
  | JBool bool
  | JNum jnum
  | JStr jstr
  | JArr "json list"
  | JObj "(jstr \<times> json) list"

definition hex_digit :: "nat \<Rightarrow> nat" where
  "hex_digit d = (if d < 10 then 48 + d else 87 + d)"

definition hex4 :: "nat \<Rightarrow> jstr" where
  "hex4 c = [hex_digit (c div 4096 mod 16), hex_digit (c div 256 mod 16),
             hex_digit (c div 16 mod 16), hex_digit (c mod 16)]"

definition is_high_surrogate :: "nat \<Rightarrow> bool" where
  "is_high_surrogate c \<longleftrightarrow> 55296 \<le> c \<and> c \<le> 56319"

definition is_low_surrogate :: "nat \<Rightarrow> bool" where
  "is_low_surrogate c \<longleftrightarrow> 56320 \<le> c \<and> c \<le> 57343"

text \<open>The escapes of \<open>JSON.stringify\<close>; a lone surrogate is written as an escape.\<close>

definition quote_unit :: "nat \<Rightarrow> jstr" where
  "quote_unit c =
     (if c = 34 then [92, 34] else if c = 92 then [92, 92]
      else if c = 8 then [92, 98] else if c = 12 then [92, 102]
      else if c = 10 then [92, 110] else if c = 13 then [92, 114] else if c = 9 then [92, 116]
      else if c < 32 \<or> is_high_surrogate c \<or> is_low_surrogate c then [92, 117] @ hex4 c
      else [c])"

fun quote_units :: "jstr \<Rightarrow> jstr" where
  "quote_units [] = []"
| "quote_units [c] = quote_unit c"
| "quote_units (c # d # s) =
     (if is_high_surrogate c \<and> is_low_surrogate d then c # d # quote_units s
      else quote_unit c @ quote_units (d # s))"

definition json_quote :: "jstr \<Rightarrow> jstr" where
  "json_quote s = [34] @ quote_units s @ [34]"

text \<open>
  \<open>JSON.stringify\<close>: \<open>None\<close> is \<open>undefined\<close>, which it returns for \<open>undefined\<close>; inside an array that
  becomes \<open>null\<close> and inside an object the entry is left out.
\<close>

fun stringify :: "(jnum \<Rightarrow> jstr) \<Rightarrow> json \<Rightarrow> jstr option" where
  "stringify nt JUndefined = None"
| "stringify nt JNull = Some (asc ''null'')"
| "stringify nt (JBool b) = Some (if b then asc ''true'' else asc ''false'')"
| "stringify nt (JNum n) = Some (if jnum_finite n then nt n else asc ''null'')"
| "stringify nt (JStr s) = Some (json_quote s)"
| "stringify nt (JArr xs) =
     Some ([91] @ js_join [44] (map (\<lambda>x. case stringify nt x of None \<Rightarrow> asc ''null'' | Some t \<Rightarrow> t) xs) @ [93])"
| "stringify nt (JObj es) =
     Some ([123] @ js_join [44]
       (concat (map (\<lambda>(k, x). case stringify nt x of None \<Rightarrow> [] | Some t \<Rightarrow> [json_quote k @ [58] @ t]) es)) @ [125])"

section \<open>Messages of the model protocol\<close>

record tool_call =
  call_id :: jstr
  call_name :: jstr
  call_input :: json

datatype chat_role = RSystem | RUser | RAssistant

datatype message =
    ChatMsg chat_role jstr "tool_call list option"
  | ToolMsg jstr jstr jstr \<comment> \<open>tool call id, tool name, content\<close>

fun msg_content :: "message \<Rightarrow> jstr" where
  "msg_content (ChatMsg r c tcs) = c"
| "msg_content (ToolMsg i n c) = c"

fun is_tool_msg :: "message \<Rightarrow> bool" where
  "is_tool_msg (ToolMsg i n c) = True"
| "is_tool_msg (ChatMsg r c tcs) = False"

fun is_assistant_msg :: "message \<Rightarrow> bool" where
  "is_assistant_msg (ChatMsg RAssistant c tcs) = True"
| "is_assistant_msg m = False"

text \<open>The ids an assistant message requests and the id a tool message answers.\<close>

fun requested_ids :: "message \<Rightarrow> jstr list" where
  "requested_ids (ChatMsg RAssistant c (Some tcs)) = map call_id tcs"
| "requested_ids m = []"

fun answered_ids :: "message \<Rightarrow> jstr list" where
  "answered_ids (ToolMsg i n c) = [i]"
| "answered_ids (ChatMsg r c tcs) = []"

text \<open>A tool call as the object literal the provider adapters build.\<close>

definition tool_call_json :: "tool_call \<Rightarrow> json" where
  "tool_call_json c =
     JObj [(asc ''id'', JStr (call_id c)), (asc ''name'', JStr (call_name c)), (asc ''input'', call_input c)]"

section \<open>Tools\<close>

datatype tool_risk = Read | Write | Execute | Network

datatype approval_action = Allow | Ask | Deny

datatype access_scope = WorkspaceScope | SystemScope

record approval_decision =
  action :: approval_action
  decision_reason :: "jstr option"

record tool_metadata =
  tm_name :: jstr
  tm_description :: jstr
  tm_risk :: tool_risk
  tm_category :: "jstr option"
  tm_parameters :: json

definition risk_text :: "tool_risk \<Rightarrow> jstr" where
  "risk_text r = (case r of Read \<Rightarrow> asc ''read'' | Write \<Rightarrow> asc ''write''
     | Execute \<Rightarrow> asc ''execute'' | Network \<Rightarrow> asc ''network'')"

text \<open>\<open>tool.category?.startsWith(prefix)\<close>, with \<open>undefined\<close> counted as false.\<close>

definition in_category :: "jstr \<Rightarrow> jstr option \<Rightarrow> bool" where
  "in_category p c = (case c of None \<Rightarrow> False | Some s \<Rightarrow> js_starts_with p s)"

definition obj_field :: "jstr \<Rightarrow> json \<Rightarrow> json" where
  "obj_field k v = (case v of JObj es \<Rightarrow> (case map_of es k of Some x \<Rightarrow> x | None \<Rightarrow> JUndefined) | _ \<Rightarrow> JUndefined)"

definition as_string :: "json \<Rightarrow> jstr option" where
  "as_string v = (case v of JStr s \<Rightarrow> Some s | _ \<Rightarrow> None)"

section \<open>Errors and the abort signal\<close>

text \<open>
  A thrown \<open>Error\<close> object as the runtime inspects it: its \<open>name\<close> and \<open>message\<close>, the numeric
  \<open>status\<close> and the \<open>code\<close> it may carry, and whether it is a \<open>ToolBoundaryError\<close>. A thrown value
  that is no \<open>Error\<close> is kept with its \<open>String(...)\<close> text.
\<close>

record js_error =
  is_error :: bool
  err_name :: jstr
  err_message :: jstr
  err_code :: "jstr option"
  err_status :: "jnum option"
  is_boundary :: bool

definition plain_error :: "jstr \<Rightarrow> js_error" where
  "plain_error m = \<lparr>is_error = True, err_name = asc ''Error'', err_message = m, err_code = None,
     err_status = None, is_boundary = False\<rparr>"

definition named_error :: "string \<Rightarrow> jstr \<Rightarrow> js_error" where
  "named_error n m = (plain_error m)\<lparr>err_name := asc n\<rparr>"

text \<open>\<open>signal.reason\<close>: absent, an \<open>Error\<close>, a string, or another value with its text.\<close>

datatype abort_reason_value = NoReason | ErrReason js_error | StrReason jstr | OtherReason jstr

text \<open>The signal at the moment it is read: \<open>None\<close> is "no signal or not aborted".\<close>

type_synonym abort_state = "abort_reason_value option"

definition operation_aborted :: "jstr \<Rightarrow> js_error" where
  "operation_aborted m = named_error ''AbortError'' m"

definition abort_reason :: "abort_state \<Rightarrow> jstr \<Rightarrow> js_error" where
  "abort_reason sig fallback = (case sig of
     Some (ErrReason e) \<Rightarrow> e
   | Some (StrReason s) \<Rightarrow> operation_aborted s
   | Some (OtherReason s) \<Rightarrow> operation_aborted s
   | _ \<Rightarrow> operation_aborted fallback)"

definition throw_if_aborted :: "abort_state \<Rightarrow> js_error + unit" where
  "throw_if_aborted sig = (case sig of
     None \<Rightarrow> Inr () | Some _ \<Rightarrow> Inl (abort_reason sig (asc ''Operation aborted'')))"

definition is_operation_aborted :: "js_error \<Rightarrow> abort_state \<Rightarrow> bool" where
  "is_operation_aborted e sig \<longleftrightarrow> sig \<noteq> None \<or> (is_error e \<and> err_name e = asc ''AbortError'')"

text \<open>The Chinese fallback of \<open>abortMessage\<close> ("interrupted by the user") in UTF-16 units.\<close>

definition user_interrupt_text :: jstr where
  "user_interrupt_text = [29992, 25143, 20013, 26029]"

definition abort_message :: "abort_state \<Rightarrow> jstr \<Rightarrow> jstr" where
  "abort_message sig fallback = (case sig of
     Some (ErrReason e) \<Rightarrow> if js_trim (err_message e) \<noteq> [] then err_message e else fallback
   | Some (StrReason s) \<Rightarrow> if js_trim s \<noteq> [] then s else fallback
   | _ \<Rightarrow> fallback)"

definition error_message :: "js_error \<Rightarrow> jstr" where
  "error_message e = err_message e"

lemma throw_if_aborted_None [simp]: "throw_if_aborted None = Inr ()"
  by (simp add: throw_if_aborted_def)

lemma is_operation_aborted_Some [simp]: "is_operation_aborted e (Some r)"
  by (simp add: is_operation_aborted_def)

end
