(* ===== verification/JS_Regex.thy ===== *)
theory JS_Regex
  imports Prelude
begin

text \<open>
  The regular expressions the program tests strings with, as far as it uses them: classes,
  alternation, repetition, the anchors and the word boundary, with or without the \<open>i\<close> flag.
  \<open>rx_ends\<close> computes every position a match starting at \<open>i\<close> can end at; \<open>rx_matches\<close> is the
  declarative meaning, and \<open>rx_ends_correct\<close> says that the computed positions are exactly the
  possible ones. \<open>rx_test\<close> is \<open>RegExp.prototype.test\<close>: it asks whether some match exists, for
  which the order in which a backtracking engine tries the alternatives is irrelevant.
\<close>

datatype rx =
    Eps
  | Cls "(nat \<times> nat) list"
  | NotCls "(nat \<times> nat) list"
  | Seq rx rx
  | Alt rx rx
  | Star rx
  | WordB
  | Bol
  | Eol
  | Grp nat rx

definition in_ranges :: "(nat \<times> nat) list \<Rightarrow> nat \<Rightarrow> bool" where
  "in_ranges rs c = list_ex (\<lambda>(lo, hi). lo \<le> c \<and> c \<le> hi) rs"

definition is_word_unit :: "nat \<Rightarrow> bool" where
  "is_word_unit c \<longleftrightarrow> (48 \<le> c \<and> c \<le> 57) \<or> (65 \<le> c \<and> c \<le> 90) \<or> (97 \<le> c \<and> c \<le> 122) \<or> c = 95"

text \<open>The other case of an ASCII letter; every other unit is its own other case.\<close>

definition other_case :: "nat \<Rightarrow> nat" where
  "other_case c = (if 65 \<le> c \<and> c \<le> 90 then c + 32 else if 97 \<le> c \<and> c \<le> 122 then c - 32 else c)"

definition class_hit :: "bool \<Rightarrow> (nat \<times> nat) list \<Rightarrow> nat \<Rightarrow> bool" where
  "class_hit ic rs c \<longleftrightarrow> in_ranges rs c \<or> (ic \<and> in_ranges rs (other_case c))"

definition at_word_boundary :: "jstr \<Rightarrow> nat \<Rightarrow> bool" where
  "at_word_boundary s i \<longleftrightarrow>
     ((0 < i \<and> i - 1 < length s \<and> is_word_unit (s ! (i - 1))) \<noteq> (i < length s \<and> is_word_unit (s ! i)))"

section \<open>Declarative meaning\<close>

inductive rx_matches :: "bool \<Rightarrow> jstr \<Rightarrow> rx \<Rightarrow> nat \<Rightarrow> nat \<Rightarrow> bool" for ic s where
  eps: "rx_matches ic s Eps i i"
| cls: "i < length s \<Longrightarrow> class_hit ic rs (s ! i) \<Longrightarrow> rx_matches ic s (Cls rs) i (Suc i)"
| ncls: "i < length s \<Longrightarrow> \<not> class_hit ic rs (s ! i) \<Longrightarrow> rx_matches ic s (NotCls rs) i (Suc i)"
| seq: "rx_matches ic s r i j \<Longrightarrow> rx_matches ic s q j k \<Longrightarrow> rx_matches ic s (Seq r q) i k"
| alt1: "rx_matches ic s r i j \<Longrightarrow> rx_matches ic s (Alt r q) i j"
| alt2: "rx_matches ic s q i j \<Longrightarrow> rx_matches ic s (Alt r q) i j"
| star0: "rx_matches ic s (Star r) i i"
| star1: "rx_matches ic s (Star r) i j \<Longrightarrow> rx_matches ic s r j k \<Longrightarrow> rx_matches ic s (Star r) i k"
| wordb: "at_word_boundary s i \<Longrightarrow> rx_matches ic s WordB i i"
| bol: "rx_matches ic s Bol 0 0"
| eol: "i = length s \<Longrightarrow> rx_matches ic s Eol i i"
| grp: "rx_matches ic s r i j \<Longrightarrow> rx_matches ic s (Grp n r) i j"

inductive_cases rx_matchesE [elim!]:
  "rx_matches ic s Eps i j" "rx_matches ic s (Cls rs) i j" "rx_matches ic s (NotCls rs) i j"
  "rx_matches ic s (Seq r q) i j" "rx_matches ic s (Alt r q) i j" "rx_matches ic s WordB i j"
  "rx_matches ic s Bol i j" "rx_matches ic s Eol i j" "rx_matches ic s (Grp n r) i j"

section \<open>Computing the end positions\<close>

text \<open>Positions reachable by repeating a step, round by round until a round adds nothing.\<close>

fun closure :: "(nat \<Rightarrow> nat list) \<Rightarrow> nat \<Rightarrow> nat list \<Rightarrow> nat list \<Rightarrow> nat list" where
  "closure f 0 seen front = seen"
| "closure f (Suc n) seen front =
     (let new = remdups (filter (\<lambda>j. j \<notin> set seen) (concat (map f front)))
      in if new = [] then seen else closure f n (seen @ new) new)"

fun rx_ends :: "bool \<Rightarrow> jstr \<Rightarrow> rx \<Rightarrow> nat \<Rightarrow> nat list" where
  "rx_ends ic s Eps i = [i]"
| "rx_ends ic s (Cls rs) i = (if i < length s \<and> class_hit ic rs (s ! i) then [Suc i] else [])"
| "rx_ends ic s (NotCls rs) i = (if i < length s \<and> \<not> class_hit ic rs (s ! i) then [Suc i] else [])"
| "rx_ends ic s (Seq r q) i = remdups (concat (map (rx_ends ic s q) (rx_ends ic s r i)))"
| "rx_ends ic s (Alt r q) i = remdups (rx_ends ic s r i @ rx_ends ic s q i)"
| "rx_ends ic s (Star r) i = closure (rx_ends ic s r) (Suc (length s)) [i] [i]"
| "rx_ends ic s WordB i = (if at_word_boundary s i then [i] else [])"
| "rx_ends ic s Bol i = (if i = 0 then [i] else [])"
| "rx_ends ic s Eol i = (if i = length s then [i] else [])"
| "rx_ends ic s (Grp n r) i = rx_ends ic s r i"

definition rx_test :: "bool \<Rightarrow> rx \<Rightarrow> jstr \<Rightarrow> bool" where
  "rx_test ic r s = list_ex (\<lambda>i. rx_ends ic s r i \<noteq> []) [0..<Suc (length s)]"

section \<open>The computed positions are the possible ones\<close>

lemma rx_matches_le: "rx_matches ic s r i j \<Longrightarrow> i \<le> length s \<Longrightarrow> j \<le> length s"
  by (induction rule: rx_matches.induct) auto

lemma rx_matches_mono: "rx_matches ic s r i j \<Longrightarrow> i \<le> j"
  by (induction rule: rx_matches.induct) auto

text \<open>
  Soundness of the closure, and completeness once there is a round for every position that
  can still be added: the seen positions are distinct and bounded.
\<close>

lemma closure_sound:
  assumes "\<And>j k. k \<in> set (f j) \<Longrightarrow> R j k" and "set front \<subseteq> set seen" and "\<forall>j \<in> set seen. R\<^sup>*\<^sup>* i j"
  shows "\<forall>j \<in> set (closure f n seen front). R\<^sup>*\<^sup>* i j"
  using assms(2,3)
proof (induction n arbitrary: seen front)
  case 0
  then show ?case by simp
next
  case (Suc n)
  define new where "new = remdups (filter (\<lambda>j. j \<notin> set seen) (concat (map f front)))"
  have "\<forall>j \<in> set new. R\<^sup>*\<^sup>* i j"
    using Suc.prems assms(1) by (fastforce simp: new_def intro: rtranclp.rtrancl_into_rtrancl)
  then have "\<forall>j \<in> set (closure f n (seen @ new) new). R\<^sup>*\<^sup>* i j"
    using Suc.prems by (intro Suc.IH) auto
  with Suc.prems show ?case by (simp add: new_def [symmetric] Let_def)
qed

lemma closure_step_closed:
  assumes "\<And>j. j \<le> N \<Longrightarrow> set (f j) \<subseteq> {..N}"
    and "distinct seen" "set seen \<subseteq> {..N}" "set front \<subseteq> set seen"
    and "\<forall>j \<in> set seen - set front. set (f j) \<subseteq> set seen"
    and "Suc N - length seen < n"
  shows "set seen \<subseteq> set (closure f n seen front)
    \<and> (\<forall>j \<in> set (closure f n seen front). set (f j) \<subseteq> set (closure f n seen front))"
  using assms(2-)
proof (induction n arbitrary: seen front)
  case 0
  then show ?case by simp
next
  case (Suc n)
  define new where "new = remdups (filter (\<lambda>j. j \<notin> set seen) (concat (map f front)))"
  have reach: "\<forall>j \<in> set seen. set (f j) \<subseteq> set seen \<union> set new"
    using Suc.prems(4) by (auto simp: new_def)
  show ?case
  proof (cases "new = []")
    case True
    with reach show ?thesis by (simp add: new_def [symmetric] Let_def)
  next
    case False
    have "set new \<subseteq> {..N}"
      using Suc.prems(2,3) assms(1) by (fastforce simp: new_def)
    moreover have "distinct (seen @ new)"
      using Suc.prems(1) by (auto simp: new_def)
    moreover have "length (seen @ new) \<le> Suc N"
    proof -
      have "card (set (seen @ new)) \<le> card {..N}"
        using calculation(1) Suc.prems(2) by (intro card_mono) auto
      then show ?thesis using distinct_card [OF calculation(2)] by simp
    qed
    moreover have "Suc N - length (seen @ new) < n"
    proof -
      have "0 < length new" using False by simp
      with calculation(3) Suc.prems(5) show ?thesis by (simp del: length_greater_0_conv)
    qed
    ultimately have "set (seen @ new) \<subseteq> set (closure f n (seen @ new) new)
      \<and> (\<forall>j \<in> set (closure f n (seen @ new) new). set (f j) \<subseteq> set (closure f n (seen @ new) new))"
      using Suc.prems(2,5) reach by (intro Suc.IH) auto
    with False show ?thesis by (simp add: new_def [symmetric] Let_def)
  qed
qed

lemma closure_rtrancl:
  assumes bound: "\<And>j. j \<le> N \<Longrightarrow> set (f j) \<subseteq> {..N}" and i: "i \<le> N"
  shows "k \<in> set (closure f (Suc N) [i] [i]) \<longleftrightarrow> (\<lambda>j k. k \<in> set (f j))\<^sup>*\<^sup>* i k"
proof
  assume "k \<in> set (closure f (Suc N) [i] [i])"
  then show "(\<lambda>j k. k \<in> set (f j))\<^sup>*\<^sup>* i k"
    using closure_sound [of f "\<lambda>j k. k \<in> set (f j)" "[i]" "[i]" i "Suc N"] by auto
next
  have closed: "i \<in> set (closure f (Suc N) [i] [i])"
    "\<forall>j \<in> set (closure f (Suc N) [i] [i]). set (f j) \<subseteq> set (closure f (Suc N) [i] [i])"
    using closure_step_closed [of N f "[i]" "[i]" "Suc N"] bound i by auto
  assume "(\<lambda>j k. k \<in> set (f j))\<^sup>*\<^sup>* i k"
  then show "k \<in> set (closure f (Suc N) [i] [i])"
    by (induction rule: rtranclp_induct) (use closed in auto)
qed

lemma star_rtrancl: "rx_matches ic s (Star r) i k \<longleftrightarrow> (rx_matches ic s r)\<^sup>*\<^sup>* i k"
proof
  assume "rx_matches ic s (Star r) i k"
  then show "(rx_matches ic s r)\<^sup>*\<^sup>* i k"
    by (induction "Star r" i k rule: rx_matches.induct) auto
next
  assume "(rx_matches ic s r)\<^sup>*\<^sup>* i k"
  then show "rx_matches ic s (Star r) i k"
    by (induction rule: rtranclp_induct) (auto intro: rx_matches.star0 rx_matches.star1)
qed

lemma rtranclp_cong_below:
  assumes "\<And>j k. j \<le> N \<Longrightarrow> R j k = S j k" and "\<And>j k. j \<le> N \<Longrightarrow> R j k \<Longrightarrow> k \<le> N" and "i \<le> (N::nat)"
  shows "R\<^sup>*\<^sup>* i k = S\<^sup>*\<^sup>* i k"
proof
  assume "R\<^sup>*\<^sup>* i k"
  then have "S\<^sup>*\<^sup>* i k \<and> k \<le> N"
    by (induction rule: rtranclp_induct)
      (use assms in \<open>auto intro: rtranclp.rtrancl_into_rtrancl\<close>)
  then show "S\<^sup>*\<^sup>* i k" ..
next
  assume "S\<^sup>*\<^sup>* i k"
  then have "R\<^sup>*\<^sup>* i k \<and> k \<le> N"
    by (induction rule: rtranclp_induct)
      (use assms in \<open>auto intro: rtranclp.rtrancl_into_rtrancl\<close>)
  then show "R\<^sup>*\<^sup>* i k" ..
qed

lemma rx_ends_correct:
  "i \<le> length s \<Longrightarrow> k \<in> set (rx_ends ic s r i) \<longleftrightarrow> rx_matches ic s r i k"
proof (induction r arbitrary: i k)
  case (Seq r q)
  then show ?case
    by (auto intro: rx_matches.seq simp: rx_matches_le)
next
  case (Star r)
  have bound: "set (rx_ends ic s r j) \<subseteq> {..length s}" if "j \<le> length s" for j
    using Star.IH that rx_matches_le by blast
  have "k \<in> set (rx_ends ic s (Star r) i) \<longleftrightarrow> (\<lambda>j k. k \<in> set (rx_ends ic s r j))\<^sup>*\<^sup>* i k"
    using closure_rtrancl [of "length s" "rx_ends ic s r" i k] bound Star.prems by simp
  also have "\<dots> \<longleftrightarrow> (rx_matches ic s r)\<^sup>*\<^sup>* i k"
    by (rule rtranclp_cong_below [where N = "length s"]) (use Star bound in auto)
  finally show ?case by (simp add: star_rtrancl)
qed (auto intro: rx_matches.intros)

theorem rx_test_iff: "rx_test ic r s \<longleftrightarrow> (\<exists>i k. i \<le> length s \<and> rx_matches ic s r i k)"
proof -
  have "rx_ends ic s r i \<noteq> [] \<longleftrightarrow> (\<exists>k. rx_matches ic s r i k)" if "i \<le> length s" for i
    using rx_ends_correct [OF that, of _ ic r] by (metis all_not_in_conv set_empty)
  then show ?thesis by (auto simp: rx_test_def list_ex_iff less_Suc_eq_le simp del: upt_Suc)
qed

section \<open>Matching with captures\<close>

text \<open>
  Where the program uses what matched (\<open>exec\<close>, \<open>matchAll\<close>, \<open>replace\<close>), the order of the
  alternatives decides. \<open>rx_all\<close> lists every match from position \<open>i\<close> in the order a backtracking
  engine finds them (left alternative first, repetition greedy, an iteration that consumes
  nothing abandoned), each with its captures \<open>(group, from, to)\<close>; the engine's match is the
  first one. \<open>rx_exec\<close> tries the start positions from left to right.
\<close>

type_synonym captures = "(nat \<times> nat \<times> nat) list"

function rx_all :: "bool \<Rightarrow> jstr \<Rightarrow> rx \<Rightarrow> nat \<Rightarrow> (nat \<times> captures) list" where
  "rx_all ic s Eps i = [(i, [])]"
| "rx_all ic s (Cls rs) i = (if i < length s \<and> class_hit ic rs (s ! i) then [(Suc i, [])] else [])"
| "rx_all ic s (NotCls rs) i = (if i < length s \<and> \<not> class_hit ic rs (s ! i) then [(Suc i, [])] else [])"
| "rx_all ic s (Seq r q) i =
     concat (map (\<lambda>(j, c). map (\<lambda>(k, d). (k, c @ d)) (rx_all ic s q j)) (rx_all ic s r i))"
| "rx_all ic s (Alt r q) i = rx_all ic s r i @ rx_all ic s q i"
| "rx_all ic s (Star r) i =
     concat (map (\<lambda>(j, c). if i < j \<and> j \<le> length s
                           then map (\<lambda>(k, d). (k, c @ d)) (rx_all ic s (Star r) j) else [])
       (rx_all ic s r i)) @ [(i, [])]"
| "rx_all ic s WordB i = (if at_word_boundary s i then [(i, [])] else [])"
| "rx_all ic s Bol i = (if i = 0 then [(i, [])] else [])"
| "rx_all ic s Eol i = (if i = length s then [(i, [])] else [])"
| "rx_all ic s (Grp n r) i = map (\<lambda>(k, c). (k, c @ [(n, i, k)])) (rx_all ic s r i)"
  by pat_completeness auto
termination
  by (relation "measures [\<lambda>(ic, s, r, i). size r, \<lambda>(ic, s, r, i). length s - i]") auto

lemma guarded_concat_iff:
  "(\<exists>x \<in> A. y \<in> set (case x of (j, c) \<Rightarrow> if P j then map (\<lambda>(k, d). (k, c @ d)) (f j) else []))
     \<longleftrightarrow> (\<exists>j c d. P j \<and> (j, c) \<in> A \<and> (fst y, d) \<in> set (f j) \<and> snd y = c @ d)"
  by (cases y) (fastforce split: if_splits)

lemma rx_all_star_iff:
  "(k, c) \<in> set (rx_all ic s (Star r) i) \<longleftrightarrow>
     (k = i \<and> c = []) \<or>
     (\<exists>j c' d. i < j \<and> j \<le> length s \<and> (j, c') \<in> set (rx_all ic s r i)
        \<and> (k, d) \<in> set (rx_all ic s (Star r) j) \<and> c = c' @ d)"
proof -
  have "(k, c) \<in> set (rx_all ic s (Star r) i) \<longleftrightarrow>
     (k, c) = (i, []) \<or>
     (\<exists>x \<in> set (rx_all ic s r i). (k, c) \<in> set (case x of (j, c') \<Rightarrow>
        if i < j \<and> j \<le> length s then map (\<lambda>(k, d). (k, c' @ d)) (rx_all ic s (Star r) j) else []))"
    by (subst rx_all.simps(6)) (simp only: set_append set_concat set_map Un_iff UN_iff list.set bex_simps
        singleton_iff image_iff, blast)
  also have "(\<exists>x \<in> set (rx_all ic s r i). (k, c) \<in> set (case x of (j, c') \<Rightarrow>
        if i < j \<and> j \<le> length s then map (\<lambda>(k, d). (k, c' @ d)) (rx_all ic s (Star r) j) else []))
     \<longleftrightarrow> (\<exists>j c' d. i < j \<and> j \<le> length s \<and> (j, c') \<in> set (rx_all ic s r i)
        \<and> (k, d) \<in> set (rx_all ic s (Star r) j) \<and> c = c' @ d)"
    by (simp only: guarded_concat_iff fst_conv snd_conv conj_assoc)
  finally show ?thesis by (simp only: prod.inject)
qed

declare rx_all.simps(6) [simp del]

definition rx_exec_at :: "bool \<Rightarrow> rx \<Rightarrow> jstr \<Rightarrow> nat \<Rightarrow> (nat \<times> captures) option" where
  "rx_exec_at ic r s i = (case rx_all ic s r i of [] \<Rightarrow> None | m # _ \<Rightarrow> Some m)"

text \<open>The leftmost match from position \<open>i\<close> on: its start, its end and its captures.\<close>

fun rx_exec_from :: "bool \<Rightarrow> rx \<Rightarrow> jstr \<Rightarrow> nat list \<Rightarrow> (nat \<times> nat \<times> captures) option" where
  "rx_exec_from ic r s [] = None"
| "rx_exec_from ic r s (i # is) =
     (case rx_exec_at ic r s i of Some (k, c) \<Rightarrow> Some (i, k, c) | None \<Rightarrow> rx_exec_from ic r s is)"

definition rx_exec :: "bool \<Rightarrow> rx \<Rightarrow> jstr \<Rightarrow> (nat \<times> nat \<times> captures) option" where
  "rx_exec ic r s = rx_exec_from ic r s [0..<Suc (length s)]"

text \<open>
  \<open>matchAll\<close> and a global \<open>replace\<close>: the matches from left to right, each search starting where
  the last match ended (one further when that match was empty).
\<close>

function rx_match_all :: "bool \<Rightarrow> rx \<Rightarrow> jstr \<Rightarrow> nat \<Rightarrow> (nat \<times> nat \<times> captures) list" where
  "rx_match_all ic r s i =
     (if length s < i then []
      else (case rx_exec_from ic r s [i..<Suc (length s)] of
              None \<Rightarrow> []
            | Some (a, b, c) \<Rightarrow>
                (a, b, c) # (if i \<le> a \<and> a \<le> b then rx_match_all ic r s (if a = b then Suc b else b) else [])))"
  by pat_completeness auto
termination
  by (relation "measure (\<lambda>(ic, r, s, i). Suc (length s) - i)") auto

declare rx_match_all.simps [simp del]

text \<open>The text a group captured: its last capture, as a repeated group overwrites earlier ones.\<close>

definition capture :: "jstr \<Rightarrow> captures \<Rightarrow> nat \<Rightarrow> jstr option" where
  "capture s c n = map_option (\<lambda>(i, k). take (k - i) (drop i s)) (map_of (rev c) n)"

text \<open>Replacing every match by a fixed text.\<close>

fun splice :: "jstr \<Rightarrow> jstr \<Rightarrow> nat \<Rightarrow> (nat \<times> nat \<times> captures) list \<Rightarrow> jstr" where
  "splice t s i [] = drop i s"
| "splice t s i ((a, b, c) # ms) = take (a - i) (drop i s) @ t @ splice t s b ms"

definition rx_replace_all :: "bool \<Rightarrow> rx \<Rightarrow> jstr \<Rightarrow> jstr \<Rightarrow> jstr" where
  "rx_replace_all ic r t s = splice t s 0 (rx_match_all ic r s 0)"

text \<open>The ends of the listed matches are again exactly the possible ones.\<close>

lemma rx_all_sound: "(k, c) \<in> set (rx_all ic s r i) \<Longrightarrow> rx_matches ic s r i k"
proof (induction ic s r i arbitrary: k c rule: rx_all.induct)
  case (6 ic s r i)
  consider "k = i" | j c' d where "i < j" "j \<le> length s" "(j, c') \<in> set (rx_all ic s r i)"
      "(k, d) \<in> set (rx_all ic s (Star r) j)"
    using "6.prems" unfolding rx_all_star_iff [of k c] by blast
  then show ?case
  proof cases
    case 1
    then show ?thesis by (simp add: rx_matches.star0)
  next
    case 2
    then have "rx_matches ic s r i j" "rx_matches ic s (Star r) j k" using "6.IH" by blast+
    then show ?thesis by (simp add: star_rtrancl converse_rtranclp_into_rtranclp)
  qed
qed (fastforce intro: rx_matches.intros split: if_splits)+

lemma rx_all_complete: "rx_matches ic s r i k \<Longrightarrow> i \<le> length s \<Longrightarrow> \<exists>c. (k, c) \<in> set (rx_all ic s r i)"
proof (induction r arbitrary: i k)
  case (Star r)
  have "(rx_matches ic s r)\<^sup>*\<^sup>* i k" using Star.prems by (simp add: star_rtrancl)
  then show ?case using Star.prems(2)
  proof (induction rule: converse_rtranclp_induct)
    case base
    have "(k, []) \<in> set (rx_all ic s (Star r) k)" by (subst rx_all_star_iff) simp
    then show ?case by blast
  next
    case (step i j)
    have j: "j \<le> length s" using step.hyps(1) step.prems by (rule rx_matches_le)
    obtain d where d: "(k, d) \<in> set (rx_all ic s (Star r) j)" using step.IH j by blast
    obtain c where c: "(j, c) \<in> set (rx_all ic s r i)" using Star.IH step.hyps(1) step.prems by blast
    show ?case
    proof (cases "i < j")
      case True
      with c d j show ?thesis by (subst rx_all_star_iff) blast
    next
      case False
      have "i \<le> j" using step.hyps(1) by (rule rx_matches_mono)
      with False d show ?thesis by auto
    qed
  qed
next
  case (Seq r q)
  then obtain j where j: "rx_matches ic s r i j" "rx_matches ic s q j k" by auto
  then show ?case using Seq.IH rx_matches_le [OF j(1) Seq.prems(2)] Seq.prems(2) by fastforce
qed fastforce+

theorem rx_all_iff: "i \<le> length s \<Longrightarrow> (\<exists>c. (k, c) \<in> set (rx_all ic s r i)) \<longleftrightarrow> rx_matches ic s r i k"
  using rx_all_sound rx_all_complete by blast

section \<open>Building expressions\<close>

definition Lit :: "string \<Rightarrow> rx" where
  "Lit s = foldr (\<lambda>c r. Seq (Cls [(c, c)]) r) (asc s) Eps"

definition Plus :: "rx \<Rightarrow> rx" where "Plus r = Seq r (Star r)"
definition Opt :: "rx \<Rightarrow> rx" where "Opt r = Alt r Eps"

fun Alts :: "rx list \<Rightarrow> rx" where
  "Alts [] = NotCls [(0, 65535)]"
| "Alts [r] = r"
| "Alts (r # rs) = Alt r (Alts rs)"

fun Seqs :: "rx list \<Rightarrow> rx" where
  "Seqs [] = Eps"
| "Seqs [r] = r"
| "Seqs (r # rs) = Seq r (Seqs rs)"

definition ws_ranges :: "(nat \<times> nat) list" where
  "ws_ranges = [(9, 13), (32, 32), (160, 160), (5760, 5760), (8192, 8202), (8232, 8233),
     (8239, 8239), (8287, 8287), (12288, 12288), (65279, 65279)]"

definition Ws :: rx where "Ws = Cls ws_ranges"
definition NotWs :: rx where "NotWs = NotCls ws_ranges"
definition Dot :: rx where "Dot = NotCls [(10, 10), (13, 13), (8232, 8233)]"
definition AlphaC :: rx where "AlphaC = Cls [(97, 122), (65, 90)]"

lemma in_ws_ranges: "in_ranges ws_ranges c \<longleftrightarrow> is_ws c"
  by (simp add: in_ranges_def ws_ranges_def is_ws_def) presburger

lemmas rx_build = Lit_def Plus_def Opt_def Ws_def NotWs_def Dot_def AlphaC_def ws_ranges_def

end
