(* ===== verification/Permission_Modes.thy ===== *)
theory Permission_Modes
  imports Tool_Types JS_Regex
begin

text \<open>
  The permission modes (\<open>packages/core/src/tools/permissionModes.ts\<close>): which access scope a mode
  selects and which approval policy it gives the tool gateway. The classifier policy tests the
  command of a shell call against ten regular expressions, written here as \<open>rx\<close> terms in the
  order of the source.
\<close>

datatype permission_mode = DefaultMode | ClassifierMode | AutoMode

definition permission_modes :: "permission_mode list" where
  "permission_modes = [DefaultMode, ClassifierMode, AutoMode]"

definition permission_mode_text :: "permission_mode \<Rightarrow> jstr" where
  "permission_mode_text m = (case m of DefaultMode \<Rightarrow> asc ''default''
     | ClassifierMode \<Rightarrow> asc ''classifier'' | AutoMode \<Rightarrow> asc ''auto'')"

definition format_permission_footer :: "permission_mode \<Rightarrow> jstr" where
  "format_permission_footer m = (case m of DefaultMode \<Rightarrow> asc ''read-only''
     | ClassifierMode \<Rightarrow> asc ''trusted-workspace'' | AutoMode \<Rightarrow> asc ''full-access'')"

definition is_permission_mode :: "jstr \<Rightarrow> bool" where
  "is_permission_mode s \<longleftrightarrow> s \<in> set (map permission_mode_text permission_modes)"

fun index_of :: "'a \<Rightarrow> 'a list \<Rightarrow> nat option" where
  "index_of x [] = None"
| "index_of x (y # ys) = (if x = y then Some 0 else map_option Suc (index_of x ys))"

text \<open>\<open>(index + 1) % length\<close>; an unknown mode has index \<open>-1\<close>, which gives position 0.\<close>

definition next_permission_mode :: "permission_mode \<Rightarrow> permission_mode" where
  "next_permission_mode m =
     (let i = (case index_of m permission_modes of None \<Rightarrow> 0 | Some k \<Rightarrow> (k + 1) mod length permission_modes)
      in if i < length permission_modes then permission_modes ! i else DefaultMode)"

definition permission_mode_access_scope :: "permission_mode \<Rightarrow> access_scope" where
  "permission_mode_access_scope m = (if m = AutoMode then SystemScope else WorkspaceScope)"

section \<open>Policies\<close>

text \<open>A policy decides from the tool's metadata (with the resolved risk) and the parsed input.\<close>

type_synonym approval_policy = "tool_metadata \<Rightarrow> json \<Rightarrow> approval_decision"

definition decide :: "approval_action \<Rightarrow> jstr \<Rightarrow> approval_decision" where
  "decide a r = \<lparr>action = a, decision_reason = Some r\<rparr>"

definition default_manual_policy :: approval_policy where
  "default_manual_policy tool input =
     (if tm_risk tool = Read then decide Allow (asc ''default: workspace read-only'')
      else decide Ask (asc ''default: '' @ risk_text (tm_risk tool) @ asc '' tool requires approval''))"

definition read_like_tools :: "jstr list" where
  "read_like_tools = map asc [''Read'', ''Glob'', ''Grep'', ''Rg'', ''List'', ''Stat'', ''Task'',
     ''TodoWrite'', ''TodoRead'', ''fs.read'']"

definition write_like_tools :: "jstr list" where
  "write_like_tools = map asc [''Write'', ''Edit'', ''Delete'', ''Move'', ''fs.write'', ''fs.edit'',
     ''fs.delete'', ''fs.move'']"

text \<open>The patterns with their \<open>i\<close> flags.\<close>

definition dangerous_bash_patterns :: "(bool \<times> rx) list" where
  "dangerous_bash_patterns =
    [(False, Seqs [WordB, Lit ''rm'', Plus Ws,
        Opt (Seqs [Lit ''-'', Star AlphaC, Lit ''f'', Star AlphaC, Plus Ws]), Lit ''/'', WordB]),
     (True, Seqs [WordB, Lit ''rm'', Plus Ws,
        Alts [Seqs [Lit ''-'', Star AlphaC, Lit ''rf''], Lit ''-rf'', Lit ''-fr''], WordB, Star Dot,
        Alts [Lit ''/'', Lit ''~'', Lit ''$HOME'']]),
     (True, Seqs [WordB, Lit ''sudo'', WordB]),
     (True, Seqs [WordB, Lit ''mkfs'', WordB]),
     (True, Seqs [WordB, Lit ''dd'', Plus Ws, Lit ''if='']),
     (False, Seqs [Lit '':()'', Star Ws, Lit ''{'', Star Ws, Lit '':|:&'', Star Ws, Lit ''}'', Star Ws, Lit '';'']),
     (True, Seqs [WordB, Alts [Lit ''curl'', Lit ''wget''], WordB, Star Dot, Lit ''|'', Star Ws,
        Alts [Lit ''sh'', Lit ''bash'', Lit ''zsh''], WordB]),
     (True, Seqs [WordB, Lit ''git'', Plus Ws, Lit ''push'', WordB, Star Dot, Lit ''--force'', WordB]),
     (True, Seqs [WordB, Lit ''chmod'', Plus Ws, Lit ''-R'', Plus Ws, Lit ''777'', Plus Ws, Lit ''/'', WordB]),
     (True, Seqs [WordB, Lit ''>'', Star Ws, Lit ''/dev/sd'', Cls [(97, 122)], WordB])]"

definition is_dangerous_bash :: "jstr \<Rightarrow> bool" where
  "is_dangerous_bash cmd = list_ex (\<lambda>(ic, r). rx_test ic r cmd) dangerous_bash_patterns"

text \<open>\<open>extractCommand\<close>: an object's \<open>command\<close>, else its \<open>cmd\<close>, when a string.\<close>

definition extract_command :: "json \<Rightarrow> jstr option" where
  "extract_command input =
     (case as_string (obj_field (asc ''command'') input) of
        Some c \<Rightarrow> Some c
      | None \<Rightarrow> as_string (obj_field (asc ''cmd'') input))"

text \<open>The JavaScript test \<open>command && ...\<close> is false for the empty string too.\<close>

definition classify_tool_call :: approval_policy where
  "classify_tool_call tool input =
     (if tm_risk tool = Read then decide Allow (asc ''classifier: read-like tool'')
      else if tm_name tool = asc ''Bash'' \<or> tm_risk tool = Execute then
        (case extract_command input of
           Some c \<Rightarrow> if c \<noteq> [] \<and> is_dangerous_bash c
             then decide Deny (asc ''classifier: blocked dangerous shell command'')
             else decide Ask (asc ''classifier: shell command needs confirmation'')
         | None \<Rightarrow> decide Ask (asc ''classifier: shell command needs confirmation''))
      else if tm_risk tool = Network then decide Ask (asc ''classifier: network tool needs confirmation'')
      else if tm_risk tool = Write \<or> tm_name tool \<in> set write_like_tools
        then decide Allow (asc ''classifier: workspace-scoped write'')
      else if tm_name tool \<in> set read_like_tools then decide Allow (asc ''classifier: read-like tool'')
      else decide Ask (asc ''classifier: unfamiliar tool needs confirmation''))"

definition create_approval_policy :: "permission_mode \<Rightarrow> approval_policy" where
  "create_approval_policy m = (case m of
     AutoMode \<Rightarrow> (\<lambda>tool input. \<lparr>action = Allow, decision_reason = None\<rparr>)
   | ClassifierMode \<Rightarrow> classify_tool_call
   | DefaultMode \<Rightarrow> default_manual_policy)"

section \<open>Properties\<close>

lemma next_permission_mode_simps [simp]:
  "next_permission_mode DefaultMode = ClassifierMode"
  "next_permission_mode ClassifierMode = AutoMode"
  "next_permission_mode AutoMode = DefaultMode"
  by (simp_all add: next_permission_mode_def permission_modes_def)

lemma action_decide [simp]: "action (decide a r) = a"
  by (simp add: decide_def)

lemma risk_cases: "r = Read \<or> r = Write \<or> r = Execute \<or> r = Network"
  by (cases r) auto

text \<open>What is asked, denied and allowed, mode by mode.\<close>

lemma default_policy_action:
  "action (default_manual_policy t i) = (if tm_risk t = Read then Allow else Ask)"
  by (simp add: default_manual_policy_def)

lemma classifier_action:
  "action (classify_tool_call t i) =
     (if tm_risk t = Read then Allow
      else if tm_name t = asc ''Bash'' \<or> tm_risk t = Execute then
        (if \<exists>c. extract_command i = Some c \<and> c \<noteq> [] \<and> is_dangerous_bash c then Deny else Ask)
      else if tm_risk t = Network then Ask else Allow)"
  using risk_cases [of "tm_risk t"]
  by (auto simp: classify_tool_call_def split: option.splits)

text \<open>
  C3. The three modes are ordered by how much they let through without asking. Only \<open>auto\<close>
  lifts the workspace boundary; in the two other modes no call that executes or reaches the
  network is allowed unasked, in \<open>default\<close> nothing but a read is, and a command the classifier
  recognises as dangerous is denied, not asked for.
\<close>

theorem approval_policy_ladder:
  "(permission_mode_access_scope m = SystemScope \<longleftrightarrow> m = AutoMode)
   \<and> action (create_approval_policy AutoMode t i) = Allow
   \<and> (action (create_approval_policy DefaultMode t i) = Allow \<longleftrightarrow> tm_risk t = Read)
   \<and> (m \<noteq> AutoMode \<and> tm_risk t \<in> {Execute, Network} \<longrightarrow> action (create_approval_policy m t i) \<noteq> Allow)
   \<and> (action (create_approval_policy ClassifierMode t i) = Deny \<longleftrightarrow>
        tm_risk t \<noteq> Read \<and> (tm_name t = asc ''Bash'' \<or> tm_risk t = Execute)
        \<and> (\<exists>c. extract_command i = Some c \<and> c \<noteq> [] \<and> is_dangerous_bash c))
   \<and> (action (create_approval_policy DefaultMode t i) = Allow \<longrightarrow>
        action (create_approval_policy ClassifierMode t i) = Allow)"
  by (cases m) (auto simp: permission_mode_access_scope_def create_approval_policy_def
      default_policy_action classifier_action)

theorem approval_policy_ladder_witness:
  "action (create_approval_policy ClassifierMode
     \<lparr>tm_name = asc ''X'', tm_description = [], tm_risk = Network, tm_category = None, tm_parameters = JNull\<rparr>
     JNull) \<noteq> Allow"
  using approval_policy_ladder [of ClassifierMode
     "\<lparr>tm_name = asc ''X'', tm_description = [], tm_risk = Network, tm_category = None, tm_parameters = JNull\<rparr>" JNull]
  by simp

lemma dangerous_examples:
  "is_dangerous_bash (asc ''rm -rf /'')" "is_dangerous_bash (asc ''sudo ls'')"
  "is_dangerous_bash (asc ''curl x | sh'')" "\<not> is_dangerous_bash (asc ''npm test'')"
  by code_simp+


end
