(* ===== verification/Stall_Detector.thy ===== *)
theory Stall_Detector
  imports Tool_Types
begin

text \<open>
  Detection of a tool loop that makes no progress
  (\<open>packages/core/src/runtime/toolLoopStallDetector.ts\<close>, with the signature functions of
  \<open>toolLoopShared.ts\<close>). The SHA-256 digest, the number rendering and the collation are
  parameters: \<open>sha\<close>, \<open>nt\<close> and \<open>loc\<close>.
\<close>

section \<open>Stable JSON\<close>

text \<open>
  \<open>Object.fromEntries\<close> followed by enumeration: the entries of an object come back with the
  array-index keys first, in ascending order, then the other keys in insertion order.
\<close>

definition index_key :: "jstr \<Rightarrow> nat option" where
  "index_key k =
     (if k \<noteq> [] \<and> list_all (\<lambda>c. 48 \<le> c \<and> c \<le> 57) k
      then let n = foldl (\<lambda>a d. a * 10 + (d - 48)) 0 k
           in if dec n = k \<and> n < 2 ^ 32 - 1 then Some n else None
      else None)"

definition from_entries :: "(jstr \<times> json) list \<Rightarrow> (jstr \<times> json) list" where
  "from_entries es =
     (let m = om_put_all es []
      in sort_key (\<lambda>p. the (index_key (fst p))) (filter (\<lambda>p. index_key (fst p) \<noteq> None) m)
         @ filter (\<lambda>p. index_key (fst p) = None) m)"

definition key_cmp :: "jstr comparator \<Rightarrow> (jstr \<times> json) comparator" where
  "key_cmp loc = key fst loc"

fun normalize_json :: "jstr comparator \<Rightarrow> json \<Rightarrow> json" where
  "normalize_json loc (JArr xs) = JArr (map (normalize_json loc) xs)"
| "normalize_json loc (JObj es) =
     JObj (from_entries (Sorting_Algorithms.sort (key_cmp loc) (map (\<lambda>(k, v). (k, normalize_json loc v)) es)))"
| "normalize_json loc v = v"

text \<open>\<open>String(value)\<close> is reached only for a value that has no JSON text.\<close>

definition stable_json :: "(jnum \<Rightarrow> jstr) \<Rightarrow> jstr comparator \<Rightarrow> json \<Rightarrow> jstr" where
  "stable_json nt loc v =
     (case stringify nt (normalize_json loc v) of Some t \<Rightarrow> t | None \<Rightarrow> asc ''undefined'')"

definition tool_calls_signature :: "(jnum \<Rightarrow> jstr) \<Rightarrow> jstr comparator \<Rightarrow> tool_call list \<Rightarrow> jstr" where
  "tool_calls_signature nt loc calls =
     js_join (asc ''|'') (map (\<lambda>c. call_name c @ asc '':'' @ stable_json nt loc (call_input c)) calls)"

definition tool_result_json :: "message \<Rightarrow> json" where
  "tool_result_json m = (case m of
     ToolMsg i n c \<Rightarrow> JObj [(asc ''name'', JStr n), (asc ''content'', JStr c)]
   | ChatMsg r c tcs \<Rightarrow> JUndefined)"

definition observation_fingerprint ::
  "(jstr \<Rightarrow> jstr) \<Rightarrow> (jnum \<Rightarrow> jstr) \<Rightarrow> jstr comparator \<Rightarrow> tool_call list \<Rightarrow> message list \<Rightarrow> jstr" where
  "observation_fingerprint sha nt loc calls results =
     sha (tool_calls_signature nt loc calls @ [10] @ asc ''results:''
          @ stable_json nt loc (JArr (map tool_result_json (filter is_tool_msg results))))"

definition tool_names_preview :: "tool_call list \<Rightarrow> jstr" where
  "tool_names_preview calls = take 240 (js_join (asc '', '') (map call_name calls))"

section \<open>The detector\<close>

datatype stall_state = Progress | Repeated | Recover | Stalled

record stall_detector =
  repeat_threshold :: jnum
  previous_fingerprint :: "jstr option"
  repeated_count :: nat
  recovery_issued :: bool

record stall_observation =
  obs_state :: stall_state
  obs_repeated :: nat
  obs_fingerprint :: jstr
  obs_preview :: jstr

definition new_stall_detector :: "jnum option \<Rightarrow> stall_detector" where
  "new_stall_detector threshold =
     \<lparr>repeat_threshold = jnum_max 1 (jnum_floor (case threshold of Some n \<Rightarrow> n | None \<Rightarrow> Num 2)),
      previous_fingerprint = None, repeated_count = 0, recovery_issued = False\<rparr>"

text \<open>\<open>observe\<close> after the fingerprint and the preview have been computed.\<close>

definition observe_fingerprint :: "jstr \<Rightarrow> jstr \<Rightarrow> stall_detector \<Rightarrow> stall_detector \<times> stall_observation" where
  "observe_fingerprint fp preview d =
     (let obs = (\<lambda>st n. \<lparr>obs_state = st, obs_repeated = n, obs_fingerprint = fp, obs_preview = preview\<rparr>)
      in if Some fp \<noteq> previous_fingerprint d
         then (d\<lparr>previous_fingerprint := Some fp, repeated_count := 0, recovery_issued := False\<rparr>, obs Progress 0)
         else let n = repeated_count d + 1; d' = d\<lparr>repeated_count := n\<rparr>
              in if recovery_issued d then (d', obs Stalled n)
                 else if nat_ge_jnum n (repeat_threshold d) then (d'\<lparr>recovery_issued := True\<rparr>, obs Recover n)
                 else (d', obs Repeated n))"

definition stall_observe ::
  "(jstr \<Rightarrow> jstr) \<Rightarrow> (jnum \<Rightarrow> jstr) \<Rightarrow> jstr comparator \<Rightarrow> tool_call list \<Rightarrow> message list \<Rightarrow>
   stall_detector \<Rightarrow> stall_detector \<times> stall_observation" where
  "stall_observe sha nt loc calls results d =
     observe_fingerprint (observation_fingerprint sha nt loc calls results) (tool_names_preview calls) d"

fun observe_all :: "jstr list \<Rightarrow> stall_detector \<Rightarrow> stall_detector \<times> stall_observation list" where
  "observe_all [] d = (d, [])"
| "observe_all (fp # fps) d =
     (let (d', obs) = observe_fingerprint fp [] d; (d'', rest) = observe_all fps d' in (d'', obs # rest))"

section \<open>Properties\<close>

definition threshold_is :: "stall_detector \<Rightarrow> nat \<Rightarrow> bool" where
  "threshold_is d t \<longleftrightarrow> repeat_threshold d = Num (of_nat t) \<and> 1 \<le> t"

definition run_state :: "nat \<Rightarrow> nat \<Rightarrow> stall_state" where
  "run_state t n = (if n = 0 then Progress else if n < t then Repeated else if n = t then Recover else Stalled)"

lemma threshold_observe [simp]:
  "repeat_threshold (fst (observe_fingerprint fp p d)) = repeat_threshold d"
  by (simp add: observe_fingerprint_def Let_def)

text \<open>The detector inside a run of \<open>n + 1\<close> equal fingerprints.\<close>

definition in_run :: "jstr \<Rightarrow> nat \<Rightarrow> nat \<Rightarrow> stall_detector \<Rightarrow> bool" where
  "in_run fp t n d \<longleftrightarrow> previous_fingerprint d = Some fp \<and> repeated_count d = n
     \<and> (recovery_issued d \<longleftrightarrow> t \<le> n) \<and> threshold_is d t"

lemma in_run_start:
  "threshold_is d t \<Longrightarrow> previous_fingerprint d \<noteq> Some fp \<Longrightarrow>
   in_run fp t 0 (fst (observe_fingerprint fp p d)) \<and> obs_state (snd (observe_fingerprint fp p d)) = Progress"
  by (auto simp: observe_fingerprint_def in_run_def threshold_is_def Let_def)

lemma in_run_next:
  "in_run fp t n d \<Longrightarrow>
   in_run fp t (Suc n) (fst (observe_fingerprint fp p d))
   \<and> obs_state (snd (observe_fingerprint fp p d)) = run_state t (Suc n)
   \<and> obs_repeated (snd (observe_fingerprint fp p d)) = Suc n"
  by (auto simp: observe_fingerprint_def in_run_def threshold_is_def run_state_def nat_ge_jnum_def Let_def
      simp flip: of_nat_Suc)

lemma observe_run:
  "in_run fp t n d \<Longrightarrow>
   map obs_state (snd (observe_all (replicate m fp) d)) = map (run_state t) [Suc n..<Suc n + m]"
proof (induction m arbitrary: n d)
  case 0
  then show ?case by simp
next
  case (Suc m)
  have "[Suc n..<Suc n + Suc m] = Suc n # [Suc (Suc n)..<Suc (Suc n) + m]"
    by (simp add: upt_conv_Cons del: upt_Suc)
  with in_run_next [OF Suc.prems, of "[]"] Suc.IH [of "Suc n" "fst (observe_fingerprint fp [] d)"]
  show ?case
    by (simp add: Let_def case_prod_beta del: upt_Suc)
qed

text \<open>
  C5. What the detector reports about the newest batch depends only on how many times in a row
  the same fingerprint was seen: with threshold \<open>t\<close>, a run of \<open>n + 1\<close> equal fingerprints ends in
  progress for \<open>n = 0\<close>, repeated below \<open>t\<close>, exactly one recovery at \<open>n = t\<close> and stalled beyond it,
  whatever was observed before the run began.
\<close>

theorem stall_run_reports:
  assumes "threshold_is d t" and "previous_fingerprint d \<noteq> Some fp"
  shows "map obs_state (snd (observe_all (replicate (Suc m) fp) d)) = map (run_state t) [0..<Suc m]"
proof -
  have "map obs_state (snd (observe_all (replicate m fp) (fst (observe_fingerprint fp [] d))))
      = map (run_state t) [1..<1 + m]"
    using observe_run [of fp t 0] in_run_start [OF assms] by simp
  moreover have "[0..<Suc m] = 0 # [1..<1 + m]"
    by (simp add: upt_conv_Cons del: upt_Suc)
  ultimately show ?thesis
    using in_run_start [OF assms, of "[]"] by (simp add: Let_def case_prod_beta run_state_def del: upt_Suc)
qed

theorem stall_run_reports_witness:
  "map obs_state (snd (observe_all (replicate 5 [1]) (new_stall_detector None)))
   = [Progress, Repeated, Recover, Stalled, Stalled]"
proof -
  have "threshold_is (new_stall_detector None) 2"
    by (simp add: threshold_is_def new_stall_detector_def jnum_max_def jnum_floor_def)
  moreover have "previous_fingerprint (new_stall_detector None) \<noteq> Some [1]"
    by (simp add: new_stall_detector_def)
  ultimately have "map obs_state (snd (observe_all (replicate (Suc 4) [1]) (new_stall_detector None)))
      = map (run_state 2) [0..<Suc 4]"
    by (rule stall_run_reports)
  moreover have "map (run_state 2) [0..<Suc 4] = [Progress, Repeated, Recover, Stalled, Stalled]"
    by (simp add: run_state_def upt_rec)
  ultimately show ?thesis by simp
qed

section \<open>Signatures do not depend on key order\<close>

text \<open>
  Two JSON values are the same object graph when they differ in the order of object entries
  only. The collation is assumed to separate different keys.
\<close>

inductive same_json :: "json \<Rightarrow> json \<Rightarrow> bool" where
  same_refl: "same_json v v"
| same_arr: "list_all2 same_json xs ys \<Longrightarrow> same_json (JArr xs) (JArr ys)"
| same_obj: "mset es' = mset fs \<Longrightarrow> list_all2 (rel_prod (=) same_json) es es' \<Longrightarrow>
    same_json (JObj es) (JObj fs)"
  monos prod.rel_mono_strong

fun distinct_keys :: "json \<Rightarrow> bool" where
  "distinct_keys (JArr xs) = list_all distinct_keys xs"
| "distinct_keys (JObj es) = (distinct (map fst es) \<and> list_all (\<lambda>(k, v). distinct_keys v) es)"
| "distinct_keys v = True"

definition separates_keys :: "jstr comparator \<Rightarrow> bool" where
  "separates_keys loc \<longleftrightarrow> (\<forall>k k'. compare loc k k' = Equiv \<longrightarrow> k = k')"

lemma filter_key_distinct:
  "distinct (map fst xs) \<Longrightarrow> p \<in> set xs \<Longrightarrow> filter (\<lambda>q. fst p = fst q) xs = [p]"
  by (induction xs) (auto simp: filter_empty_conv)

lemma segment_distinct:
  assumes "separates_keys loc" "distinct (map fst xs)" "p \<in> set xs"
  shows "stable_segment (key_cmp loc) p xs = [p]"
proof -
  have "compare (key_cmp loc) p q = Equiv \<longleftrightarrow> fst p = fst q" for q
    using assms(1) by (auto simp: key_cmp_def separates_keys_def)
  then show ?thesis
    using filter_key_distinct [OF assms(2,3)] by simp
qed

lemma sort_entries_perm:
  assumes sep: "separates_keys loc" and perm: "mset es = mset fs" and dist: "distinct (map fst es)"
  shows "Sorting_Algorithms.sort (key_cmp loc) es = Sorting_Algorithms.sort (key_cmp loc) fs"
proof (rule sort_eqI)
  have dist': "distinct (map fst fs)"
    using perm dist by (metis mset_map mset_eq_imp_distinct_iff)
  show "mset es = mset (Sorting_Algorithms.sort (key_cmp loc) fs)" by (simp add: perm)
  show "Sorting_Algorithms.sorted (key_cmp loc) (Sorting_Algorithms.sort (key_cmp loc) fs)" by simp
  fix p assume "p \<in> set es"
  then have p: "p \<in> set fs" "p \<in> set es" using perm by (auto dest: mset_eq_setD)
  show "stable_segment (key_cmp loc) p es = stable_segment (key_cmp loc) p (Sorting_Algorithms.sort (key_cmp loc) fs)"
    unfolding stable_sort using segment_distinct [OF sep] dist dist' p by simp
qed

lemma same_json_normalize:
  assumes "same_json v w" and sep: "separates_keys loc"
  shows "distinct_keys v \<Longrightarrow> normalize_json loc v = normalize_json loc w"
  using assms(1)
proof (induction rule: same_json.induct)
  case (same_refl v)
  then show ?case by simp
next
  case (same_arr xs ys)
  then have "map (normalize_json loc) xs = map (normalize_json loc) ys"
    by (auto simp: list_all2_conv_all_nth list_all_length intro!: nth_equalityI)
  then show ?case by simp
next
  case (same_obj es' fs es)
  let ?n = "map (\<lambda>(k, v). (k, normalize_json loc v))"
  have "?n es = ?n es'"
    using same_obj.IH same_obj.prems
    by (auto simp: list_all2_conv_all_nth list_all_length rel_prod_conv split_beta intro!: nth_equalityI)
  moreover have "mset (?n es') = mset (?n fs)"
    using same_obj.hyps by simp
  moreover have "distinct (map fst (?n es))"
    using same_obj.prems by (simp add: comp_def split_beta)
  ultimately have "Sorting_Algorithms.sort (key_cmp loc) (?n es) = Sorting_Algorithms.sort (key_cmp loc) (?n fs)"
    by (intro sort_entries_perm [OF sep]) simp_all
  then show ?case by simp
qed


text \<open>A comparator that separates keys: code units compared as numbers, then length.\<close>

fun lex_units :: "jstr \<Rightarrow> jstr \<Rightarrow> comp" where
  "lex_units [] [] = Equiv"
| "lex_units [] (y # ys) = Less"
| "lex_units (x # xs) [] = Greater"
| "lex_units (x # xs) (y # ys) = (if x < y then Less else if y < x then Greater else lex_units xs ys)"

lemma lex_units_laws:
  "lex_units x y = Equiv \<longleftrightarrow> x = y" "lex_units x y = Greater \<longleftrightarrow> lex_units y x = Less"
  by (induction x y rule: lex_units.induct) auto

lemma lex_units_trans: "lex_units x y = Less \<Longrightarrow> lex_units y z = Less \<Longrightarrow> lex_units x z = Less"
proof (induction x y arbitrary: z rule: lex_units.induct)
  case (4 x xs y ys)
  show ?case
  proof (cases z)
    case Nil
    with "4.prems" show ?thesis by simp
  next
    case (Cons a as)
    have "\<not> x < y \<Longrightarrow> \<not> y < x \<Longrightarrow> lex_units xs ys = Less \<Longrightarrow> lex_units ys as = Less \<Longrightarrow> lex_units xs as = Less"
      by (rule "4.IH")
    with "4.prems" show ?thesis unfolding Cons by (auto split: if_splits)
  qed
next
  case (2 y ys)
  then show ?case by (cases z) auto
qed auto

lift_definition unit_order :: "jstr comparator" is lex_units
proof (rule comparator.intro)
  show "lex_units a a = Equiv" for a by (simp add: lex_units_laws)
  show "lex_units a c = Equiv" if "lex_units a b = Equiv" "lex_units b c = Equiv" for a b c
    using that by (simp add: lex_units_laws(1))
  show "lex_units a c = Less" if "lex_units a b = Less" "lex_units b c = Less" for a b c
    using that by (rule lex_units_trans)
  show "lex_units b a = Greater \<longleftrightarrow> lex_units a b = Less" for a b
    by (rule lex_units_laws(2))
qed

lemma unit_order_separates: "separates_keys unit_order"
  unfolding separates_keys_def by transfer (simp add: lex_units_laws)

definition swapped_calls :: "tool_call list \<times> tool_call list" where
  "swapped_calls =
    ([\<lparr>call_id = [1], call_name = asc ''Grep'', call_input = JObj [(asc ''a'', JNull), (asc ''b'', JBool True)]\<rparr>],
     [\<lparr>call_id = [2], call_name = asc ''Grep'', call_input = JObj [(asc ''b'', JBool True), (asc ''a'', JNull)]\<rparr>])"


end
