(* ===== verification/Trace_Events.thy ===== *)
theory Trace_Events
  imports Tool_Types JS_Regex
begin

text \<open>
  Trace events as the verification code reads them, and the recognition of file mutations in a
  trace (\<open>packages/core/src/workspace/changedFiles.ts\<close>): which completed tool calls changed the
  workspace, where the last one is, and which paths a run touched.
\<close>

record trace_event =
  ev_type :: jstr
  ev_payload :: json
  ev_timestamp :: jstr

text \<open>\<open>asString\<close>: a non-empty string. \<open>asNumber\<close>: a finite number. \<open>asRecord\<close>: a plain object.\<close>

definition nonempty_string :: "json \<Rightarrow> jstr option" where
  "nonempty_string v = (case v of JStr s \<Rightarrow> (if s = [] then None else Some s) | _ \<Rightarrow> None)"

definition finite_number :: "json \<Rightarrow> rat option" where
  "finite_number v = (case v of JNum (Num r) \<Rightarrow> Some r | _ \<Rightarrow> None)"

definition as_record :: "json \<Rightarrow> (jstr \<times> json) list option" where
  "as_record v = (case v of JObj es \<Rightarrow> Some es | _ \<Rightarrow> None)"

definition payload_field :: "string \<Rightarrow> trace_event \<Rightarrow> json" where
  "payload_field k e = obj_field (asc k) (ev_payload e)"

definition mutating_file_tools :: "jstr list" where
  "mutating_file_tools = map asc [''Write'', ''Edit'', ''Delete'', ''Move'', ''ApplyPatch'']"

text \<open>\<open>summary.includes('...')\<close> with the Chinese text for "no modification made".\<close>

definition unmodified_text :: jstr where
  "unmodified_text = [26410, 20570, 20462, 25913]"

definition did_mutate :: "jstr \<Rightarrow> json \<Rightarrow> bool" where
  "did_mutate tool payload =
     (case obj_field (asc ''mutated'') (obj_field (asc ''data'') payload) of
        JBool b \<Rightarrow> b
      | _ \<Rightarrow>
        (let summary = (case nonempty_string (obj_field (asc ''summary'') payload) of Some s \<Rightarrow> s | None \<Rightarrow> [])
         in if tool = asc ''Edit'' then
              (if summary = asc ''no match'' \<or> summary = asc ''no change'' \<or> js_starts_with (asc ''ambiguous:'') summary
               then False
               else if js_starts_with (asc ''replaced '') summary then True
               else summary = [] \<or> \<not> js_includes unmodified_text summary)
            else if tool = asc ''Delete'' then
              (if js_starts_with (asc ''refused'') summary \<or> js_includes (asc ''no-op'') summary then False
               else js_starts_with (asc ''deleted'') summary \<or> summary = [])
            else if tool = asc ''Move'' then
              (if js_includes (asc ''no-op'') summary then False
               else js_starts_with (asc ''moved'') summary \<or> summary = [])
            else True))"

definition is_completed_file_mutation :: "trace_event \<Rightarrow> bool" where
  "is_completed_file_mutation e \<longleftrightarrow>
     ev_type e = asc ''tool_call.completed'' \<and>
     (case nonempty_string (payload_field ''toolName'' e) of
        None \<Rightarrow> False
      | Some t \<Rightarrow> t \<in> set mutating_file_tools \<and> did_mutate t (ev_payload e))"

text \<open>
  \<open>findLastFileMutationIndex\<close> scans from the end; \<open>-1\<close> means that there is none.
\<close>

fun find_last_from :: "trace_event list \<Rightarrow> nat \<Rightarrow> int" where
  "find_last_from events 0 = -1"
| "find_last_from events (Suc i) =
     (if is_completed_file_mutation (events ! i) then int i else find_last_from events i)"

definition find_last_file_mutation_index :: "trace_event list \<Rightarrow> int" where
  "find_last_file_mutation_index events = find_last_from events (length events)"

definition trimmed_path :: "json \<Rightarrow> jstr list" where
  "trimmed_path v = (case v of JStr s \<Rightarrow> (if js_trim s = [] then [] else [js_trim s]) | _ \<Rightarrow> [])"

text \<open>
  \<open>extractPathsFromInput\<close>. An array passes the object test, but none of the four fields it
  reads is an element of an array, so it yields no path.
\<close>

definition extract_paths_from_input :: "json \<Rightarrow> jstr list" where
  "extract_paths_from_input v =
     uniq_first (trimmed_path (obj_field (asc ''path'') v) @ trimmed_path (obj_field (asc ''from'') v)
       @ trimmed_path (obj_field (asc ''to'') v)
       @ (case obj_field (asc ''files'') v of JArr xs \<Rightarrow> concat (map trimmed_path xs) | _ \<Rightarrow> []))"

section \<open>Touched files\<close>

record touch_state =
  started_paths :: "(jstr, jstr list) omap"
  started_queues :: "(jstr, jstr list list) omap"
  by_path :: "(jstr, jstr list) omap"

definition queue_of :: "jstr \<Rightarrow> (jstr, 'a list) omap \<Rightarrow> 'a list" where
  "queue_of k m = (case om_get m k of Some q \<Rightarrow> q | None \<Rightarrow> [])"

definition is_truthy :: "json \<Rightarrow> bool" where
  "is_truthy v = (case v of JUndefined \<Rightarrow> False | JNull \<Rightarrow> False | JBool b \<Rightarrow> b
     | JNum n \<Rightarrow> n \<noteq> NaN \<and> n \<noteq> Num 0 | JStr s \<Rightarrow> s \<noteq> [] | _ \<Rightarrow> True)"

definition touch_started :: "trace_event \<Rightarrow> touch_state \<Rightarrow> touch_state" where
  "touch_started e st =
     (case nonempty_string (payload_field ''toolName'' e) of
        None \<Rightarrow> st
      | Some t \<Rightarrow>
          if t \<notin> set mutating_file_tools then st
          else let paths = extract_paths_from_input (payload_field ''input'' e)
               in if paths = [] then st
                  else (case nonempty_string (payload_field ''callId'' e) of
                          Some c \<Rightarrow> st\<lparr>started_paths := om_set c paths (started_paths st)\<rparr>
                        | None \<Rightarrow> st\<lparr>started_queues :=
                            om_set t (queue_of t (started_queues st) @ [paths]) (started_queues st)\<rparr>))"

text \<open>The four places the paths of a completed call are looked for, in order; the third one
  consumes the queue entry.\<close>

definition completed_paths :: "jstr \<Rightarrow> trace_event \<Rightarrow> touch_state \<Rightarrow> touch_state \<times> jstr list" where
  "completed_paths t e st =
     (let p1 = extract_paths_from_input (payload_field ''input'' e);
          p2 = (if p1 = [] then (case nonempty_string (payload_field ''callId'' e) of
                    Some c \<Rightarrow> queue_of c (started_paths st) | None \<Rightarrow> []) else p1)
      in if p2 \<noteq> [] then (st, p2)
         else (let q = queue_of t (started_queues st);
                   st' = (if om_has (started_queues st) t
                          then st\<lparr>started_queues := om_set t (tl q) (started_queues st)\<rparr> else st);
                   p3 = (case q of [] \<Rightarrow> [] | p # _ \<Rightarrow> p)
               in if p3 \<noteq> [] then (st', p3)
                  else (st', if is_truthy (payload_field ''data'' e)
                             then extract_paths_from_input (payload_field ''data'' e) else [])))"

definition add_tool :: "jstr \<Rightarrow> jstr \<Rightarrow> (jstr, jstr list) omap \<Rightarrow> (jstr, jstr list) omap" where
  "add_tool t p m = (let ts = queue_of p m in om_set p (if t \<in> set ts then ts else ts @ [t]) m)"

definition touch_event :: "trace_event \<Rightarrow> touch_state \<Rightarrow> touch_state" where
  "touch_event e st =
     (if ev_type e = asc ''tool_call.started'' then touch_started e st
      else if \<not> is_completed_file_mutation e then st
      else (case nonempty_string (payload_field ''toolName'' e) of
              None \<Rightarrow> st
            | Some t \<Rightarrow>
                (let (st', paths) = completed_paths t e st
                 in st'\<lparr>by_path := foldl (\<lambda>m p. add_tool t p m) (by_path st') paths\<rparr>)))"

definition touch_init :: touch_state where
  "touch_init = \<lparr>started_paths = [], started_queues = [], by_path = []\<rparr>"

record touched_file =
  touched_path :: jstr
  touched_tools :: "jstr list"

text \<open>
  The result lists the paths in collation order; the tools of a path are sorted by code unit,
  the order of \<open>Array.prototype.sort\<close>, given as the second comparator.
\<close>

definition extract_touched_files :: "jstr comparator \<Rightarrow> jstr comparator \<Rightarrow> trace_event list \<Rightarrow> touched_file list" where
  "extract_touched_files loc units events =
     Sorting_Algorithms.sort (key touched_path loc)
       (map (\<lambda>(p, ts). \<lparr>touched_path = p, touched_tools = Sorting_Algorithms.sort units ts\<rparr>)
         (by_path (foldl (\<lambda>st e. touch_event e st) touch_init events)))"

definition extract_changed_files :: "jstr comparator \<Rightarrow> jstr comparator \<Rightarrow> trace_event list \<Rightarrow> jstr list" where
  "extract_changed_files loc units events = map touched_path (extract_touched_files loc units events)"

section \<open>Properties\<close>

lemma find_last_from_spec:
  "find_last_from events n = -1 \<and> (\<forall>i < n. \<not> is_completed_file_mutation (events ! i))
   \<or> (\<exists>i < n. find_last_from events n = int i \<and> is_completed_file_mutation (events ! i)
        \<and> (\<forall>j < n. i < j \<longrightarrow> \<not> is_completed_file_mutation (events ! j)))"
proof (induction n)
  case 0
  then show ?case by simp
next
  case (Suc n)
  show ?case
  proof (cases "is_completed_file_mutation (events ! n)")
    case True
    then show ?thesis by (intro disjI2 exI [of _ n]) auto
  next
    case False
    then show ?thesis using Suc.IH by (auto simp: less_Suc_eq)
  qed
qed

lemma find_last_less_length: "find_last_file_mutation_index events < int (length events)"
  using find_last_from_spec [of events "length events"] by (auto simp: find_last_file_mutation_index_def)

lemma find_last_ge: "- 1 \<le> find_last_file_mutation_index events"
  using find_last_from_spec [of events "length events"] by (auto simp: find_last_file_mutation_index_def)

lemma after_last_no_mutation:
  "find_last_file_mutation_index events < int i \<Longrightarrow> i < length events \<Longrightarrow>
   \<not> is_completed_file_mutation (events ! i)"
  using find_last_from_spec [of events "length events"] by (auto simp: find_last_file_mutation_index_def)

lemma mutation_le_last:
  "is_completed_file_mutation (events ! i) \<Longrightarrow> i < length events \<Longrightarrow>
   int i \<le> find_last_file_mutation_index events"
  using after_last_no_mutation [of events i] by linarith

text \<open>A path is recorded only by a completed mutation.\<close>

lemma touch_event_idle:
  "\<not> is_completed_file_mutation e \<Longrightarrow> by_path (touch_event e st) = by_path st"
  by (auto simp: touch_event_def touch_started_def Let_def split: option.splits)

lemma touch_none:
  "\<forall>e \<in> set events. \<not> is_completed_file_mutation e \<Longrightarrow>
   by_path (foldl (\<lambda>st e. touch_event e st) st events) = by_path st"
  by (induction events arbitrary: st) (auto simp: touch_event_idle)

lemma om_wf_add_tool [simp]: "om_wf m \<Longrightarrow> om_wf (add_tool t p m)"
  by (simp add: add_tool_def Let_def)

lemma keys_add_tool [simp]: "fst ` set (add_tool t p m) = insert p (fst ` set m)"
  by (simp add: add_tool_def Let_def)

lemma fold_add_tool:
  "om_wf m \<Longrightarrow> om_wf (foldl (\<lambda>m p. add_tool t p m) m ps)
     \<and> set (om_keys (foldl (\<lambda>m p. add_tool t p m) m ps)) = set (om_keys m) \<union> set ps"
  by (induction ps arbitrary: m) auto

lemma by_path_started [simp]: "by_path (touch_started e st) = by_path st"
  by (auto simp: touch_started_def Let_def split: option.splits)

lemma by_path_wf_event: "om_wf (by_path st) \<Longrightarrow> om_wf (by_path (touch_event e st))"
proof (cases "is_completed_file_mutation e \<and> ev_type e \<noteq> asc ''tool_call.started''")
  case True
  assume wf: "om_wf (by_path st)"
  have "by_path (fst (completed_paths t e st)) = by_path st" for t
    by (auto simp: completed_paths_def Let_def)
  then show ?thesis
    using wf fold_add_tool by (auto simp: touch_event_def Let_def split_beta split: option.splits)
qed (auto simp: touch_event_def split: option.splits)

lemma by_path_wf: "om_wf (by_path st) \<Longrightarrow> om_wf (by_path (foldl (\<lambda>st e. touch_event e st) st events))"
  by (induction events arbitrary: st) (auto simp: by_path_wf_event)


definition event_of :: "string \<Rightarrow> (string \<times> json) list \<Rightarrow> trace_event" where
  "event_of ty es = \<lparr>ev_type = asc ty, ev_payload = JObj (map (\<lambda>(k, v). (asc k, v)) es), ev_timestamp = []\<rparr>"

definition write_trace :: "trace_event list" where
  "write_trace =
    [event_of ''tool_call.started''
       [(''toolName'', JStr (asc ''Write'')), (''callId'', JStr (asc ''c1'')),
        (''input'', JObj [(asc ''path'', JStr (asc ''a.ts''))])],
     event_of ''tool_call.completed''
       [(''toolName'', JStr (asc ''Write'')), (''callId'', JStr (asc ''c1'')),
        (''summary'', JStr (asc ''wrote a.ts''))]]"

lemma write_trace_paths:
  "by_path (foldl (\<lambda>st e. touch_event e st) touch_init write_trace) = [(asc ''a.ts'', [asc ''Write''])]"
  by code_simp


end
