(* ===== verification/Verification_Command.thy ===== *)
theory Verification_Command
  imports Tool_Types JS_Regex
begin

text \<open>
  Recognition of verification commands
  (\<open>packages/core/src/verification/verificationCommand.ts\<close>): the regular expressions of the
  source as \<open>rx\<close> terms, the scan for shell operators that mask an exit status, and the bounded
  identity (label, kinds, fingerprint) of a recognised command. The SHA-256 digest is the
  parameter \<open>sha\<close>.
\<close>

datatype verification_kind = KTest | KTypecheck | KBuild | KLint

record command_identity =
  ci_label :: jstr
  ci_kinds :: "verification_kind list"
  ci_fingerprint :: jstr

text \<open>
  \<open>toLowerCase\<close>, exact for ASCII; of the other letters only the two whose lower case contains
  an ASCII letter are mapped, since the results are only compared with ASCII texts.
\<close>

definition js_lower :: "jstr \<Rightarrow> jstr" where
  "js_lower s = concat (map (\<lambda>c. if 65 \<le> c \<and> c \<le> 90 then [c + 32] else if c = 8490 then [107]
     else if c = 304 then [105, 775] else [c]) s)"

definition collapse_ws :: "jstr \<Rightarrow> jstr" where
  "collapse_ws s = rx_replace_all False (Plus Ws) (asc '' '') s"

definition fingerprint_command :: "(jstr \<Rightarrow> jstr) \<Rightarrow> jstr \<Rightarrow> jstr" where
  "fingerprint_command sha cmd = sha (collapse_ws (js_trim cmd))"

section \<open>Operators that mask the exit status\<close>

text \<open>
  The loop of \<open>hasStatusMaskingOperator\<close>: the open quote, the escape flag, the previous unit
  (\<open>command[index - 1]\<close>) and the rest of the command.
\<close>

fun masking :: "nat option \<Rightarrow> bool \<Rightarrow> nat option \<Rightarrow> jstr \<Rightarrow> bool" where
  "masking q e p [] = False"
| "masking q e p (c # s) =
     (if e then masking q False (Some c) s
      else if c = 92 \<and> q \<noteq> Some 39 then masking q True (Some c) s
      else if q \<noteq> None then masking (if q = Some c then None else q) False (Some c) s
      else if c = 39 \<or> c = 34 then masking (Some c) False (Some c) s
      else if c = 59 \<or> c = 124 \<or> c = 10 \<or> c = 13 then True
      else if c = 38 \<and> s \<noteq> [] \<and> hd s = 38 then masking None False (Some 38) (tl s)
      else if c = 38 \<and> p \<noteq> Some 62 \<and> (s = [] \<or> hd s \<noteq> 62) then True
      else masking None False (Some c) s)"

definition has_status_masking_operator :: "jstr \<Rightarrow> bool" where
  "has_status_masking_operator cmd = masking None False None cmd"

section \<open>The patterns\<close>

definition IdStart :: rx where "IdStart = Cls [(65, 90), (97, 122), (95, 95)]"
definition IdPart :: rx where "IdPart = Cls [(65, 90), (97, 122), (48, 57), (95, 95)]"

definition command_prefix :: rx where
  "command_prefix = Seqs
     [Alt Bol (Seqs [Alts [Lit ''&&'', Lit ''||'', Lit '';'', Lit ''|''], Star Ws]),
      Opt (Seqs [Lit ''env'', Plus Ws]),
      Star (Seqs [IdStart, Star IdPart, Lit ''='',
        Alts [Seqs [Cls [(34, 34)], Star (NotCls [(34, 34)]), Cls [(34, 34)]],
              Seqs [Cls [(39, 39)], Star (NotCls [(39, 39)]), Cls [(39, 39)]],
              Plus NotWs], Plus Ws])]"

definition script_pattern :: rx where
  "script_pattern = Seqs
     [command_prefix, Grp 1 (Alts [Lit ''npm'', Lit ''pnpm'', Lit ''yarn'', Lit ''bun'']), Plus Ws,
      Opt (Seqs [Lit ''run'', Plus Ws]),
      Grp 2 (Plus (Cls [(65, 90), (97, 122), (48, 57), (58, 58), (95, 95), (45, 45)])), WordB]"

definition sep_c :: rx where "sep_c = Cls [(58, 58), (95, 95), (45, 45)]"

definition script_kind :: "jstr \<Rightarrow> verification_kind option" where
  "script_kind script =
     (if rx_test False (Seqs [Bol, Alts [Lit ''test'', Seqs [Lit ''test'', sep_c]]]) script then Some KTest
      else if rx_test False (Seqs [Bol, Alts [Lit ''typecheck'', Lit ''type-check'', Lit ''check:types'',
               Lit ''check-types''], Eol]) script then Some KTypecheck
      else if rx_test False (Seqs [Bol, Alts [Lit ''build'', Seqs [Lit ''build'', sep_c],
               Lit ''package:check'', Lit ''package-check'']]) script then Some KBuild
      else if rx_test False (Seqs [Bol, Alts [Lit ''lint'', Seqs [Lit ''lint'', sep_c]]]) script then Some KLint
      else None)"

text \<open>One entry of the loop over \<open>matchAll\<close>: nothing unless both groups and a kind are there.\<close>

definition script_check :: "jstr \<Rightarrow> captures \<Rightarrow> (jstr \<times> verification_kind) list" where
  "script_check cmd c =
     (case (map_option js_lower (capture cmd c 1), map_option js_lower (capture cmd c 2)) of
        (Some manager, Some script) \<Rightarrow>
          (if manager = [] \<or> script = [] then []
           else (case script_kind script of
                   None \<Rightarrow> []
                 | Some k \<Rightarrow>
                     (let run = (if manager = asc ''yarn'' \<or> manager = asc ''bun'' then [] else asc ''run '')
                      in [(if script = asc ''test'' then manager @ asc '' test''
                           else manager @ asc '' '' @ run @ script, k)])))
      | _ \<Rightarrow> [])"

definition collect_package_manager_checks :: "jstr \<Rightarrow> (jstr \<times> verification_kind) list" where
  "collect_package_manager_checks cmd =
     concat (map (\<lambda>(a, b, c). script_check cmd c) (rx_match_all True script_pattern cmd 0))"

definition npx :: rx where "npx = Opt (Seqs [Lit ''npx'', Plus Ws])"
definition not_op :: rx where "not_op = NotCls [(59, 59), (38, 38), (124, 124)]"

definition known_checks :: "(rx \<times> jstr \<times> verification_kind) list" where
  "known_checks =
    [(Seqs [npx, Lit ''vitest'', WordB], asc ''vitest'', KTest),
     (Seqs [npx, Lit ''jest'', WordB], asc ''jest'', KTest),
     (Seqs [npx, Lit ''tsc'', WordB, Star not_op, Lit ''--noEmit'', WordB], asc ''tsc --noEmit'', KTypecheck),
     (Seqs [npx, Lit ''eslint'', WordB], asc ''eslint'', KLint),
     (Seqs [Alts [Lit ''pytest'', Seqs [Lit ''python'', Opt (Lit ''3''), Plus Ws, Lit ''-m'', Plus Ws, Lit ''pytest'']],
        WordB], asc ''pytest'', KTest),
     (Seqs [Lit ''go'', Plus Ws, Lit ''test'', WordB], asc ''go test'', KTest),
     (Seqs [Lit ''cargo'', Plus Ws, Lit ''test'', WordB], asc ''cargo test'', KTest),
     (Seqs [Alts [Lit ''mvn'', Lit ''mvnw'', Lit ''./mvnw''], Plus Ws, Alts [Lit ''test'', Lit ''verify''], WordB],
        asc ''maven test'', KTest),
     (Seqs [Alts [Lit ''gradle'', Lit ''gradlew'', Lit ''./gradlew''], Plus Ws, Star not_op, WordB, Lit ''test'', WordB],
        asc ''gradle test'', KTest),
     (Seqs [Lit ''dotnet'', Plus Ws, Lit ''test'', WordB], asc ''dotnet test'', KTest),
     (Seqs [Lit ''swift'', Plus Ws, Lit ''test'', WordB], asc ''swift test'', KTest),
     (Seqs [Lit ''make'', Plus Ws, Alts [Lit ''test'', Lit ''check''], WordB], asc ''make test'', KTest)]"

definition collect_known_checks :: "jstr \<Rightarrow> (jstr \<times> verification_kind) list" where
  "collect_known_checks cmd =
     map snd (filter (\<lambda>(body, lk). rx_test True (Seqs [command_prefix, body]) cmd) known_checks)"

section \<open>Identities\<close>

definition identify_verification_command :: "(jstr \<Rightarrow> jstr) \<Rightarrow> jstr \<Rightarrow> command_identity option" where
  "identify_verification_command sha cmd =
     (let normalized = collapse_ws (js_trim cmd)
      in if normalized = [] \<or> has_status_masking_operator cmd then None
         else let uniq = uniq_first (collect_package_manager_checks normalized @ collect_known_checks normalized)
              in if uniq = [] then None
                 else Some \<lparr>ci_label = take 240 (js_join (asc '' && '') (map fst uniq)),
                            ci_kinds = uniq_first (map snd uniq),
                            ci_fingerprint = fingerprint_command sha cmd\<rparr>)"

text \<open>
  \<open>identifyRequestedVerificationCommand\<close>: the Chinese imperatives ("run", "execute", "verify",
  with an optional "please" or "help me") in UTF-16 units.
\<close>

definition Units :: "nat list \<Rightarrow> rx" where
  "Units us = foldr (\<lambda>c r. Seq (Cls [(c, c)]) r) us Eps"

definition how_to_pattern :: rx where
  "how_to_pattern = Alts
     [Seqs [Alts [Units [22914, 20309], Units [24590, 20040], Units [24590, 26679]],
            Alts [Units [36816, 34892], Units [25191, 34892], Units [36305]]],
      Seqs [WordB, Lit ''how'', Plus Ws, Lit ''to'', Plus Ws, Lit ''run'', WordB]]"

definition imperative_pattern :: rx where
  "imperative_pattern = Alts
     [Seqs [Opt (Alts [Units [35831], Units [24110, 25105]]),
            Alts [Units [36816, 34892], Units [25191, 34892], Units [36305, 19968, 19979], Units [36305],
                  Units [39564, 35777]]],
      Seqs [WordB, Lit ''run'', WordB]]"

definition quote_c :: "(nat \<times> nat) list" where "quote_c = [(96, 96), (39, 39), (34, 34)]"
definition colon_ws :: "(nat \<times> nat) list" where "colon_ws = [(58, 58), (65306, 65306)] @ ws_ranges"

definition fenced_text :: "jstr \<Rightarrow> jstr option" where
  "fenced_text tail =
     (case rx_exec False (Seqs [Bol, Star (Cls colon_ws), Cls quote_c, Grp 1 (Plus (NotCls quote_c)), Cls quote_c]) tail of
        None \<Rightarrow> None | Some (a, b, c) \<Rightarrow> capture tail c 1)"

text \<open>The first line of the tail after leading colons and white space: \<open>split(/\r?\n/, 1)[0]\<close>.\<close>

definition first_line :: "jstr \<Rightarrow> jstr" where
  "first_line s = (let l = takeWhile (\<lambda>c. c \<noteq> 10) s
     in if length l < length s \<and> l \<noteq> [] \<and> last l = 13 then butlast l else l)"

definition requested_tail :: "jstr \<Rightarrow> jstr" where
  "requested_tail tail =
     (case fenced_text tail of
        Some t \<Rightarrow> t
      | None \<Rightarrow> first_line (dropWhile (in_ranges colon_ws) tail))"

fun first_identified :: "(jstr \<Rightarrow> command_identity option) \<Rightarrow> jstr list \<Rightarrow> command_identity option" where
  "first_identified f [] = None"
| "first_identified f (t # ts) = (case f t of Some i \<Rightarrow> Some i | None \<Rightarrow> first_identified f ts)"

definition identify_requested_verification_command :: "(jstr \<Rightarrow> jstr) \<Rightarrow> jstr \<Rightarrow> command_identity option" where
  "identify_requested_verification_command sha input =
     (if rx_test True how_to_pattern input then None
      else (case identify_verification_command sha input of
              Some i \<Rightarrow> Some i
            | None \<Rightarrow>
                first_identified (identify_verification_command sha)
                  (map (\<lambda>(a, b, c). requested_tail (js_trim (drop b input)))
                    (rx_match_all True imperative_pattern input 0))))"

section \<open>Properties\<close>

text \<open>
  The masking scan on a command without quotes or backslashes: it accepts exactly the commands
  in which no \<open>;\<close>, \<open>|\<close> or line break occurs and every \<open>&\<close> is half of \<open>&&\<close> or touches \<open>>\<close>.
\<close>

lemma masking_flags_separators:
  "\<not> masking None False p s \<Longrightarrow> list_all (\<lambda>c. c \<noteq> 39 \<and> c \<noteq> 34 \<and> c \<noteq> 92) s \<Longrightarrow>
   list_all (\<lambda>c. c \<noteq> 59 \<and> c \<noteq> 124 \<and> c \<noteq> 10 \<and> c \<noteq> 13) s"
proof (induction "length s" arbitrary: s p rule: less_induct)
  case less
  show ?case
  proof (cases s)
    case Nil
    then show ?thesis by simp
  next
    case (Cons c t)
    have tl: "list_all (\<lambda>c. c \<noteq> 39 \<and> c \<noteq> 34 \<and> c \<noteq> 92) t"
      using less.prems(2) Cons by simp
    show ?thesis
    proof (cases "c = 38 \<and> t \<noteq> [] \<and> hd t = 38")
      case True
      then obtain u where u: "t = 38 # u" by (cases t) auto
      have "\<not> masking None False (Some 38) u" using less.prems(1) Cons u True by simp
      with less.hyps [of u] tl u Cons True show ?thesis by simp
    next
      case False
      then have "\<not> masking None False (Some c) t \<and> c \<noteq> 59 \<and> c \<noteq> 124 \<and> c \<noteq> 10 \<and> c \<noteq> 13"
        using less.prems Cons by (auto split: if_splits)
      with less.hyps [of t "Some c"] tl Cons show ?thesis by simp
    qed
  qed
qed


lemma npm_test_identity:
  "identify_verification_command sha (asc ''npm test'') =
     Some \<lparr>ci_label = asc ''npm test'', ci_kinds = [KTest], ci_fingerprint = sha (asc ''npm test'')\<rparr>"
proof -
  have "collapse_ws (js_trim (asc ''npm test'')) = asc ''npm test''"
    and "has_status_masking_operator (asc ''npm test'') = False"
    and "uniq_first (collect_package_manager_checks (asc ''npm test'') @ collect_known_checks (asc ''npm test''))
       = [(asc ''npm test'', KTest)]"
    by code_simp+
  then show ?thesis
    by (simp add: identify_verification_command_def fingerprint_command_def uniq_first_def Let_def)
qed


end
