(* ===== verification/Verification_Report.thy ===== *)
theory Verification_Report
  imports Trace_Events Verification_Command
begin

text \<open>
  The verification report and the completion gate
  (\<open>packages/core/src/verification/verificationReport.ts\<close>). \<open>collect_event\<close> is one iteration of
  the loop over the trace, on a record of the loop's five containers; the report is computed
  from the final record and the position of the last file mutation. \<open>sha\<close> is the digest and
  \<open>rt\<close> renders a number.
\<close>

datatype verification_status = Passed | Failed | NotRun | NotNeeded

record verification_report =
  vr_status :: verification_status
  vr_commands :: "jstr list"
  vr_evidence :: "jstr list"
  vr_reason :: "jstr option"

record known_command =
  kc_command :: jstr
  kc_label :: jstr

record command_start =
  cs_tool :: jstr
  cs_call_id :: "jstr option"
  cs_label :: jstr
  cs_kinds :: "verification_kind list"
  cs_fingerprint :: jstr
  cs_iteration :: "rat option"
  cs_timestamp :: jstr
  cs_index :: nat

datatype outcome_status = OPassed | OFailed | OUnknown

record command_outcome = command_start +
  co_exit :: "rat option"
  co_status :: outcome_status
  co_completed_at :: jstr
  co_completed_index :: nat

record collect_state =
  started_by_call :: "(jstr, command_start) omap"
  start_queues :: "(jstr, command_start list) omap"
  process_commands :: "(jstr, command_start) omap"
  outcomes :: "command_outcome list"
  all_starts :: "command_start list"

definition command_tools :: "jstr list" where
  "command_tools = map asc [''Bash'', ''ProcessStart'', ''Verify'']"

definition known_by_fingerprint :: "(jstr \<Rightarrow> jstr) \<Rightarrow> known_command list \<Rightarrow> (jstr, jstr) omap" where
  "known_by_fingerprint sha known =
     om_put_all (map (\<lambda>k. (fingerprint_command sha (kc_command k), take 240 (kc_label k))) known) []"

definition or_else :: "'a option \<Rightarrow> 'a option \<Rightarrow> 'a option" where
  "or_else a b = (case a of Some x \<Rightarrow> Some x | None \<Rightarrow> b)"

definition command_start_from_event ::
  "(jstr \<Rightarrow> jstr) \<Rightarrow> trace_event \<Rightarrow> nat \<Rightarrow> (jstr, jstr) omap \<Rightarrow> command_start option" where
  "command_start_from_event sha e idx known =
     (case nonempty_string (payload_field ''toolName'' e) of
        None \<Rightarrow> None
      | Some tool \<Rightarrow>
          (if tool \<notin> set command_tools then None
           else let input = payload_field ''input'' e;
                    raw = nonempty_string (obj_field (asc ''command'') input);
                    fp = or_else (nonempty_string (obj_field (asc ''commandFingerprint'') input))
                           (map_option (fingerprint_command sha) raw);
                    recognized = Option.bind raw (identify_verification_command sha);
                    label = or_else (nonempty_string (obj_field (asc ''verificationCommand'') input))
                              (or_else (map_option ci_label recognized) (Option.bind fp (om_get known)))
                in (case (label, fp) of
                      (Some l, Some f) \<Rightarrow>
                        (if l = [] then None
                         else Some \<lparr>cs_tool = tool,
                                    cs_call_id = nonempty_string (payload_field ''callId'' e),
                                    cs_label = take 240 l,
                                    cs_kinds = (case recognized of Some i \<Rightarrow> ci_kinds i | None \<Rightarrow> []),
                                    cs_fingerprint = f,
                                    cs_iteration = finite_number (payload_field ''iteration'' e),
                                    cs_timestamp = ev_timestamp e, cs_index = idx\<rparr>)
                    | _ \<Rightarrow> None)))"

text \<open>\<open>takeStart\<close>: by call id without removing the entry, else the head of the tool's queue.\<close>

definition take_start :: "trace_event \<Rightarrow> jstr \<Rightarrow> collect_state \<Rightarrow> collect_state \<times> command_start option" where
  "take_start e tool st =
     (case nonempty_string (payload_field ''callId'' e) of
        Some c \<Rightarrow> (st, om_get (started_by_call st) c)
      | None \<Rightarrow>
          (case om_get (start_queues st) tool of
             None \<Rightarrow> (st, None)
           | Some [] \<Rightarrow> (st, None)
           | Some (s # q) \<Rightarrow> (st\<lparr>start_queues := om_set tool q (start_queues st)\<rparr>, Some s)))"

text \<open>\<open>Number\<close> of an optional minus sign and digits.\<close>

definition number_of_digits :: "jstr \<Rightarrow> rat" where
  "number_of_digits s =
     (let value = (\<lambda>ds. of_nat (foldl (\<lambda>a d. a * 10 + (d - 48)) 0 ds) :: rat)
      in if s \<noteq> [] \<and> hd s = 45 then - value (tl s) else value s)"

definition parse_exit_code :: "jstr option \<Rightarrow> rat option" where
  "parse_exit_code summary =
     (let s = (case summary of Some t \<Rightarrow> t | None \<Rightarrow> [])
      in case rx_exec False (Seqs [WordB, Lit ''exit='',
                Grp 1 (Seqs [Opt (Lit ''-''), Plus (Cls [(48, 57)])]), WordB]) s of
           None \<Rightarrow> None
         | Some (a, b, c) \<Rightarrow> map_option number_of_digits (capture s c 1))"

definition with_outcome :: "command_start \<Rightarrow> rat option \<Rightarrow> outcome_status \<Rightarrow> jstr \<Rightarrow> nat \<Rightarrow> command_outcome" where
  "with_outcome s ex status done_at idx = command_start.extend s
     \<lparr>co_exit = ex, co_status = status, co_completed_at = done_at, co_completed_index = idx\<rparr>"

definition outcome_from_event :: "command_start \<Rightarrow> trace_event \<Rightarrow> nat \<Rightarrow> command_outcome" where
  "outcome_from_event s e idx =
     (let ex = or_else (finite_number (obj_field (asc ''exitCode'') (payload_field ''data'' e)))
                 (parse_exit_code (nonempty_string (payload_field ''summary'' e)));
          status = (if ev_type e = asc ''tool_call.completed'' then
                      (case ex of None \<Rightarrow> OUnknown | Some x \<Rightarrow> if x = 0 then OPassed else OFailed)
                    else if ev_type e = asc ''tool_call.failed'' then OFailed else OUnknown)
      in with_outcome s ex status (ev_timestamp e) idx)"

definition collect_started :: "(jstr \<Rightarrow> jstr) \<Rightarrow> (jstr, jstr) omap \<Rightarrow> nat \<Rightarrow> trace_event \<Rightarrow> collect_state \<Rightarrow> collect_state" where
  "collect_started sha known idx e st =
     (case command_start_from_event sha e idx known of
        None \<Rightarrow> st
      | Some s \<Rightarrow>
          (let st' = st\<lparr>all_starts := all_starts st @ [s]\<rparr>
           in (case cs_call_id s of
                 Some c \<Rightarrow> st'\<lparr>started_by_call := om_set c s (started_by_call st')\<rparr>
               | None \<Rightarrow> st'\<lparr>start_queues :=
                   om_set (cs_tool s) (queue_of (cs_tool s) (start_queues st') @ [s]) (start_queues st')\<rparr>)))"

definition collect_finished :: "nat \<Rightarrow> trace_event \<Rightarrow> jstr \<Rightarrow> collect_state \<Rightarrow> collect_state" where
  "collect_finished idx e tool st =
     (case take_start e tool st of
        (st', None) \<Rightarrow> st'
      | (st', Some s) \<Rightarrow>
          (if tool = asc ''ProcessStart'' \<and> ev_type e = asc ''tool_call.completed'' then
             (case nonempty_string (obj_field (asc ''processId'') (payload_field ''data'' e)) of
                None \<Rightarrow> st'
              | Some p \<Rightarrow> st'\<lparr>process_commands := om_set p s (process_commands st')\<rparr>)
           else st'\<lparr>outcomes := outcomes st' @ [outcome_from_event s e idx]\<rparr>))"

definition collect_poll :: "nat \<Rightarrow> trace_event \<Rightarrow> collect_state \<Rightarrow> collect_state" where
  "collect_poll idx e st =
     (let data = payload_field ''data'' e
      in case (nonempty_string (obj_field (asc ''processId'') data), nonempty_string (obj_field (asc ''status'') data)) of
           (Some p, Some status) \<Rightarrow>
             (if status \<noteq> asc ''exited'' \<and> status \<noteq> asc ''killed'' then st
              else (case om_get (process_commands st) p of
                      None \<Rightarrow> st
                    | Some s \<Rightarrow>
                        (let ex = finite_number (obj_field (asc ''exitCode'') data)
                         in st\<lparr>outcomes := outcomes st @ [with_outcome s ex
                                  (if status = asc ''exited'' \<and> ex = Some 0 then OPassed else OFailed)
                                  (ev_timestamp e) idx],
                               process_commands := om_del p (process_commands st)\<rparr>)))
         | _ \<Rightarrow> st)"

definition collect_event :: "(jstr \<Rightarrow> jstr) \<Rightarrow> (jstr, jstr) omap \<Rightarrow> nat \<times> trace_event \<Rightarrow> collect_state \<Rightarrow> collect_state" where
  "collect_event sha known ie st =
     (let (idx, e) = ie
      in if ev_type e = asc ''tool_call.started'' then collect_started sha known idx e st
         else if ev_type e \<noteq> asc ''tool_call.completed'' \<and> ev_type e \<noteq> asc ''tool_call.failed''
             \<and> ev_type e \<noteq> asc ''tool_call.cancelled'' then st
         else (case nonempty_string (payload_field ''toolName'' e) of
                 None \<Rightarrow> st
               | Some tool \<Rightarrow>
                   (if tool \<in> set command_tools then collect_finished idx e tool st
                    else if tool = asc ''ProcessPoll'' \<and> ev_type e = asc ''tool_call.completed''
                      then collect_poll idx e st
                    else st)))"

definition collect_init :: collect_state where
  "collect_init = \<lparr>started_by_call = [], start_queues = [], process_commands = [], outcomes = [], all_starts = []\<rparr>"

definition collect_all :: "(jstr \<Rightarrow> jstr) \<Rightarrow> known_command list \<Rightarrow> trace_event list \<Rightarrow> collect_state" where
  "collect_all sha known events =
     foldl (\<lambda>st ie. collect_event sha (known_by_fingerprint sha known) ie st) collect_init
       (zip [0..<length events] events)"

definition start_identity :: "'a command_start_scheme \<Rightarrow> jstr" where
  "start_identity s = (case cs_call_id s of
     Some c \<Rightarrow> c
   | None \<Rightarrow> cs_tool s @ asc '':'' @ cs_fingerprint s @ asc '':'' @ cs_timestamp s)"

definition format_location :: "(rat \<Rightarrow> jstr) \<Rightarrow> rat option \<Rightarrow> jstr \<Rightarrow> jstr" where
  "format_location rt it stamp =
     (case it of None \<Rightarrow> [] | Some n \<Rightarrow> asc '', iteration='' @ rt n) @ asc '', at='' @ stamp"

definition outcome_status_text :: "outcome_status \<Rightarrow> jstr" where
  "outcome_status_text s = (case s of OPassed \<Rightarrow> asc ''passed'' | OFailed \<Rightarrow> asc ''failed'' | OUnknown \<Rightarrow> asc ''unknown'')"

definition format_outcome_evidence :: "(rat \<Rightarrow> jstr) \<Rightarrow> command_outcome \<Rightarrow> jstr" where
  "format_outcome_evidence rt oc =
     cs_label oc @ asc '': '' @ outcome_status_text (co_status oc) @ asc '' (''
     @ (case co_exit oc of None \<Rightarrow> asc ''exit=unknown'' | Some x \<Rightarrow> asc ''exit='' @ rt x)
     @ format_location rt (cs_iteration oc) (co_completed_at oc) @ asc '')''"

section \<open>The report\<close>

definition valid_outcomes :: "trace_event list \<Rightarrow> collect_state \<Rightarrow> command_outcome list" where
  "valid_outcomes events st = filter (\<lambda>oc. find_last_file_mutation_index events < int (cs_index oc)
     \<and> find_last_file_mutation_index events < int (co_completed_index oc)) (outcomes st)"

definition valid_starts :: "trace_event list \<Rightarrow> collect_state \<Rightarrow> command_start list" where
  "valid_starts events st =
     filter (\<lambda>s. find_last_file_mutation_index events < int (cs_index s)) (all_starts st)"

definition pending_starts :: "trace_event list \<Rightarrow> collect_state \<Rightarrow> command_start list" where
  "pending_starts events st =
     filter (\<lambda>s. start_identity s \<notin> set (map start_identity (valid_outcomes events st))) (valid_starts events st)"

text \<open>The latest valid outcome of each label.\<close>

definition latest_outcomes :: "command_outcome list \<Rightarrow> command_outcome list" where
  "latest_outcomes os = map snd (om_put_all (map (\<lambda>oc. (cs_label oc, oc)) os) [])"

definition collect_verification_report ::
  "(jstr \<Rightarrow> jstr) \<Rightarrow> (rat \<Rightarrow> jstr) \<Rightarrow> trace_event list \<Rightarrow> jstr list \<Rightarrow> known_command list \<Rightarrow> verification_report" where
  "collect_verification_report sha rt events changed known =
     (let st = collect_all sha known events;
          valid = valid_outcomes events st;
          pending = pending_starts events st;
          commands = map cs_label valid @ map cs_label pending;
          evidence = map (format_outcome_evidence rt) valid
            @ map (\<lambda>s. cs_label s @ asc '': completion not observed''
                       @ format_location rt (cs_iteration s) (cs_timestamp s)) pending
      in if valid = [] \<and> pending = [] then
           (if changed \<noteq> [] then
              \<lparr>vr_status = NotRun, vr_commands = [], vr_evidence = [], vr_reason = Some
                (if 0 < length (outcomes st) + length (all_starts st) - length (valid_starts events st)
                 then asc ''Earlier verification was invalidated by a later workspace mutation; no recognized verification command ran after the last mutation.''
                 else asc ''Workspace files changed, but no recognized verification command was observed after the last mutation.'')\<rparr>
            else \<lparr>vr_status = NotNeeded, vr_commands = [], vr_evidence = [],
                  vr_reason = Some (asc ''No workspace file changes or verification commands were observed.'')\<rparr>)
         else let latest = latest_outcomes valid
              in if list_ex (\<lambda>oc. co_status oc = OFailed) latest then
                   \<lparr>vr_status = Failed, vr_commands = commands, vr_evidence = evidence,
                    vr_reason = Some (asc ''At least one latest verification command failed.'')\<rparr>
                 else if pending \<noteq> [] \<or> list_ex (\<lambda>oc. co_status oc = OUnknown) latest then
                   \<lparr>vr_status = NotRun, vr_commands = commands, vr_evidence = evidence,
                    vr_reason = Some (asc ''A verification command was observed without a confirmed exit status.'')\<rparr>
                 else \<lparr>vr_status = Passed, vr_commands = commands, vr_evidence = evidence, vr_reason = None\<rparr>)"

section \<open>The completion gate\<close>

record gate_assessment =
  ga_required :: bool
  ga_satisfied :: bool
  ga_report :: verification_report
  ga_reason :: jstr
  ga_last_mutation :: int
  ga_required_kinds :: "verification_kind list"
  ga_observed_kinds :: "verification_kind list"

definition kind_text :: "verification_kind \<Rightarrow> jstr" where
  "kind_text k = (case k of KTest \<Rightarrow> asc ''test'' | KTypecheck \<Rightarrow> asc ''typecheck''
     | KBuild \<Rightarrow> asc ''build'' | KLint \<Rightarrow> asc ''lint'')"

definition normalized_path :: "jstr \<Rightarrow> jstr" where
  "normalized_path p = js_lower (map (\<lambda>c. if c = 92 then 47 else c) p)"

definition SlashOrBol :: rx where "SlashOrBol = Alt Bol (Lit ''/'')"
definition NotSlash :: rx where "NotSlash = NotCls [(47, 47)]"

definition is_documentation_file :: "jstr \<Rightarrow> bool" where
  "is_documentation_file path =
     (let n = normalized_path path
      in js_starts_with (asc ''docs/'') n
         \<or> rx_test False (Seqs [SlashOrBol, Alts [Lit ''readme'', Lit ''changelog'', Lit ''contributing'',
              Lit ''code_of_conduct'', Lit ''security''], Opt (Seqs [Lit ''.'', Star NotSlash]), Eol]) n
         \<or> rx_test False (Seqs [Lit ''.'', Alts [Lit ''md'', Lit ''mdx'', Lit ''rst'', Lit ''adoc'', Lit ''txt''], Eol]) n)"

definition requires_verification_for_files :: "jstr list \<Rightarrow> bool" where
  "requires_verification_for_files changed \<longleftrightarrow> changed \<noteq> [] \<and> \<not> list_all is_documentation_file changed"

definition package_root :: "jstr \<Rightarrow> jstr list" where
  "package_root n =
     (case rx_exec False (Seqs [Bol, Lit ''packages/'', Grp 1 (Plus NotSlash), Lit ''/'']) n of
        None \<Rightarrow> []
      | Some (a, b, c) \<Rightarrow> (case capture n c 1 of Some r \<Rightarrow> [r] | None \<Rightarrow> []))"

definition is_high_risk_change :: "jstr list \<Rightarrow> bool" where
  "is_high_risk_change changed =
     (let ns = map normalized_path changed
      in 1 < length (uniq_first (concat (map package_root ns)))
         \<or> list_ex (\<lambda>n.
             rx_test False (Seqs [SlashOrBol, Alts [Lit ''package.json'', Lit ''package-lock.json'',
               Lit ''pnpm-lock.yaml'', Lit ''yarn.lock'', Seqs [Lit ''bun.lock'', Opt (Lit ''b'')],
               Seqs [Lit ''tsconfig'', Star NotSlash, Lit ''.json'']], Eol]) n
             \<or> js_starts_with (asc ''scripts/'') n
             \<or> rx_test False (Seqs [SlashOrBol, Alts [Lit ''cli'', Lit ''protocol''],
                 Alts [Lit ''/'', Lit ''.'', Eol]]) n) ns)"

definition required_verification_kinds :: "jstr list \<Rightarrow> verification_kind list" where
  "required_verification_kinds changed =
     (if changed = [] \<or> list_all is_documentation_file changed then []
      else if is_high_risk_change changed then [KTest, KBuild] else [])"

definition collect_report_kinds ::
  "(jstr \<Rightarrow> jstr) \<Rightarrow> verification_report \<Rightarrow> known_command list \<Rightarrow> verification_kind list" where
  "collect_report_kinds sha report known =
     uniq_first (concat (map (\<lambda>c.
       (case identify_verification_command sha c of Some i \<Rightarrow> ci_kinds i | None \<Rightarrow> [])
       @ (if c \<in> set (map (\<lambda>k. take 240 (kc_label k)) known) then [KTest] else [])) (vr_commands report)))"

text \<open>\<open>String.prototype.split\<close> with a non-empty separator: the piece read so far and the rest.\<close>

function split_go :: "jstr \<Rightarrow> jstr \<Rightarrow> jstr \<Rightarrow> jstr list" where
  "split_go sep acc [] = [rev acc]"
| "split_go sep acc (c # s) =
     (if js_starts_with sep (c # s) then rev acc # split_go sep [] (drop (length sep - 1) s)
      else split_go sep (c # acc) s)"
  by pat_completeness auto
termination
  by (relation "measure (\<lambda>(sep, acc, s). length s)") auto

definition js_split :: "jstr \<Rightarrow> jstr \<Rightarrow> jstr list" where
  "js_split sep s = split_go sep [] s"

definition assess_verification_gate ::
  "(jstr \<Rightarrow> jstr) \<Rightarrow> (rat \<Rightarrow> jstr) \<Rightarrow> trace_event list \<Rightarrow> jstr list \<Rightarrow> known_command list \<Rightarrow>
   command_identity option \<Rightarrow> gate_assessment" where
  "assess_verification_gate sha rt events changed known requested =
     (let report = collect_verification_report sha rt events changed known;
          requested_passed = (case requested of
              Some r \<Rightarrow> vr_status report = Passed
                \<and> list_ex (\<lambda>c. ci_label r \<in> set (js_split (asc '' && '') c)) (vr_commands report)
            | None \<Rightarrow> True);
          required_kinds = required_verification_kinds changed;
          code_change = (changed \<noteq> [] \<and> \<not> list_all is_documentation_file changed);
          observed = (if vr_status report = Passed then collect_report_kinds sha report known else []);
          kinds_passed = (if required_kinds \<noteq> [] then list_all (\<lambda>k. k \<in> set observed) required_kinds
                          else \<not> code_change \<or> list_ex (\<lambda>k. k \<in> {KTest, KTypecheck, KBuild}) observed);
          required = (requested \<noteq> None \<or> code_change);
          satisfied = (\<not> required \<or> (vr_status report = Passed \<and> requested_passed \<and> kinds_passed));
          reason =
            (if satisfied then
               (if required then asc ''Post-mutation verification passed.''
                else asc ''No completion-blocking verification is required for this run.'')
             else if requested \<noteq> None \<and> \<not> requested_passed then
               asc ''The explicitly requested verification command ('' @ ci_label (the requested) @ asc '') did not pass.''
             else if \<not> kinds_passed \<and> vr_status report = Passed then
               (if required_kinds \<noteq> [] then
                  asc ''Verification passed, but the change risk also requires: ''
                  @ js_join (asc '' + '') (map kind_text required_kinds) @ asc ''.''
                else asc ''Verification passed, but code changes require a related test, typecheck, or build check.'')
             else (case vr_reason report of Some r \<Rightarrow> r
                   | None \<Rightarrow> asc ''A recognized verification command must pass after the last workspace mutation.''))
      in \<lparr>ga_required = required, ga_satisfied = satisfied,
          ga_report = (if \<not> satisfied \<and> vr_status report \<noteq> Failed
                       then report\<lparr>vr_status := NotRun, vr_reason := Some reason\<rparr> else report),
          ga_reason = reason, ga_last_mutation = find_last_file_mutation_index events,
          ga_required_kinds = required_kinds, ga_observed_kinds = observed\<rparr>)"

section \<open>What the collected starts and outcomes say about the trace\<close>

definition start_of :: "trace_event list \<Rightarrow> nat \<Rightarrow> 'a command_start_scheme \<Rightarrow> bool" where
  "start_of events n s \<longleftrightarrow> cs_index s < n \<and> ev_type (events ! cs_index s) = asc ''tool_call.started''"

definition outcome_of :: "trace_event list \<Rightarrow> nat \<Rightarrow> command_outcome \<Rightarrow> bool" where
  "outcome_of events n oc \<longleftrightarrow> start_of events n oc \<and> cs_index oc < co_completed_index oc \<and> co_completed_index oc < n
     \<and> (co_status oc = OPassed \<longrightarrow> co_exit oc = Some 0
          \<and> ev_type (events ! co_completed_index oc) = asc ''tool_call.completed'')"

definition held_starts :: "collect_state \<Rightarrow> command_start set" where
  "held_starts st = snd ` set (started_by_call st) \<union> \<Union> (set ` snd ` set (start_queues st))
     \<union> snd ` set (process_commands st) \<union> set (all_starts st)"

definition collect_ok :: "trace_event list \<Rightarrow> nat \<Rightarrow> collect_state \<Rightarrow> bool" where
  "collect_ok events n st \<longleftrightarrow> (\<forall>s \<in> held_starts st. start_of events n s)
     \<and> (\<forall>oc \<in> set (outcomes st). outcome_of events n oc)"

lemma start_of_mono: "start_of events n s \<Longrightarrow> n \<le> m \<Longrightarrow> start_of events m s"
  by (auto simp: start_of_def)

lemma outcome_of_mono: "outcome_of events n oc \<Longrightarrow> n \<le> m \<Longrightarrow> outcome_of events m oc"
  by (auto simp: outcome_of_def start_of_mono)

lemma collect_ok_mono: "collect_ok events n st \<Longrightarrow> n \<le> m \<Longrightarrow> collect_ok events m st"
  by (auto simp: collect_ok_def intro: start_of_mono outcome_of_mono)

lemma collect_ok_subset:
  "collect_ok events n st \<Longrightarrow> held_starts st' \<subseteq> held_starts st \<Longrightarrow> outcomes st' = outcomes st \<Longrightarrow>
   n \<le> m \<Longrightarrow> collect_ok events m st'"
  unfolding collect_ok_def by (metis outcome_of_mono start_of_mono subsetD)

lemma snd_om_set: "snd ` set (om_set k v m) \<subseteq> insert v (snd ` set m)"
  using image_mono [OF set_om_set_subset [of k v m], of snd] by simp

lemma snd_om_del: "snd ` set (om_del k m) \<subseteq> snd ` set m"
  by (auto simp: set_om_del)

lemma om_get_in: "om_get m k = Some v \<Longrightarrow> v \<in> snd ` set m"
  by (force dest: map_of_SomeD)

lemma queue_of_in: "set (queue_of k m) \<subseteq> \<Union> (set ` snd ` set m)"
  by (cases "om_get m k") (force simp: queue_of_def dest: map_of_SomeD)+

lemma Union_om_set: "\<Union> (set ` snd ` set (om_set k q m)) \<subseteq> set q \<union> \<Union> (set ` snd ` set m)"
  using snd_om_set [of k q m] by blast

lemma with_outcome_fields [simp]:
  "cs_index (with_outcome s ex os d i) = cs_index s" "co_exit (with_outcome s ex os d i) = ex"
  "co_status (with_outcome s ex os d i) = os" "co_completed_index (with_outcome s ex os d i) = i"
  "cs_label (with_outcome s ex os d i) = cs_label s"
  by (simp_all add: with_outcome_def command_start.defs)

lemma start_of_with_outcome [simp]: "start_of events n (with_outcome s ex os d i) \<longleftrightarrow> start_of events n s"
  by (simp add: start_of_def)

lemma command_start_index:
  "command_start_from_event sha e idx known = Some s \<Longrightarrow> cs_index s = idx"
  by (auto simp: command_start_from_event_def Let_def split: option.splits if_splits prod.splits)

lemma take_start_held:
  assumes ts: "take_start e tool st = (st', r)"
  shows "held_starts st' \<subseteq> held_starts st \<and> outcomes st' = outcomes st \<and> (\<forall>s. r = Some s \<longrightarrow> s \<in> held_starts st)"
proof (cases "nonempty_string (payload_field ''callId'' e)")
  case (Some c)
  with ts have "st' = st" "r = om_get (started_by_call st) c" by (auto simp: take_start_def)
  then show ?thesis by (auto simp: held_starts_def dest: om_get_in)
next
  case None
  show ?thesis
  proof (cases "om_get (start_queues st) tool")
    case None
    with ts \<open>nonempty_string _ = None\<close> show ?thesis by (simp add: take_start_def)
  next
    case (Some q)
    show ?thesis
    proof (cases q)
      case Nil
      with ts None Some show ?thesis by (simp add: take_start_def)
    next
      case (Cons s q')
      with ts None Some have st': "st' = st\<lparr>start_queues := om_set tool q' (start_queues st)\<rparr>" "r = Some s"
        by (simp_all add: take_start_def)
      have q: "set (s # q') \<subseteq> \<Union> (set ` snd ` set (start_queues st))"
        using queue_of_in [of tool "start_queues st"] Some Cons by (simp add: queue_of_def)
      then have "\<Union> (set ` snd ` set (om_set tool q' (start_queues st))) \<subseteq> \<Union> (set ` snd ` set (start_queues st))"
        using Union_om_set [of tool q' "start_queues st"] by auto
      with q show ?thesis unfolding st' held_starts_def by auto
    qed
  qed
qed

lemma collect_started_ok:
  assumes "collect_ok events n st" and "ev_type (events ! n) = asc ''tool_call.started''"
  shows "collect_ok events (Suc n) (collect_started sha known n (events ! n) st)"
proof (cases "command_start_from_event sha (events ! n) n known")
  case None
  with assms show ?thesis by (simp add: collect_started_def collect_ok_mono [of _ n])
next
  case (Some s)
  let ?st = "collect_started sha known n (events ! n) st"
  have s: "start_of events (Suc n) s"
    using command_start_index [OF Some] assms(2) by (simp add: start_of_def)
  have "held_starts ?st \<subseteq> insert s (held_starts st)"
  proof (cases "cs_call_id s")
    case None
    then show ?thesis
      using Union_om_set [of "cs_tool s" "queue_of (cs_tool s) (start_queues st) @ [s]" "start_queues st"]
        queue_of_in [of "cs_tool s" "start_queues st"]
      by (auto simp: collect_started_def Some held_starts_def Let_def)
  next
    case Some': (Some c)
    then show ?thesis
      using snd_om_set [of c s "started_by_call st"]
      by (auto simp: collect_started_def Some held_starts_def Let_def)
  qed
  moreover have "outcomes ?st = outcomes st"
    by (auto simp: collect_started_def Let_def split: option.splits)
  ultimately show ?thesis
    using assms(1) s collect_ok_mono [of events n st "Suc n"] by (auto simp: collect_ok_def)
qed

lemma collect_ok_add_outcome:
  assumes "collect_ok events n st" and "s \<in> held_starts st" and "held_starts st' \<subseteq> held_starts st"
    and "outcomes st' = outcomes st @ [with_outcome s ex os d n]"
    and "os = OPassed \<Longrightarrow> ex = Some 0 \<and> ev_type (events ! n) = asc ''tool_call.completed''"
  shows "collect_ok events (Suc n) st'"
proof -
  have "start_of events n s" using assms(1,2) by (simp add: collect_ok_def)
  then have "outcome_of events (Suc n) (with_outcome s ex os d n)"
    using assms(5) by (auto simp: outcome_of_def start_of_def)
  with assms(1,3,4) collect_ok_mono [of events n st "Suc n"] show ?thesis
    by (auto simp: collect_ok_def)
qed

lemma collect_finished_ok:
  assumes "collect_ok events n st"
  shows "collect_ok events (Suc n) (collect_finished n (events ! n) tool st)"
proof -
  obtain st' r where ts: "take_start (events ! n) tool st = (st', r)" by fastforce
  note held = take_start_held [OF ts]
  have ok': "collect_ok events n st'" using held assms by (auto simp: collect_ok_def)
  show ?thesis
  proof (cases r)
    case None
    with ts ok' show ?thesis by (simp add: collect_finished_def collect_ok_mono [of _ n])
  next
    case (Some s)
    show ?thesis
    proof (cases "tool = asc ''ProcessStart'' \<and> ev_type (events ! n) = asc ''tool_call.completed''")
      case True
      have "held_starts (st'\<lparr>process_commands := om_set p s (process_commands st')\<rparr>) \<subseteq> insert s (held_starts st')" for p
        using snd_om_set [of p s "process_commands st'"] by (auto simp: held_starts_def)
      moreover have "insert s (held_starts st') \<subseteq> held_starts st" using held Some by simp
      ultimately have "held_starts (st'\<lparr>process_commands := om_set p s (process_commands st')\<rparr>) \<subseteq> held_starts st" for p
        by blast
      then have "collect_ok events (Suc n) (st'\<lparr>process_commands := om_set p s (process_commands st')\<rparr>)" for p
        using held by (intro collect_ok_subset [OF assms]) auto
      moreover have "collect_ok events (Suc n) st'" using ok' by (rule collect_ok_mono) simp
      ultimately show ?thesis
        using True ts Some by (simp add: collect_finished_def split: option.split)
    next
      case False
      have "collect_finished n (events ! n) tool st
          = st'\<lparr>outcomes := outcomes st' @ [outcome_from_event s (events ! n) n]\<rparr>"
        using False ts Some by (auto simp: collect_finished_def)
      moreover have "held_starts (st'\<lparr>outcomes := os\<rparr>) = held_starts st'" for os
        by (simp add: held_starts_def)
      ultimately show ?thesis
        using held assms Some
        by (auto simp: outcome_from_event_def Let_def split: if_splits option.splits
            intro!: collect_ok_add_outcome [of events n st s])
    qed
  qed
qed

lemma collect_poll_ok:
  assumes "collect_ok events n st" and "ev_type (events ! n) = asc ''tool_call.completed''"
  shows "collect_ok events (Suc n) (collect_poll n (events ! n) st)"
proof -
  have "held_starts (st\<lparr>outcomes := os, process_commands := om_del p (process_commands st)\<rparr>) \<subseteq> held_starts st" for os p
    using snd_om_del [of p "process_commands st"] by (auto simp: held_starts_def)
  moreover have "s \<in> held_starts st" if "om_get (process_commands st) p = Some s" for p s
    using om_get_in [OF that] by (simp add: held_starts_def)
  ultimately show ?thesis
    using assms collect_ok_mono [OF assms(1), of "Suc n"]
    by (auto simp: collect_poll_def Let_def split: option.splits if_splits
        intro!: collect_ok_add_outcome [of events n st])
qed

lemma collect_event_ok:
  "collect_ok events n st \<Longrightarrow> collect_ok events (Suc n) (collect_event sha known (n, events ! n) st)"
  using collect_ok_mono [of events n st "Suc n"]
  by (auto simp: collect_event_def collect_started_ok collect_finished_ok collect_poll_ok split: option.splits)

lemma collect_all_ok: "collect_ok events (length events) (collect_all sha known events)"
proof -
  have "collect_ok events n (foldl (\<lambda>st ie. collect_event sha k ie st) collect_init (zip [0..<n] (take n events)))"
    if "n \<le> length events" for n k
    using that
  proof (induction n)
    case 0
    then show ?case by (simp add: collect_ok_def collect_init_def held_starts_def)
  next
    case (Suc n)
    have "zip [0..<Suc n] (take (Suc n) events) = zip [0..<n] (take n events) @ [(n, events ! n)]"
      using Suc.prems by (simp add: take_Suc_conv_app_nth)
    with Suc show ?case by (simp add: collect_event_ok)
  qed
  from this [of "length events"] show ?thesis by (simp add: collect_all_def)
qed

section \<open>Splitting a label\<close>

text \<open>No piece of a split contains the separator.\<close>

lemma split_go_free:
  "sep \<noteq> [] \<Longrightarrow> \<forall>i < length acc. \<not> js_starts_with sep (drop i (rev acc @ s)) \<Longrightarrow>
    p \<in> set (split_go sep acc s) \<Longrightarrow> \<not> js_includes sep p"
proof (induction sep acc s rule: split_go.induct)
  case (1 sep acc)
  then have p: "p = rev acc" by simp
  have "\<not> js_starts_with sep (drop k (rev acc))" for k
  proof (cases "k < length acc")
    case True
    then show ?thesis using "1.prems"(2) by simp
  next
    case False
    then show ?thesis using "1.prems"(1) by (auto simp: js_starts_with_def)
  qed
  then show ?case by (simp add: p js_includes_iff)
next
  case (2 sep acc c s)
  show ?case
  proof (cases "js_starts_with sep (c # s)")
    case True
    then consider "p = rev acc" | "p \<in> set (split_go sep [] (drop (length sep - 1) s))"
      using "2.prems"(3) by auto
    then show ?thesis
    proof cases
      case 1
      have "\<not> js_starts_with sep (drop k (rev acc))" for k
      proof (cases "k < length acc")
        case True
        then have "\<not> js_starts_with sep (drop k (rev acc @ c # s))" using "2.prems"(2) by blast
        with True show ?thesis using js_starts_with_extend [of sep "drop k (rev acc)" "c # s"] by auto
      next
        case False
        then show ?thesis using "2.prems"(1) by (auto simp: js_starts_with_def)
      qed
      then show ?thesis by (simp add: 1 js_includes_iff)
    next
      case 2
      then show ?thesis using "2.IH"(1) [OF True "2.prems"(1)] by simp
    qed
  next
    case False
    have "\<forall>i < length (c # acc). \<not> js_starts_with sep (drop i (rev (c # acc) @ s))"
      using "2.prems"(2) False by (auto simp: less_Suc_eq)
    then show ?thesis using "2.IH"(2) [OF False "2.prems"(1)] "2.prems"(3) False by simp
  qed
qed

lemma js_split_free: "sep \<noteq> [] \<Longrightarrow> p \<in> set (js_split sep s) \<Longrightarrow> \<not> js_includes sep p"
  unfolding js_split_def by (erule split_go_free [rotated 2]) auto

section \<open>Properties\<close>

lemma latest_subset: "set (latest_outcomes os) \<subseteq> set os"
proof -
  have "snd ` set (om_put_all kvs m) \<subseteq> snd ` set kvs \<union> snd ` set m" for kvs and m :: "(jstr, command_outcome) omap"
  proof (induction kvs arbitrary: m)
    case Nil
    then show ?case by (simp add: om.put_all_simps)
  next
    case (Cons kv kvs)
    obtain k v where "kv = (k, v)" by (cases kv)
    then show ?case using Cons.IH [of "om_set k v m"] snd_om_set [of k v m] by (auto simp: om.put_all_simps)
  qed
  from this [of "map (\<lambda>oc. (cs_label oc, oc)) os" "[]"] show ?thesis
    by (auto simp: latest_outcomes_def)
qed

lemma latest_labels: "\<exists>m. latest_outcomes os = map snd m \<and> om_keys m = uniq_first (map cs_label os)"
  by (rule exI [of _ "om_put_all (map (\<lambda>oc. (cs_label oc, oc)) os) []"])
    (simp add: latest_outcomes_def om.keys_put_all comp_def)

lemma latest_nonempty: "os \<noteq> [] \<Longrightarrow> latest_outcomes os \<noteq> []"
  using latest_labels [of os] set_uniq_first [of "map cs_label os"] by (auto simp del: set_uniq_first)

lemma report_passed:
  assumes "vr_status (collect_verification_report sha rt events changed known) = Passed"
  defines "st \<equiv> collect_all sha known events"
  shows "valid_outcomes events st \<noteq> []" and "pending_starts events st = []"
    and "\<forall>oc \<in> set (latest_outcomes (valid_outcomes events st)). co_status oc = OPassed"
proof -
  have "valid_outcomes events st \<noteq> [] \<and> pending_starts events st = []
    \<and> (\<forall>oc \<in> set (latest_outcomes (valid_outcomes events st)). co_status oc \<noteq> OFailed \<and> co_status oc \<noteq> OUnknown)"
    using assms(1) unfolding st_def [symmetric] collect_verification_report_def Let_def
    by (auto simp: st_def [symmetric] list_ex_iff split: if_splits)
  then show "valid_outcomes events st \<noteq> []" "pending_starts events st = []"
    "\<forall>oc \<in> set (latest_outcomes (valid_outcomes events st)). co_status oc = OPassed"
    by (auto intro: outcome_status.exhaust)
qed


definition npm_run :: "trace_event list" where
  "npm_run =
    [event_of ''tool_call.started''
       [(''toolName'', JStr (asc ''Verify'')), (''callId'', JStr (asc ''c1'')),
        (''input'', JObj [(asc ''commandFingerprint'', JStr [1]), (asc ''verificationCommand'', JStr (asc ''npm test''))])],
     event_of ''tool_call.completed''
       [(''toolName'', JStr (asc ''Verify'')), (''callId'', JStr (asc ''c1'')),
        (''data'', JObj [(asc ''exitCode'', JNum (Num 0))])]]"

lemma npm_run_passes: "vr_status (collect_verification_report id (\<lambda>_. []) npm_run [] []) = Passed"
  by code_simp


text \<open>
  C10. A mutation invalidates every earlier verification: when the newest event is a completed
  file mutation, the report carries no command and is not passed, whatever ran before.
\<close>

theorem mutation_invalidates_verification:
  assumes "is_completed_file_mutation m"
  shows "vr_commands (collect_verification_report sha rt (events @ [m]) changed known) = []
    \<and> vr_status (collect_verification_report sha rt (events @ [m]) changed known)
        = (if changed = [] then NotNeeded else NotRun)"
proof -
  let ?ev = "events @ [m]" and ?st = "collect_all sha known (events @ [m])"
  have last: "int (length events) \<le> find_last_file_mutation_index ?ev"
    using mutation_le_last [of ?ev "length events"] assms by simp
  note ok = collect_all_ok [of ?ev sha known]
  have "cs_index oc \<le> length events" if "oc \<in> set (outcomes ?st)" for oc
    using ok that by (force simp: collect_ok_def outcome_of_def start_of_def)
  then have "valid_outcomes ?ev ?st = []"
    using last by (fastforce simp: valid_outcomes_def filter_empty_conv)
  moreover have "cs_index s \<le> length events" if "s \<in> set (all_starts ?st)" for s
    using ok that by (force simp: collect_ok_def held_starts_def start_of_def)
  then have "pending_starts ?ev ?st = []"
    using last by (fastforce simp: pending_starts_def valid_starts_def filter_empty_conv)
  ultimately show ?thesis
    by (simp add: collect_verification_report_def Let_def)
qed

theorem mutation_invalidates_verification_witness:
  "vr_status (collect_verification_report id (\<lambda>_. []) (npm_run @ [last write_trace]) [asc ''a.ts''] []) = NotRun"
proof -
  have "is_completed_file_mutation (last write_trace)" by code_simp
  from mutation_invalidates_verification [OF this] show ?thesis by simp
qed

text \<open>
  C11. The gate never lets an unverified code change pass for a verified one: an unsatisfied
  gate hands out a report that says failed or not run, and a satisfied one has, for a change to
  anything but documentation, a passed report with an observed test, typecheck or build.
\<close>

theorem gate_never_overstates:
  "(\<not> ga_satisfied (assess_verification_gate sha rt events changed known req)
      \<longrightarrow> vr_status (ga_report (assess_verification_gate sha rt events changed known req)) \<in> {Failed, NotRun})
   \<and> (ga_satisfied (assess_verification_gate sha rt events changed known req)
        \<and> requires_verification_for_files changed
      \<longrightarrow> vr_status (ga_report (assess_verification_gate sha rt events changed known req)) = Passed
        \<and> (\<exists>k \<in> {KTest, KTypecheck, KBuild}.
             k \<in> set (ga_observed_kinds (assess_verification_gate sha rt events changed known req))))"
proof -
  let ?r = "collect_verification_report sha rt events changed known"
  define req_ok where "req_ok = (case req of
      Some r \<Rightarrow> vr_status ?r = Passed \<and> list_ex (\<lambda>c. ci_label r \<in> set (js_split (asc '' && '') c)) (vr_commands ?r)
    | None \<Rightarrow> True)"
  define kinds where "kinds = (if vr_status ?r = Passed then collect_report_kinds sha ?r known else [])"
  have required: "required_verification_kinds changed \<noteq> [] \<Longrightarrow> required_verification_kinds changed = [KTest, KBuild]"
    by (auto simp: required_verification_kinds_def split: if_splits)
  show ?thesis
    unfolding assess_verification_gate_def Let_def req_ok_def [symmetric] kinds_def [symmetric]
      requires_verification_for_files_def
    using required by (auto simp: list_ex_iff)
qed

theorem gate_never_overstates_witness:
  "vr_status (ga_report (assess_verification_gate id (\<lambda>_. []) write_trace [asc ''a.ts''] [] None)) \<in> {Failed, NotRun}"
proof -
  have "\<not> ga_satisfied (assess_verification_gate id (\<lambda>_. []) write_trace [asc ''a.ts''] [] None)" by code_simp
  with gate_never_overstates [of id "\<lambda>_. []" write_trace "[asc ''a.ts'']" "[]" None] show ?thesis by blast
qed

text \<open>
  C12. When the requested command is a conjunction, such as \<open>npm test && npm run build\<close>, its label
  contains the separator the gate splits the observed labels at, so no piece can equal it: the
  gate is unsatisfied on every trace, even one in which exactly that command ran and passed.
\<close>

theorem requested_conjunction_never_satisfied:
  assumes "js_includes (asc '' && '') (ci_label r)"
  shows "\<not> ga_satisfied (assess_verification_gate sha rt events changed known (Some r))"
proof -
  have "ci_label r \<notin> set (js_split (asc '' && '') c)" for c
    using js_split_free [of "asc '' && ''" "ci_label r" c] assms by auto
  then have "list_ex (\<lambda>c. ci_label r \<in> set (js_split (asc '' && '') c)) cs = False" for cs
    by (simp add: list_ex_iff)
  then show ?thesis
    by (simp add: assess_verification_gate_def Let_def)
qed

theorem requested_conjunction_never_satisfied_witness:
  "identify_verification_command id (asc ''npm test && npm run build'') =
     Some \<lparr>ci_label = asc ''npm test && npm run build'', ci_kinds = [KTest, KBuild],
           ci_fingerprint = asc ''npm test && npm run build''\<rparr>
   \<and> \<not> ga_satisfied (assess_verification_gate id (\<lambda>_. []) npm_run [asc ''a.ts''] []
        (Some \<lparr>ci_label = asc ''npm test && npm run build'', ci_kinds = [KTest, KBuild],
           ci_fingerprint = asc ''npm test && npm run build''\<rparr>))"
proof
  show "identify_verification_command id (asc ''npm test && npm run build'') =
     Some \<lparr>ci_label = asc ''npm test && npm run build'', ci_kinds = [KTest, KBuild],
           ci_fingerprint = asc ''npm test && npm run build''\<rparr>" by code_simp
  have "js_includes (asc '' && '') (asc ''npm test && npm run build'')" by code_simp
  then show "\<not> ga_satisfied (assess_verification_gate id (\<lambda>_. []) npm_run [asc ''a.ts''] []
        (Some \<lparr>ci_label = asc ''npm test && npm run build'', ci_kinds = [KTest, KBuild],
           ci_fingerprint = asc ''npm test && npm run build''\<rparr>))"
    by (intro requested_conjunction_never_satisfied) simp
qed

end
