(* ===== verification/Run_Phase.thy ===== *)
theory Run_Phase
  imports Verification_Command
begin

text \<open>
  Run phases (\<open>packages/core/src/runtime/runPhase.ts\<close>): the classification of a tool call and of
  a lifecycle event.
\<close>

datatype run_phase = Inspect | Plan | Act | Verify | Review | Complete

definition run_phase_text :: "run_phase \<Rightarrow> jstr" where
  "run_phase_text p = (case p of Inspect \<Rightarrow> asc ''inspect'' | Plan \<Rightarrow> asc ''plan'' | Act \<Rightarrow> asc ''act''
     | Verify \<Rightarrow> asc ''verify'' | Review \<Rightarrow> asc ''review'' | Complete \<Rightarrow> asc ''complete'')"

definition run_phases :: "run_phase list" where
  "run_phases = [Inspect, Plan, Act, Verify, Review, Complete]"

text \<open>\<open>isRunPhase\<close> on a parsed JSON value.\<close>

definition is_run_phase :: "json \<Rightarrow> bool" where
  "is_run_phase v = (case v of JStr s \<Rightarrow> s \<in> set (map run_phase_text run_phases) | _ \<Rightarrow> False)"

definition mutation_tools :: "jstr list" where
  "mutation_tools = map asc [''Write'', ''Edit'', ''Delete'', ''Move'', ''ApplyPatch'']"

text \<open>\<open>commandFromInput\<close>: only an object that is no array has a command.\<close>

definition command_from_input :: "json \<Rightarrow> jstr option" where
  "command_from_input input = (case input of JObj es \<Rightarrow> as_string (obj_field (asc ''command'') input) | _ \<Rightarrow> None)"

definition call_verification :: "(jstr \<Rightarrow> jstr) \<Rightarrow> tool_call \<Rightarrow> command_identity option" where
  "call_verification sha call =
     (if call_name call = asc ''Bash'' \<or> call_name call = asc ''ProcessStart'' then
        (case command_from_input (call_input call) of
           None \<Rightarrow> None
         | Some c \<Rightarrow> (if c = [] then None else identify_verification_command sha c))
      else None)"

definition classify_tool_call_phase ::
  "(jstr \<Rightarrow> jstr) \<Rightarrow> tool_call \<Rightarrow> tool_metadata option \<Rightarrow> bool \<Rightarrow> run_phase \<times> command_identity option" where
  "classify_tool_call_phase sha call metadata verification_pending =
     (case call_verification sha call of
        Some v \<Rightarrow> (Verify, Some v)
      | None \<Rightarrow>
          (if call_name call = asc ''ProcessPoll'' then (if verification_pending then Verify else Act, None)
           else if call_name call = asc ''TodoWrite'' then (Plan, None)
           else if call_name call \<in> set mutation_tools \<or> call_name call = asc ''Task''
               \<or> (case metadata of Some m \<Rightarrow> tm_risk m = Write \<or> tm_risk m = Execute | None \<Rightarrow> False)
             then (Act, None)
           else (Inspect, None)))"

definition phase_for_lifecycle_event :: "jstr \<Rightarrow> run_phase option" where
  "phase_for_lifecycle_event ty =
     (if ty = asc ''plan.intent'' \<or> ty = asc ''plan.created'' \<or> ty = asc ''approval.required'' then Some Plan
      else if ty = asc ''conductor.execution.started'' then Some Act
      else if ty = asc ''conductor.validation.started'' then Some Verify
      else if ty = asc ''conductor.review.started'' \<or> ty = asc ''conductor.review.completed''
          \<or> ty = asc ''review.completed'' then Some Review
      else None)"

text \<open>
  The classification never reports the inspection phase for a call that may change the
  workspace, and reports a recognised verification only together with the verify phase. Review
  and completion are never the phase of a tool call.
\<close>

theorem tool_phase_sound:
  "(call_name call \<in> set mutation_tools \<or> (metadata = Some m \<and> tm_risk m \<in> {Write, Execute})
      \<longrightarrow> fst (classify_tool_call_phase sha call metadata pending) \<noteq> Inspect)
   \<and> (snd (classify_tool_call_phase sha call metadata pending) = Some v
      \<longrightarrow> fst (classify_tool_call_phase sha call metadata pending) = Verify
        \<and> call_name call \<in> {asc ''Bash'', asc ''ProcessStart''})
   \<and> fst (classify_tool_call_phase sha call metadata pending) \<notin> {Review, Complete}"
  by (auto simp: classify_tool_call_phase_def call_verification_def mutation_tools_def
      split: option.splits if_splits)

theorem tool_phase_sound_witness:
  "fst (classify_tool_call_phase id \<lparr>call_id = [1], call_name = asc ''Edit'', call_input = JNull\<rparr> None False) \<noteq> Inspect"
  using tool_phase_sound [of "\<lparr>call_id = [1], call_name = asc ''Edit'', call_input = JNull\<rparr>" None undefined id False]
  by (simp add: mutation_tools_def)

end
