(* ===== verification/Tool_Retry.thy ===== *)
theory Tool_Retry
  imports Tool_Types Verification_Command
begin

text \<open>
  Classification of failures and the retry policy of a tool call
  (\<open>packages/core/src/errors/runtimeError.ts\<close> and \<open>packages/core/src/tools/toolRetry.ts\<close>).
  A policy in the code is \<open>undefined\<close>, \<open>false\<close> or an object: \<open>Inherit\<close>, \<open>Never\<close> or \<open>Layer\<close>.
  The recovery hints are the Chinese texts of the source as UTF-16 units.
\<close>

section \<open>Classification of runtime errors\<close>

datatype error_source = SModel | STool | SMcp

datatype error_category =
    CCancelled | CPermission | CValidation | CNotFound | CTimeout
  | CAuthentication | CRateLimit | CUnavailable | CProtocol | CUnknown

record classification =
  cl_source :: error_source
  cl_category :: error_category
  cl_retryable :: bool
  cl_recovery :: jstr

definition source_text :: "error_source \<Rightarrow> jstr" where
  "source_text s = (case s of SModel \<Rightarrow> asc ''model'' | STool \<Rightarrow> asc ''tool'' | SMcp \<Rightarrow> asc ''mcp'')"

definition category_text :: "error_category \<Rightarrow> jstr" where
  "category_text c = (case c of
     CCancelled \<Rightarrow> asc ''cancelled'' | CPermission \<Rightarrow> asc ''permission'' | CValidation \<Rightarrow> asc ''validation''
   | CNotFound \<Rightarrow> asc ''not-found'' | CTimeout \<Rightarrow> asc ''timeout'' | CAuthentication \<Rightarrow> asc ''authentication''
   | CRateLimit \<Rightarrow> asc ''rate-limit'' | CUnavailable \<Rightarrow> asc ''unavailable'' | CProtocol \<Rightarrow> asc ''protocol''
   | CUnknown \<Rightarrow> asc ''unknown'')"

definition recovery_cancelled :: jstr where "recovery_cancelled = [35813, 25805, 20316, 24050, 21462, 28040, 65307, 30830, 35748, 20173, 38656, 25191, 34892, 21518, 37325, 26032, 21457, 36215, 12290]"
definition recovery_permission :: jstr where "recovery_permission = [26816, 26597, 26435, 38480, 27169, 24335, 65307, 38656, 35201, 26102, 30001, 29992, 25143, 26126, 30830, 25209, 20934, 35813, 35843, 29992, 12290]"
definition recovery_validation :: jstr where "recovery_validation = [20462, 27491, 35843, 29992, 21442, 25968, 21518, 20877, 35797, 65292, 19981, 35201, 21407, 26679, 37325, 25918, 12290]"
definition recovery_tool_missing :: jstr where "recovery_tool_missing = [21047, 26032, 21487, 29992, 24037, 20855, 21015, 34920, 24182, 25913, 29992, 24403, 21069, 23384, 22312, 30340, 24037, 20855, 12290]"
definition recovery_model_missing :: jstr where "recovery_model_missing = [26816, 26597, 27169, 22411, 21517, 31216, 12289, 80, 114, 111, 118, 105, 100, 101, 114, 32, 21644, 32, 98, 97, 115, 101, 32, 85, 82, 76, 32, 37197, 32622, 12290]"
definition recovery_timeout :: jstr where "recovery_timeout = [30830, 35748, 22806, 37096, 26381, 21153, 25110, 36827, 31243, 29366, 24577, 65292, 36864, 36991, 21518, 26377, 38480, 37325, 35797, 12290]"
definition recovery_authentication :: jstr where "recovery_authentication = [26816, 26597, 20973, 25454, 12289, 98, 97, 115, 101, 32, 85, 82, 76, 32, 21644, 26381, 21153, 26435, 38480, 12290]"
definition recovery_rate_limit :: jstr where "recovery_rate_limit = [25353, 26381, 21153, 31471, 24314, 35758, 36864, 36991, 21518, 26377, 38480, 37325, 35797, 12290]"
definition recovery_unavailable :: jstr where "recovery_unavailable = [26816, 26597, 26381, 21153, 36827, 31243, 25110, 32593, 32476, 36830, 36890, 24615, 65292, 24674, 22797, 21518, 26377, 38480, 37325, 35797, 12290]"
definition recovery_protocol :: jstr where "recovery_protocol = [26816, 26597, 32, 77, 67, 80, 32, 26381, 21153, 29256, 26412, 12289, 20256, 36755, 21644, 36820, 22238, 32467, 26500, 21518, 20877, 35797, 12290]"
definition recovery_unknown :: jstr where "recovery_unknown = [20445, 30041, 21407, 22987, 38169, 35823, 35777, 25454, 65292, 35843, 25972, 31574, 30053, 25110, 37197, 32622, 21518, 20877, 35797, 12290]"

definition status_is :: "rat \<Rightarrow> js_error \<Rightarrow> bool" where
  "status_is n e \<longleftrightarrow> err_status e = Some (Num n)"

definition status_at_least :: "rat \<Rightarrow> js_error \<Rightarrow> bool" where
  "status_at_least n e \<longleftrightarrow> (case err_status e of Some (Num r) \<Rightarrow> n \<le> r | Some PosInf \<Rightarrow> True | _ \<Rightarrow> False)"

definition classify_runtime_error :: "js_error \<Rightarrow> error_source \<Rightarrow> classification" where
  "classify_runtime_error e src =
     (let name = (if is_error e then err_name e else []);
          says = (\<lambda>t. js_includes (asc t) (js_lower (err_message e)));
          res = (\<lambda>c r t. \<lparr>cl_source = src, cl_category = c, cl_retryable = r, cl_recovery = t\<rparr>)
      in if name = asc ''AbortError'' \<or> says ''aborted'' \<or> says ''cancelled''
           then res CCancelled False recovery_cancelled
         else if name = asc ''ToolPermissionError'' \<or> says ''requires approval'' \<or> says ''denied by policy''
           then res CPermission False recovery_permission
         else if name = asc ''ToolValidationError'' \<or> says ''invalid input''
           then res CValidation False recovery_validation
         else if name = asc ''ToolNotFoundError'' \<or> src \<noteq> SModel \<and> says ''not found''
           then res CNotFound False recovery_tool_missing
         else if src = SModel \<and> (status_is 404 e \<or> says ''not found'')
           then res CNotFound False recovery_model_missing
         else if name = asc ''ToolTimeoutError'' \<or> status_is 408 e \<or> says ''timed out'' \<or> says ''timeout''
           then res CTimeout True recovery_timeout
         else if status_is 401 e \<or> status_is 403 e \<or> says ''api key'' \<or> says ''unauthorized''
           then res CAuthentication False recovery_authentication
         else if status_is 429 e \<or> says ''rate limit''
           then res CRateLimit True recovery_rate_limit
         else if status_at_least 500 e \<or> says ''not running'' \<or> says ''closed''
           then res CUnavailable True recovery_unavailable
         else if src = SMcp \<or> says ''protocol'' \<or> says ''json-rpc''
           then res CProtocol False recovery_protocol
         else res CUnknown False recovery_unknown)"

definition classification_json :: "classification \<Rightarrow> (jstr \<times> json) list" where
  "classification_json c =
     [(asc ''source'', JStr (source_text (cl_source c))), (asc ''category'', JStr (category_text (cl_category c))),
      (asc ''retryable'', JBool (cl_retryable c)), (asc ''recovery'', JStr (cl_recovery c))]"

section \<open>Retry policies\<close>

record retry_layer =
  lay_max_attempts :: jnum
  lay_backoff :: "rat option"
  lay_multiplier :: "rat option"
  lay_retry_on :: "(js_error \<Rightarrow> nat \<Rightarrow> bool) option"

datatype retry_setting = is_inherit: Inherit | is_never: Never | Layer retry_layer

record retry_policy =
  max_attempts :: jnum
  backoff_ms :: rat
  backoff_multiplier :: rat
  retry_on :: "js_error \<Rightarrow> nat \<Rightarrow> bool"

record attempt_failure =
  failed_attempt :: nat
  failure_message :: jstr

definition is_error_named :: "js_error \<Rightarrow> string \<Rightarrow> bool" where
  "is_error_named e n \<longleftrightarrow> is_error e \<and> err_name e = asc n"

definition retryable_errno :: "jstr list" where
  "retryable_errno = map asc [''EAGAIN'', ''EBUSY'', ''ETIMEDOUT'', ''ECONNRESET'', ''ECONNREFUSED'',
     ''EPIPE'', ''EIO'', ''ENFILE'', ''EMFILE'', ''EAI_AGAIN'']"

definition non_retryable_errno :: "jstr list" where
  "non_retryable_errno = map asc [''ENOENT'', ''ENOTDIR'', ''EISDIR'', ''EEXIST'', ''EPERM'', ''EACCES'',
     ''EROFS'', ''EINVAL'', ''ENAMETOOLONG'', ''ELOOP'']"

definition is_retryable_tool_error :: "js_error \<Rightarrow> bool" where
  "is_retryable_tool_error e =
     (if is_error_named e ''ToolValidationError'' \<or> is_error_named e ''ToolPermissionError''
         \<or> is_error_named e ''ToolNotFoundError'' then False
      else if is_boundary e then False
      else if is_error_named e ''ToolTimeoutError'' then True
      else (case err_code e of
              Some c \<Rightarrow> if c \<in> set non_retryable_errno then False
                        else if c \<in> set retryable_errno then True
                        else is_error e
            | None \<Rightarrow> is_error e))"

definition default_tool_retry_policy :: retry_policy where
  "default_tool_retry_policy =
     \<lparr>max_attempts = Num 2, backoff_ms = 200, backoff_multiplier = 2, retry_on = (\<lambda>e n. is_retryable_tool_error e)\<rparr>"

definition timeout_only_retry_policy :: retry_layer where
  "timeout_only_retry_policy =
     \<lparr>lay_max_attempts = Num 2, lay_backoff = Some 200, lay_multiplier = Some 2,
      lay_retry_on = Some (\<lambda>e n. is_error_named e ''ToolTimeoutError'')\<rparr>"

definition no_retry_policy :: retry_policy where
  "no_retry_policy = \<lparr>max_attempts = Num 1, backoff_ms = 0, backoff_multiplier = 1, retry_on = (\<lambda>e n. False)\<rparr>"

text \<open>One layer over the policy resolved so far; the absent fields are inherited.\<close>

definition apply_layer :: "retry_layer \<Rightarrow> retry_policy \<Rightarrow> retry_policy" where
  "apply_layer l p =
     \<lparr>max_attempts = jnum_max 1 (jnum_floor (lay_max_attempts l)),
      backoff_ms = (case lay_backoff l of Some b \<Rightarrow> b | None \<Rightarrow> backoff_ms p),
      backoff_multiplier = (case lay_multiplier l of Some b \<Rightarrow> b | None \<Rightarrow> backoff_multiplier p),
      retry_on = (case lay_retry_on l of Some f \<Rightarrow> f | None \<Rightarrow> retry_on p)\<rparr>"

definition layers_of :: "retry_setting \<Rightarrow> retry_layer list" where
  "layers_of s = (case s of Layer l \<Rightarrow> [l] | _ \<Rightarrow> [])"

definition resolve_tool_retry_policy :: "retry_setting \<Rightarrow> retry_setting \<Rightarrow> retry_setting \<Rightarrow> retry_policy" where
  "resolve_tool_retry_policy call_retry definition_retry gateway_retry =
     (if is_never call_retry then no_retry_policy
      else if is_never definition_retry then no_retry_policy
      else if is_never gateway_retry \<and> is_inherit definition_retry then no_retry_policy
      else foldl (\<lambda>p l. apply_layer l p) default_tool_retry_policy
             (layers_of gateway_retry @ layers_of definition_retry @ layers_of call_retry))"

text \<open>The delay is a natural number: it is rounded and at least 0.\<close>

definition retry_backoff_ms :: "retry_policy \<Rightarrow> nat \<Rightarrow> nat" where
  "retry_backoff_ms p n = nat (max 0 (js_round (backoff_ms p * backoff_multiplier p ^ (n - 1))))"

section \<open>The observation of a failed call\<close>

definition clip_summary :: "jstr \<Rightarrow> jstr" where
  "clip_summary t = (if length t > 240 then take 240 t @ asc ''...'' else t)"

definition failure_json :: "attempt_failure \<Rightarrow> json" where
  "failure_json f = JObj [(asc ''attempt'', JNum (Num (of_nat (failed_attempt f)))), (asc ''message'', JStr (failure_message f))]"

record failure_observation =
  fo_content :: jstr
  fo_summary :: jstr
  fo_data :: "(jstr \<times> json) list"

definition format_tool_failure_observation :: "jstr \<Rightarrow> attempt_failure list \<Rightarrow> jnum \<Rightarrow> failure_observation" where
  "format_tool_failure_observation tool failures max_att =
     (let attempts = length failures;
          last_message = (if failures = [] then asc ''unknown error'' else failure_message (last failures));
          retried = attempts > 1;
          data = [(asc ''attempts'', JNum (Num (of_nat attempts))), (asc ''maxAttempts'', JNum max_att),
                  (asc ''retried'', JBool retried), (asc ''errors'', JArr (map failure_json failures))]
      in if \<not> retried
         then \<lparr>fo_content = asc ''Tool '' @ tool @ asc '' failed: '' @ last_message,
               fo_summary = clip_summary (asc ''failed: '' @ last_message), fo_data = data\<rparr>
         else \<lparr>fo_content = js_join [10]
                 [asc ''Tool '' @ tool @ asc '' failed after '' @ dec attempts @ asc '' attempts: '' @ last_message,
                  asc ''Last error: '' @ last_message,
                  asc ''Attempts: '' @ js_join (asc ''; '')
                    (map (\<lambda>f. dec (failed_attempt f) @ asc ''='' @ failure_message f) failures)],
               fo_summary = clip_summary (asc ''failed after '' @ dec attempts @ asc '' attempts: '' @ last_message),
               fo_data = data\<rparr>)"

section \<open>Facts\<close>

lemma if_prop: "P a \<Longrightarrow> P b \<Longrightarrow> P (if c then a else b)"
  by simp

definition retryable_categories :: "error_source \<Rightarrow> classification \<Rightarrow> bool" where
  "retryable_categories src r \<longleftrightarrow> cl_source r = src \<and>
     (cl_retryable r \<longleftrightarrow> cl_category r = CTimeout \<or> cl_category r = CRateLimit \<or> cl_category r = CUnavailable)"

lemma classification_retryable: "retryable_categories src (classify_runtime_error e src)"
  unfolding classify_runtime_error_def Let_def
  by (intro if_prop [where P = "retryable_categories src"]) (simp_all add: retryable_categories_def)

lemma abort_error_cancelled:
  "is_error e \<Longrightarrow> err_name e = asc ''AbortError'' \<Longrightarrow>
   classify_runtime_error e src =
     \<lparr>cl_source = src, cl_category = CCancelled, cl_retryable = False, cl_recovery = recovery_cancelled\<rparr>"
  unfolding classify_runtime_error_def Let_def by (simp only: simp_thms if_True)

lemma length_clip_summary: "length (clip_summary t) \<le> 243"
  by (simp add: clip_summary_def)

text \<open>The innermost setting that says something about a field decides it.\<close>

definition first_some :: "'a option list \<Rightarrow> 'a \<Rightarrow> 'a" where
  "first_some xs d = (case filter (\<lambda>x. x \<noteq> None) xs of Some x # _ \<Rightarrow> x | _ \<Rightarrow> d)"

definition setting_field :: "(retry_layer \<Rightarrow> 'a option) \<Rightarrow> retry_setting \<Rightarrow> 'a option" where
  "setting_field f s = (case s of Layer l \<Rightarrow> f l | _ \<Rightarrow> None)"

definition attempts_ok :: "retry_layer list \<Rightarrow> retry_policy \<Rightarrow> bool" where
  "attempts_ok ls p \<longleftrightarrow> (case max_attempts p of Num r \<Rightarrow> 1 \<le> r | PosInf \<Rightarrow> True
     | NaN \<Rightarrow> NaN \<in> set (map lay_max_attempts ls) | NegInf \<Rightarrow> False)"

lemma apply_layer_attempts_ok: "attempts_ok (l # ls) (apply_layer l p)"
  by (cases "lay_max_attempts l") (auto simp: attempts_ok_def apply_layer_def jnum_max_def jnum_floor_def)

lemma layers_attempts_ok: "attempts_ok ls (foldl (\<lambda>p l. apply_layer l p) default_tool_retry_policy ls)"
proof (induction ls rule: rev_induct)
  case Nil
  then show ?case by (simp add: attempts_ok_def default_tool_retry_policy_def)
next
  case (snoc l ls)
  have "attempts_ok (l # []) (apply_layer l (foldl (\<lambda>p l. apply_layer l p) default_tool_retry_policy ls))"
    by (rule apply_layer_attempts_ok)
  then show ?case by (auto simp: attempts_ok_def split: jnum.splits)
qed

lemma resolved_attempts_ok:
  "attempts_ok (layers_of g @ layers_of d @ layers_of c) (resolve_tool_retry_policy c d g)"
proof -
  have "attempts_ok ls no_retry_policy" for ls
    by (simp add: attempts_ok_def no_retry_policy_def)
  then show ?thesis
    unfolding resolve_tool_retry_policy_def by (simp only: layers_attempts_ok if_split) simp
qed

lemma first_some_simps [simp]:
  "first_some [] x = x" "first_some (None # ys) x = first_some ys x" "first_some (Some y # ys) x = y"
  by (simp_all add: first_some_def)

lemma setting_field_simps [simp]:
  "setting_field f Inherit = None" "setting_field f Never = None" "setting_field f (Layer l) = f l"
  by (simp_all add: setting_field_def)

lemma apply_layer_fields:
  "max_attempts (apply_layer l p) = jnum_max 1 (jnum_floor (lay_max_attempts l))"
  "backoff_ms (apply_layer l p) = first_some [lay_backoff l] (backoff_ms p)"
  "backoff_multiplier (apply_layer l p) = first_some [lay_multiplier l] (backoff_multiplier p)"
  "retry_on (apply_layer l p) = first_some [lay_retry_on l] (retry_on p)"
  by (auto simp: apply_layer_def split: option.split)

lemma first_some_append: "first_some (xs @ ys) d = first_some xs (first_some ys d)"
  by (induction xs) (auto simp: first_some_def split: list.splits option.splits)

lemma first_some_Cons: "first_some (x # ys) d = first_some [x] (first_some ys d)"
  using first_some_append [of "[x]"] by simp

lemma jnum_two: "jnum_max 1 (jnum_floor (Num 2)) = Num 2"
  by (simp add: jnum_max_def jnum_floor_def)

lemma resolved_layers:
  assumes "c \<noteq> Never" and "d \<noteq> Never" and "g \<noteq> Never \<or> d \<noteq> Inherit"
  shows "resolve_tool_retry_policy c d g =
    foldl (\<lambda>p l. apply_layer l p) default_tool_retry_policy (layers_of g @ layers_of d @ layers_of c)"
  using assms by (auto simp: resolve_tool_retry_policy_def is_never_def is_inherit_def)

lemma fold_layers_of:
  fixes s :: retry_setting
  defines "f \<equiv> foldl (\<lambda>p l. apply_layer l p)"
  shows "backoff_ms (f p (layers_of s)) = first_some [setting_field lay_backoff s] (backoff_ms p)"
    and "backoff_multiplier (f p (layers_of s)) = first_some [setting_field lay_multiplier s] (backoff_multiplier p)"
    and "retry_on (f p (layers_of s)) = first_some [setting_field lay_retry_on s] (retry_on p)"
    and "max_attempts p = jnum_max 1 (jnum_floor m) \<Longrightarrow>
      max_attempts (f p (layers_of s)) = jnum_max 1 (jnum_floor (first_some [setting_field (\<lambda>l. Some (lay_max_attempts l)) s] m))"
  by (cases s; simp add: f_def layers_of_def apply_layer_fields)+


definition sample_layer :: retry_layer where
  "sample_layer = \<lparr>lay_max_attempts = Num (7 / 2), lay_backoff = None, lay_multiplier = None, lay_retry_on = None\<rparr>"

lemma sample_floor: "\<lfloor>7 / 2 :: rat\<rfloor> = 3"
  by (rule floor_unique) simp_all


end
