(* ===== verification/Tool_Gateway.thy ===== *)
theory Tool_Gateway
  imports Tool_Retry Permission_Modes Trace_Events
begin

text \<open>
  The tool gateway (\<open>packages/core/src/tools/toolGateway.ts\<close>): the registry of tools, the
  inspection of a call and the execution of a call with approval, retries, timeout, cancellation
  and trace events.

  What happens outside the program during a call is an argument, the \<open>gateway_world\<close>: for every
  attempt, when and how the handler settles and when the abort signal fires (times in
  milliseconds from the start of the attempt; at equal times the handler wins over the signal
  and the signal over the timer); which appends to the trace store fail; and the readings of the
  clock. The random event id and the run id of an event are left out of the model, and a
  timeout is a natural number of milliseconds.
\<close>

section \<open>Tools and the registry\<close>

record handler_result =
  hr_failed :: "bool option" \<comment> \<open>the optional \<open>status\<close>: \<open>Some True\<close> is \<open>'failed'\<close>\<close>
  hr_content :: jstr
  hr_summary :: "jstr option"
  hr_data :: json

text \<open>\<open>inputSchema.parse\<close> throws a \<open>ZodError\<close>, throws something else, or returns the parsed input.\<close>

datatype parse_failure = ZodFailure | OtherFailure js_error

record tool_definition = tool_metadata +
  td_parse :: "json \<Rightarrow> parse_failure + json"
  td_resolve_risk :: "(json \<Rightarrow> tool_risk) option"
  td_redact :: "(json \<Rightarrow> json) option"
  td_timeout :: "nat option"
  td_retry :: retry_setting
  td_enabled :: "(jstr option \<Rightarrow> bool) option"
  td_summarize :: "(handler_result \<Rightarrow> jstr) option"

record tool_result =
  tr_failed :: bool
  tr_content :: jstr
  tr_summary :: jstr
  tr_data :: json

record gateway =
  gw_tools :: "(jstr, tool_definition) omap"
  gw_policy :: approval_policy
  gw_scope :: access_scope
  gw_store :: bool \<comment> \<open>a trace store is configured\<close>
  gw_default_timeout :: "nat option"
  gw_max_summary :: nat
  gw_max_preview :: nat
  gw_default_retry :: retry_setting
  gw_extras :: "(jstr \<times> json) list"

definition tool_not_found :: "jstr \<Rightarrow> js_error" where
  "tool_not_found n = named_error ''ToolNotFoundError'' (asc ''Tool not found: '' @ n)"

definition tool_permission_error :: "jstr \<Rightarrow> tool_risk \<Rightarrow> jstr option \<Rightarrow> js_error" where
  "tool_permission_error n r reason = named_error ''ToolPermissionError''
     (case reason of
        Some t \<Rightarrow> if t \<noteq> [] then asc ''Tool blocked: '' @ n @ asc '' ('' @ risk_text r @ asc '') - '' @ t
                  else asc ''Tool requires approval: '' @ n @ asc '' ('' @ risk_text r @ asc '')''
      | None \<Rightarrow> asc ''Tool requires approval: '' @ n @ asc '' ('' @ risk_text r @ asc '')'')"

definition tool_timeout_error :: "jstr \<Rightarrow> nat \<Rightarrow> js_error" where
  "tool_timeout_error n ms = named_error ''ToolTimeoutError'' (asc ''Tool timed out: '' @ n @ asc '' after '' @ dec ms @ asc ''ms'')"

definition tool_validation_error :: "jstr \<Rightarrow> js_error" where
  "tool_validation_error n = named_error ''ToolValidationError'' (asc ''Invalid input for tool: '' @ n)"

definition parse_input :: "tool_definition \<Rightarrow> json \<Rightarrow> js_error + json" where
  "parse_input d i = (case td_parse d i of
     Inl ZodFailure \<Rightarrow> Inl (tool_validation_error (tm_name d))
   | Inl (OtherFailure e) \<Rightarrow> Inl e
   | Inr v \<Rightarrow> Inr v)"

definition default_approval_policy :: approval_policy where
  "default_approval_policy t i =
     (if tm_risk t = Read then \<lparr>action = Allow, decision_reason = None\<rparr>
      else \<lparr>action = Ask, decision_reason = Some (risk_text (tm_risk t) @ asc '' tool requires approval'')\<rparr>)"

definition to_metadata :: "tool_definition \<Rightarrow> tool_risk \<Rightarrow> tool_metadata" where
  "to_metadata d r = \<lparr>tm_name = tm_name d, tm_description = tm_description d, tm_risk = r,
     tm_category = tm_category d, tm_parameters = tm_parameters d\<rparr>"

definition already_registered :: "jstr \<Rightarrow> js_error" where
  "already_registered n = plain_error (asc ''Tool already registered: '' @ n)"

definition set_approval_policy :: "approval_policy \<Rightarrow> gateway \<Rightarrow> gateway" where
  "set_approval_policy p g = g\<lparr>gw_policy := p\<rparr>"

definition set_access_scope :: "access_scope \<Rightarrow> gateway \<Rightarrow> gateway" where
  "set_access_scope s g = g\<lparr>gw_scope := s\<rparr>"

definition gateway_register :: "tool_definition \<Rightarrow> gateway \<Rightarrow> (gateway, js_error, unit) outcome" where
  "gateway_register d g =
     (if om_has (gw_tools g) (tm_name d) then (g, Inl (already_registered (tm_name d)))
      else (g\<lparr>gw_tools := om_set (tm_name d) d (gw_tools g)\<rparr>, Inr ()))"

text \<open>The validation loop of \<open>replaceCategory\<close>: the first error it throws, given the names seen.\<close>

fun replacement_error :: "jstr \<Rightarrow> (jstr, tool_definition) omap \<Rightarrow> jstr list \<Rightarrow> tool_definition list \<Rightarrow> js_error option" where
  "replacement_error p m seen [] = None"
| "replacement_error p m seen (d # ds) =
     (if tm_name d \<in> set seen then Some (plain_error (asc ''Duplicate replacement tool: '' @ tm_name d))
      else (case om_get m (tm_name d) of
              Some ex \<Rightarrow> if in_category p (tm_category ex) then replacement_error p m (tm_name d # seen) ds
                         else Some (already_registered (tm_name d))
            | None \<Rightarrow> replacement_error p m (tm_name d # seen) ds))"

definition by_name :: "tool_definition list \<Rightarrow> (jstr \<times> tool_definition) list" where
  "by_name ds = map (\<lambda>d. (tm_name d, d)) ds"

definition replace_category :: "jstr \<Rightarrow> tool_definition list \<Rightarrow> gateway \<Rightarrow> (gateway, js_error, unit) outcome" where
  "replace_category p ds g =
     (case replacement_error p (gw_tools g) [] ds of
        Some e \<Rightarrow> (g, Inl e)
      | None \<Rightarrow>
        (let kept = filter (\<lambda>kd. \<not> in_category p (tm_category (snd kd))) (gw_tools g)
         in (g\<lparr>gw_tools := om_put_all (by_name ds) kept\<rparr>, Inr ())))"

definition definitions_by_category :: "jstr \<Rightarrow> gateway \<Rightarrow> tool_definition list" where
  "definitions_by_category p g = filter (\<lambda>d. in_category p (tm_category d)) (map snd (gw_tools g))"

definition list_tools :: "jstr option \<Rightarrow> gateway \<Rightarrow> tool_metadata list" where
  "list_tools mode g =
     map (\<lambda>d. to_metadata d (tm_risk d))
       (filter (\<lambda>d. case td_enabled d of Some f \<Rightarrow> f mode | None \<Rightarrow> True) (map snd (gw_tools g)))"

definition resolved_risk :: "tool_definition \<Rightarrow> json \<Rightarrow> tool_risk" where
  "resolved_risk d i = (case td_resolve_risk d of Some f \<Rightarrow> f i | None \<Rightarrow> tm_risk d)"

definition trace_input :: "tool_definition \<Rightarrow> json \<Rightarrow> json" where
  "trace_input d i = (case td_redact d of Some f \<Rightarrow> f i | None \<Rightarrow> i)"

definition format_input_for_trace :: "gateway \<Rightarrow> jstr \<Rightarrow> json \<Rightarrow> js_error + json" where
  "format_input_for_trace g n i = (case om_get (gw_tools g) n of
     None \<Rightarrow> Inl (tool_not_found n)
   | Some d \<Rightarrow> (case parse_input d i of Inl e \<Rightarrow> Inl e | Inr v \<Rightarrow> Inr (trace_input d v)))"

record call_inspection =
  in_tool :: tool_metadata
  in_approval :: approval_decision

definition inspect_call :: "gateway \<Rightarrow> jstr \<Rightarrow> json \<Rightarrow> js_error + call_inspection" where
  "inspect_call g n i = (case om_get (gw_tools g) n of
     None \<Rightarrow> Inl (tool_not_found n)
   | Some d \<Rightarrow> (case parse_input d i of
        Inl e \<Rightarrow> Inl e
      | Inr v \<Rightarrow> (let t = to_metadata d (resolved_risk d v)
                   in Inr \<lparr>in_tool = t, in_approval = gw_policy g t v\<rparr>)))"

section \<open>One attempt\<close>

text \<open>
  The environment of one attempt: when the handler settles and with what, when the abort signal
  fires during the execution, and whether it fires between this attempt and the next.
\<close>

record attempt_env =
  settles :: "(nat \<times> (js_error + handler_result)) option"
  aborts_at :: "(nat \<times> abort_reason_value) option"
  gap_abort :: abort_state

record gateway_world =
  attempt_of :: "nat \<Rightarrow> attempt_env"
  append_fails :: "nat \<Rightarrow> js_error option" \<comment> \<open>by the number of appends tried before\<close>
  elapsed :: "nat \<Rightarrow> jnum" \<comment> \<open>\<open>now - startedAt\<close> when that event is built\<close>
  stamp :: "nat \<Rightarrow> jstr"
  abort_on_entry :: abort_state
  abort_on_start :: abort_state \<comment> \<open>when the first attempt begins\<close>

record call_log =
  logged :: "trace_event list"
  appends :: nat
  runs :: nat \<comment> \<open>handler executions\<close>

record gateway_call =
  gc_name :: jstr
  gc_input :: json
  gc_call_id :: "jstr option"
  gc_iteration :: "nat option"
  gc_approved :: bool
  gc_return_errors :: bool
  gc_retry :: retry_setting

datatype racer = Settled "js_error + handler_result" | SignalFired abort_reason_value | TimerFired nat

text \<open>\<open>Promise.race\<close>: the earliest of the racers, the first one listed at equal times.\<close>

fun earliest :: "(nat \<times> 'a) list \<Rightarrow> (nat \<times> 'a) option" where
  "earliest [] = None"
| "earliest ((t, x) # rs) = (case earliest rs of
     None \<Rightarrow> Some (t, x)
   | Some (u, y) \<Rightarrow> if t \<le> u then Some (t, x) else Some (u, y))"

definition opt_list :: "'a option \<Rightarrow> 'a list" where
  "opt_list x = (case x of None \<Rightarrow> [] | Some y \<Rightarrow> [y])"

definition racers :: "nat option \<Rightarrow> attempt_env \<Rightarrow> (nat \<times> racer) list" where
  "racers timeout env =
     map (\<lambda>(t, r). (t, Settled r)) (opt_list (settles env))
     @ map (\<lambda>(t, a). (t, SignalFired a)) (opt_list (aborts_at env))
     @ map (\<lambda>ms. (ms, TimerFired ms)) (opt_list timeout)"

definition operation_aborted_text :: jstr where
  "operation_aborted_text = asc ''Operation aborted''"

text \<open>
  \<open>executeWithTimeout\<close> on a signal that is not yet aborted: \<open>None\<close> when nothing ever settles;
  otherwise the outcome with the state of the signal when it is there.
\<close>

definition execute_with_timeout ::
  "jstr \<Rightarrow> nat option \<Rightarrow> attempt_env \<Rightarrow> (abort_state \<times> (js_error + handler_result)) option" where
  "execute_with_timeout name timeout env =
     (case earliest (racers timeout env) of
        None \<Rightarrow> None
      | Some (t, r) \<Rightarrow>
        Some (case aborts_at env of Some (u, a) \<Rightarrow> if u \<le> t then Some a else None | None \<Rightarrow> None,
              case r of
                Settled out \<Rightarrow> out
              | SignalFired a \<Rightarrow> Inl (abort_reason (Some a) operation_aborted_text)
              | TimerFired ms \<Rightarrow> Inl (tool_timeout_error name ms)))"

definition summarize_result :: "tool_definition \<Rightarrow> handler_result \<Rightarrow> nat \<Rightarrow> jstr" where
  "summarize_result d r max_chars =
     (let s = (case hr_summary r of Some s \<Rightarrow> s
               | None \<Rightarrow> (case td_summarize d of Some f \<Rightarrow> f r | None \<Rightarrow> hr_content r))
      in if length s > max_chars then take max_chars s @ asc ''...'' else s)"

text \<open>\<open>{ ...a, ...b }\<close>.\<close>

definition spread :: "(jstr \<times> json) list \<Rightarrow> (jstr \<times> json) list \<Rightarrow> (jstr \<times> json) list" where
  "spread a b = om_put_all b (om_put_all a [])"

definition jfields :: "(string \<times> json) list \<Rightarrow> (jstr \<times> json) list" where
  "jfields es = map (\<lambda>(k, v). (asc k, v)) es"

definition jnat :: "nat \<Rightarrow> json" where
  "jnat n = JNum (Num (of_nat n))"

definition opt_str :: "jstr option \<Rightarrow> json" where
  "opt_str s = (case s of Some t \<Rightarrow> JStr t | None \<Rightarrow> JUndefined)"

definition record_or_value :: "json \<Rightarrow> (jstr \<times> json) list" where
  "record_or_value v = (case as_record v of Some es \<Rightarrow> es | None \<Rightarrow> jfields [(''value'', v)])"

definition call_meta :: "gateway_call \<Rightarrow> tool_risk \<Rightarrow> (jstr \<times> json) list" where
  "call_meta c r =
     jfields ([(''toolName'', JStr (gc_name c)), (''risk'', JStr (risk_text r))]
       @ (case gc_call_id c of Some i \<Rightarrow> if i \<noteq> [] then [(''callId'', JStr i)] else [] | None \<Rightarrow> [])
       @ (case gc_iteration c of Some n \<Rightarrow> [(''iteration'', jnat n)] | None \<Rightarrow> []))"

definition error_source_of :: "tool_definition \<Rightarrow> error_source" where
  "error_source_of d = (if in_category (asc ''mcp:'') (tm_category d) then SMcp else STool)"

definition gateway_record ::
  "gateway \<Rightarrow> gateway_world \<Rightarrow> string \<Rightarrow> (jstr \<times> json) list \<Rightarrow> call_log \<Rightarrow> (call_log, js_error, unit) outcome" where
  "gateway_record g w ty payload l =
     (if \<not> gw_store g then (l, Inr ())
      else let n = appends l;
               e = \<lparr>ev_type = asc ty, ev_payload = JObj (spread (gw_extras g) payload), ev_timestamp = stamp w n\<rparr>
           in case append_fails w n of
                Some err \<Rightarrow> (l\<lparr>appends := Suc n\<rparr>, Inl err)
              | None \<Rightarrow> (l\<lparr>logged := logged l @ [e], appends := Suc n\<rparr>, Inr ()))"

text \<open>The result and the trace payload of an attempt whose handler returned.\<close>

definition attempt_meta :: "nat \<Rightarrow> jnum \<Rightarrow> (jstr \<times> json) list" where
  "attempt_meta n max_att = jfields [(''attempts'', jnat n), (''maxAttempts'', JNum max_att), (''retried'', JBool (n > 1))]"

definition recovery_line :: "jstr \<Rightarrow> jstr \<Rightarrow> jstr" where
  "recovery_line content recovery = content @ [10, 10] @ asc ''Recovery: '' @ recovery"

definition structured_failure :: "tool_definition \<Rightarrow> tool_result \<Rightarrow> classification option" where
  "structured_failure d r =
     (if tr_failed r then Some (classify_runtime_error (plain_error (tr_summary r)) (error_source_of d)) else None)"

definition build_result :: "gateway \<Rightarrow> tool_definition \<Rightarrow> nat \<Rightarrow> jnum \<Rightarrow> handler_result \<Rightarrow> tool_result" where
  "build_result g d n max_att raw =
     (let data = (if hr_data raw \<noteq> JUndefined then spread (record_or_value (hr_data raw)) (attempt_meta n max_att)
                  else attempt_meta n max_att);
          r = \<lparr>tr_failed = (hr_failed raw = Some True), tr_content = hr_content raw,
               tr_summary = summarize_result d raw (gw_max_summary g), tr_data = JObj data\<rparr>
      in case structured_failure d r of
           None \<Rightarrow> r
         | Some c \<Rightarrow> r\<lparr>tr_content := recovery_line (tr_content r) (cl_recovery c),
                       tr_data := JObj (spread data (jfields [(''error'', JObj (classification_json c))]))\<rparr>)"

definition result_payload ::
  "gateway \<Rightarrow> tool_definition \<Rightarrow> (jstr \<times> json) list \<Rightarrow> jnum \<Rightarrow> nat \<Rightarrow> jnum \<Rightarrow> tool_result \<Rightarrow> (jstr \<times> json) list" where
  "result_payload g d meta dur n max_att r =
     spread meta
       (jfields [(''status'', JStr (if tr_failed r then asc ''failed'' else asc ''completed'')),
                (''contentPreview'', JStr (take (gw_max_preview g) (tr_content r))),
                (''summary'', JStr (tr_summary r)), (''durationMs'', JNum dur)]
        @ attempt_meta n max_att @ jfields [(''data'', tr_data r)]
        @ (case structured_failure d r of Some c \<Rightarrow> classification_json c | None \<Rightarrow> []))"

section \<open>The retry loop and the call\<close>

text \<open>What is fixed during the attempts of one call.\<close>

record call_context =
  cc_gateway :: gateway
  cc_world :: gateway_world
  cc_tool :: tool_definition
  cc_call :: gateway_call
  cc_meta :: "(jstr \<times> json) list"
  cc_policy :: retry_policy

definition nat_le_jnum :: "nat \<Rightarrow> jnum \<Rightarrow> bool" where
  "nat_le_jnum n x = (case x of Num r \<Rightarrow> of_nat n \<le> r | PosInf \<Rightarrow> True | _ \<Rightarrow> False)"

definition nat_less_jnum :: "nat \<Rightarrow> jnum \<Rightarrow> bool" where
  "nat_less_jnum n x = (case x of Num r \<Rightarrow> of_nat n < r | PosInf \<Rightarrow> True | _ \<Rightarrow> False)"

abbreviation cc_record :: "call_context \<Rightarrow> string \<Rightarrow> (jstr \<times> json) list \<Rightarrow> call_log \<Rightarrow> (call_log, js_error, unit) outcome" where
  "cc_record x \<equiv> gateway_record (cc_gateway x) (cc_world x)"

abbreviation cc_max :: "call_context \<Rightarrow> jnum" where
  "cc_max x \<equiv> max_attempts (cc_policy x)"

definition cc_duration :: "call_context \<Rightarrow> call_log \<Rightarrow> jnum" where
  "cc_duration x l = elapsed (cc_world x) (appends l)"

text \<open>
  The \<open>try\<close> block of attempt \<open>n\<close>, entered with the signal in state \<open>sig\<close>: the log, the signal
  state when the block is left, and the error it threw or the result it returned.
\<close>

definition attempt_try ::
  "call_context \<Rightarrow> nat \<Rightarrow> abort_state \<Rightarrow> call_log \<Rightarrow> (call_log \<times> abort_state \<times> (js_error + tool_result)) option" where
  "attempt_try x n sig l =
     (case throw_if_aborted sig of
        Inl e \<Rightarrow> Some (l, sig, Inl e)
      | Inr _ \<Rightarrow>
        (let timeout = (case td_timeout (cc_tool x) of Some ms \<Rightarrow> Some ms | None \<Rightarrow> gw_default_timeout (cc_gateway x));
             l = l\<lparr>runs := Suc (runs l)\<rparr>
         in case execute_with_timeout (tm_name (cc_tool x)) timeout (attempt_of (cc_world x) n) of
              None \<Rightarrow> None
            | Some (sig', Inl e) \<Rightarrow> Some (l, sig', Inl e)
            | Some (sig', Inr raw) \<Rightarrow>
              (case throw_if_aborted sig' of
                 Inl e \<Rightarrow> Some (l, sig', Inl e)
               | Inr _ \<Rightarrow>
                 (let r = build_result (cc_gateway x) (cc_tool x) n (cc_max x) raw
                  in case cc_record x (if tr_failed r then ''tool_call.failed'' else ''tool_call.completed'')
                            (result_payload (cc_gateway x) (cc_tool x) (cc_meta x) (cc_duration x l) n (cc_max x) r) l of
                       (l', Inl e) \<Rightarrow> Some (l', sig', Inl e)
                     | (l', Inr _) \<Rightarrow> Some (l', sig', Inr r)))))"

text \<open>What the \<open>catch\<close> block does next: leave the call, or go on with the next attempt.\<close>

datatype catch_step = Leave "js_error + tool_result" | NextAttempt abort_state "attempt_failure list"

definition cancelled_payload :: "call_context \<Rightarrow> nat \<Rightarrow> jstr \<Rightarrow> call_log \<Rightarrow> (jstr \<times> json) list" where
  "cancelled_payload x n msg l =
     spread (cc_meta x) (jfields [(''status'', JStr (asc ''cancelled'')), (''message'', JStr msg),
       (''summary'', JStr (asc ''cancelled by user'')), (''durationMs'', JNum (cc_duration x l)),
       (''attempts'', jnat n), (''maxAttempts'', JNum (cc_max x))])"

definition retry_payload :: "call_context \<Rightarrow> nat \<Rightarrow> jstr \<Rightarrow> bool \<Rightarrow> nat \<Rightarrow> (jstr \<times> json) list" where
  "retry_payload x n msg retryable delay =
     spread (cc_meta x) (jfields [(''attempt'', jnat n), (''maxAttempts'', JNum (cc_max x)), (''message'', JStr msg),
       (''retryable'', JBool retryable), (''nextDelayMs'', jnat delay)])"

definition failed_result :: "call_context \<Rightarrow> attempt_failure list \<Rightarrow> classification \<Rightarrow> tool_result" where
  "failed_result x failures c =
     (let ob = format_tool_failure_observation (gc_name (cc_call x)) failures (cc_max x)
      in \<lparr>tr_failed = True, tr_content = recovery_line (fo_content ob) (cl_recovery c), tr_summary = fo_summary ob,
          tr_data = JObj (spread (fo_data ob) (jfields [(''error'', JObj (classification_json c))]))\<rparr>)"

definition failed_payload :: "call_context \<Rightarrow> attempt_failure list \<Rightarrow> jstr \<Rightarrow> classification \<Rightarrow> call_log \<Rightarrow> (jstr \<times> json) list" where
  "failed_payload x failures msg c l =
     (let r = failed_result x failures c
      in spread (cc_meta x)
           (jfields [(''status'', JStr (asc ''failed'')), (''message'', JStr msg), (''summary'', JStr (tr_summary r)),
                    (''durationMs'', JNum (cc_duration x l)), (''attempts'', jnat (length failures)),
                    (''maxAttempts'', JNum (cc_max x)), (''retried'', JBool (length failures > 1)), (''data'', tr_data r)]
            @ classification_json c))"

definition give_up :: "call_context \<Rightarrow> nat \<Rightarrow> js_error \<Rightarrow> attempt_failure list \<Rightarrow> classification \<Rightarrow> call_log \<Rightarrow> call_log \<times> catch_step" where
  "give_up x n e failures c l =
     (let msg = error_message e;
          (l1, r1) = (if nat_less_jnum n (cc_max x) then cc_record x ''tool_call.retry'' (retry_payload x n msg False 0) l
                      else (l, Inr ()))
      in case r1 of
           Inl e' \<Rightarrow> (l1, Leave (Inl e'))
         | Inr _ \<Rightarrow>
           (case cc_record x ''tool_call.failed'' (failed_payload x failures msg c l1) l1 of
              (l2, Inl e') \<Rightarrow> (l2, Leave (Inl e'))
            | (l2, Inr _) \<Rightarrow>
              (l2, Leave (if gc_return_errors (cc_call x) then Inr (failed_result x failures c) else Inl e))))"

definition attempt_catch ::
  "call_context \<Rightarrow> nat \<Rightarrow> js_error \<Rightarrow> abort_state \<Rightarrow> attempt_failure list \<Rightarrow> call_log \<Rightarrow> call_log \<times> catch_step" where
  "attempt_catch x n e sig failures l =
     (if is_operation_aborted e sig then
        (let msg = abort_message sig user_interrupt_text
         in case cc_record x ''tool_call.cancelled'' (cancelled_payload x n msg l) l of
              (l', Inl e') \<Rightarrow> (l', Leave (Inl e'))
            | (l', Inr _) \<Rightarrow> (l', Leave (Inl (abort_reason sig msg))))
      else
        (let msg = error_message e;
             c = classify_runtime_error e (error_source_of (cc_tool x));
             failures = failures @ [\<lparr>failed_attempt = n, failure_message = msg\<rparr>];
             gap = gap_abort (attempt_of (cc_world x) n)
         in if nat_less_jnum n (cc_max x) \<and> retry_on (cc_policy x) e n then
              (let delay = retry_backoff_ms (cc_policy x) n
               in case cc_record x ''tool_call.retry'' (retry_payload x n msg True delay) l of
                    (l', Inl e') \<Rightarrow> (l', Leave (Inl e'))
                  | (l', Inr _) \<Rightarrow>
                    (if delay > 0 \<and> gap \<noteq> None then (l', Leave (Inl (abort_reason gap operation_aborted_text)))
                     else (l', NextAttempt gap failures)))
            else give_up x n e failures c l))"

text \<open>
  The loop, with \<open>fuel\<close> bounding the number of attempts. The code after the loop is reached only
  when the loop body never ran, with \<open>lastError\<close> still \<open>undefined\<close>.
\<close>

definition after_loop :: "call_context \<Rightarrow> js_error + tool_result" where
  "after_loop x =
     (let msg = asc ''undefined'' in
      if gc_return_errors (cc_call x)
      then Inr \<lparr>tr_failed = True, tr_content = asc ''Tool '' @ gc_name (cc_call x) @ asc '' failed: '' @ msg,
                tr_summary = asc ''failed: '' @ msg, tr_data = JUndefined\<rparr>
      else Inl (plain_error msg))"

fun attempts_from ::
  "nat \<Rightarrow> call_context \<Rightarrow> nat \<Rightarrow> abort_state \<Rightarrow> attempt_failure list \<Rightarrow> call_log \<Rightarrow> (call_log \<times> (js_error + tool_result)) option" where
  "attempts_from fuel x n sig failures l =
     (if \<not> nat_le_jnum n (cc_max x) then Some (l, after_loop x)
      else case fuel of
        0 \<Rightarrow> None
      | Suc fuel' \<Rightarrow>
        (case attempt_try x n sig l of
           None \<Rightarrow> None
         | Some (l1, sig1, Inr r) \<Rightarrow> Some (l1, Inr r)
         | Some (l1, sig1, Inl e) \<Rightarrow>
           (case attempt_catch x n e sig1 failures l1 of
              (l2, Leave out) \<Rightarrow> Some (l2, out)
            | (l2, NextAttempt sig2 failures2) \<Rightarrow> attempts_from fuel' x (Suc n) sig2 failures2 l2)))"

declare attempts_from.simps [simp del]

definition empty_log :: call_log where
  "empty_log = \<lparr>logged = [], appends = 0, runs = 0\<rparr>"

definition call_refused ::
  "gateway \<Rightarrow> gateway_world \<Rightarrow> string \<Rightarrow> (jstr \<times> json) list \<Rightarrow> js_error \<Rightarrow> (call_log \<times> (js_error + tool_result)) option" where
  "call_refused g w ty payload e =
     (case gateway_record g w ty payload empty_log of
        (l, Inl e') \<Rightarrow> Some (l, Inl e')
      | (l, Inr _) \<Rightarrow> Some (l, Inl e))"

definition call_context_of :: "gateway \<Rightarrow> gateway_world \<Rightarrow> gateway_call \<Rightarrow> tool_definition \<Rightarrow> json \<Rightarrow> call_context" where
  "call_context_of g w c d v =
     \<lparr>cc_gateway = g, cc_world = w, cc_tool = d, cc_call = c, cc_meta = call_meta c (resolved_risk d v),
      cc_policy = resolve_tool_retry_policy (gc_retry c) (td_retry d) (gw_default_retry g)\<rparr>"

definition gateway_call_tool ::
  "nat \<Rightarrow> gateway \<Rightarrow> gateway_world \<Rightarrow> gateway_call \<Rightarrow> (call_log \<times> (js_error + tool_result)) option" where
  "gateway_call_tool fuel g w c =
     (case throw_if_aborted (abort_on_entry w) of
        Inl e \<Rightarrow> Some (empty_log, Inl e)
      | Inr _ \<Rightarrow>
        (case om_get (gw_tools g) (gc_name c) of
           None \<Rightarrow> Some (empty_log, Inl (tool_not_found (gc_name c)))
         | Some d \<Rightarrow>
           (case parse_input d (gc_input c) of
              Inl e \<Rightarrow> Some (empty_log, Inl e)
            | Inr v \<Rightarrow>
              (let risk = resolved_risk d v;
                   approval = gw_policy g (to_metadata d risk) v;
                   refusal = tool_permission_error (gc_name c) risk (decision_reason approval)
               in if action approval = Deny then
                    call_refused g w ''tool_call.denied''
                      (spread (call_meta c risk) (jfields [(''reason'', opt_str (decision_reason approval))])) refusal
                  else if action approval = Ask \<and> \<not> gc_approved c then
                    call_refused g w ''tool_call.approval_required''
                      (spread (call_meta c risk) (jfields [(''reason'', opt_str (decision_reason approval)),
                        (''input'', trace_input d v)])) refusal
                  else
                    (let x = call_context_of g w c d v
                     in case gateway_record g w ''tool_call.started''
                               (spread (cc_meta x) (jfields [(''input'', trace_input d v), (''maxAttempts'', JNum (cc_max x))])) empty_log of
                          (l, Inl e) \<Rightarrow> Some (l, Inl e)
                        | (l, Inr _) \<Rightarrow> attempts_from fuel x 1 (abort_on_start w) [] l)))))"

section \<open>The registry\<close>

definition gateway_wf :: "gateway \<Rightarrow> bool" where
  "gateway_wf g \<longleftrightarrow> om_wf (gw_tools g) \<and> (\<forall>(n, d) \<in> set (gw_tools g). tm_name d = n)"

lemma replacement_error_None:
  "replacement_error p m seen ds = None \<longleftrightarrow>
   distinct (map tm_name ds) \<and> tm_name ` set ds \<inter> set seen = {} \<and>
   (\<forall>d \<in> set ds. \<forall>ex. om_get m (tm_name d) = Some ex \<longrightarrow> in_category p (tm_category ex))"
  by (induction ds arbitrary: seen) (auto split: option.splits)

lemma map_fst_by_name [simp]: "map fst (by_name ds) = map tm_name ds"
  by (simp add: by_name_def)

lemma replaced_tools:
  assumes wf: "gateway_wf g" and ok: "replacement_error p (gw_tools g) [] ds = None"
  defines "kept \<equiv> filter (\<lambda>kd. \<not> in_category p (tm_category (snd kd))) (gw_tools g)"
  shows "om_put_all (by_name ds) kept = kept @ by_name ds"
    and "om_wf (kept @ by_name ds)"
proof -
  have disj: "fst ` set (by_name ds) \<inter> fst ` set kept = {}"
  proof -
    have False if "d \<in> set ds" "(tm_name d, ex) \<in> set kept" for d ex
    proof -
      have "(tm_name d, ex) \<in> set (gw_tools g)" using that by (simp add: kept_def)
      then have "om_get (gw_tools g) (tm_name d) = Some ex" using wf by (simp add: gateway_wf_def)
      then have "in_category p (tm_category ex)" using ok that(1) by (auto simp: replacement_error_None)
      then show False using that(2) by (simp add: kept_def)
    qed
    then show ?thesis by (force simp: by_name_def)
  qed
  have dist: "distinct (map fst (by_name ds))" using ok by (simp add: replacement_error_None)
  show "om_put_all (by_name ds) kept = kept @ by_name ds"
    by (rule om_put_all_fresh [OF dist disj])
  have "om_wf kept" using wf by (simp add: kept_def gateway_wf_def distinct_map_filter)
  then show "om_wf (kept @ by_name ds)"
    using dist disj by (simp add: distinct_append Int_commute by_name_def image_image)
qed

text \<open>
  C14. Replacing a category is atomic and exact: it either throws and leaves the registry as it
  was (precisely when two new tools share a name or a new name belongs to a tool outside the
  category), or keeps every tool outside the category in its order and puts the new tools after
  them. Registration is refused exactly for a known name, and both keep the registry keyed by the
  names of its tools.
\<close>

theorem replace_category_atomic:
  assumes "gateway_wf g"
  shows "(case replace_category p ds g of
      (g', Inl e) \<Rightarrow> g' = g \<and> (\<not> distinct (map tm_name ds) \<or>
        (\<exists>d \<in> set ds. \<exists>ex. om_get (gw_tools g) (tm_name d) = Some ex \<and> \<not> in_category p (tm_category ex)))
    | (g', Inr _) \<Rightarrow> gateway_wf g' \<and> distinct (map tm_name ds) \<and>
        map snd (gw_tools g') = filter (\<lambda>d. \<not> in_category p (tm_category d)) (map snd (gw_tools g)) @ ds)
    \<and> (case gateway_register d g of
      (g', Inl e) \<Rightarrow> g' = g \<and> om_get (gw_tools g) (tm_name d) \<noteq> None
    | (g', Inr _) \<Rightarrow> gateway_wf g' \<and> map snd (gw_tools g') = map snd (gw_tools g) @ [d])"
proof -
  have "case replace_category p ds g of
      (g', Inl e) \<Rightarrow> g' = g \<and> (\<not> distinct (map tm_name ds) \<or>
        (\<exists>d \<in> set ds. \<exists>ex. om_get (gw_tools g) (tm_name d) = Some ex \<and> \<not> in_category p (tm_category ex)))
    | (g', Inr _) \<Rightarrow> gateway_wf g' \<and> distinct (map tm_name ds) \<and>
        map snd (gw_tools g') = filter (\<lambda>d. \<not> in_category p (tm_category d)) (map snd (gw_tools g)) @ ds"
  proof (cases "replacement_error p (gw_tools g) [] ds")
    case None
    have "gateway_wf (g\<lparr>gw_tools := filter (\<lambda>kd. \<not> in_category p (tm_category (snd kd))) (gw_tools g) @ by_name ds\<rparr>)"
      using replaced_tools(2) [OF assms None] assms by (auto simp: gateway_wf_def by_name_def)
    moreover have "distinct (map tm_name ds)" using None by (simp add: replacement_error_None)
    moreover have "replace_category p ds g =
        (g\<lparr>gw_tools := filter (\<lambda>kd. \<not> in_category p (tm_category (snd kd))) (gw_tools g) @ by_name ds\<rparr>, Inr ())"
      by (simp add: replace_category_def None replaced_tools(1) [OF assms None])
    ultimately show ?thesis by (simp add: filter_map by_name_def comp_def)
  next
    case (Some e)
    then have "\<not> (distinct (map tm_name ds) \<and>
        (\<forall>d \<in> set ds. \<forall>ex. om_get (gw_tools g) (tm_name d) = Some ex \<longrightarrow> in_category p (tm_category ex)))"
      using replacement_error_None [of p "gw_tools g" "[]" ds] by simp
    moreover have "replace_category p ds g = (g, Inl e)" by (simp add: replace_category_def Some)
    ultimately show ?thesis by auto
  qed
  moreover have "case gateway_register d g of
      (g', Inl e) \<Rightarrow> g' = g \<and> om_get (gw_tools g) (tm_name d) \<noteq> None
    | (g', Inr _) \<Rightarrow> gateway_wf g' \<and> map snd (gw_tools g') = map snd (gw_tools g) @ [d]"
    using assms by (auto simp: gateway_register_def om_has_def gateway_wf_def om_set_absent map_of_eq_None_iff)
  ultimately show ?thesis by blast
qed

section \<open>Executions of the handler\<close>

lemma gateway_record_runs [simp]: "runs (fst (gateway_record g w ty p l)) = runs l"
  by (simp add: gateway_record_def Let_def split: option.split)

lemma gateway_record_runs_eq: "gateway_record g w ty p l = (l', r) \<Longrightarrow> runs l' = runs l"
  by (metis fst_conv gateway_record_runs)

lemma attempt_catch_runs: "attempt_catch x n e sig fs l = (l', step) \<Longrightarrow> runs l' = runs l"
  unfolding attempt_catch_def give_up_def Let_def
  by (auto split: if_splits prod.splits sum.splits dest!: gateway_record_runs_eq)

lemma attempt_try_runs:
  "attempt_try x n sig l = Some (l', sig', out) \<Longrightarrow> runs l' \<le> Suc (runs l) \<and> runs l \<le> runs l'"
  unfolding attempt_try_def Let_def
  by (auto split: option.splits sum.splits prod.splits if_splits dest!: gateway_record_runs_eq)

lemma attempt_catch_next:
  "attempt_catch x n e sig fs l = (l', NextAttempt sig' fs') \<Longrightarrow> nat_less_jnum n (cc_max x)"
  unfolding attempt_catch_def give_up_def Let_def
  by (auto split: if_splits prod.splits sum.splits)

text \<open>The number of attempts after the resolution of the policy is an integer.\<close>

definition integral_attempts :: "call_context \<Rightarrow> bool" where
  "integral_attempts x \<longleftrightarrow> (\<forall>r. cc_max x = Num r \<longrightarrow> (\<exists>k. r = of_nat k))"

lemma integral_layer: "max_attempts (apply_layer l p) = Num r \<Longrightarrow> \<exists>k. r = of_nat k"
proof (cases "lay_max_attempts l")
  case (Num q)
  assume "max_attempts (apply_layer l p) = Num r"
  then have "r = of_int (max 1 \<lfloor>q\<rfloor>)"
    by (simp add: apply_layer_def Num jnum_max_def jnum_floor_def of_int_max)
  moreover have "of_int (max 1 \<lfloor>q\<rfloor>) = (of_nat (nat (max 1 \<lfloor>q\<rfloor>)) :: rat)" by simp
  ultimately show ?thesis by metis
qed (auto simp: apply_layer_def jnum_max_def jnum_floor_def intro: exI [of _ 1])

lemma integral_layers:
  "max_attempts (foldl (\<lambda>p l. apply_layer l p) default_tool_retry_policy ls) = Num r \<Longrightarrow> \<exists>k. r = of_nat k"
proof (cases ls rule: rev_cases)
  case Nil
  moreover assume "max_attempts (foldl (\<lambda>p l. apply_layer l p) default_tool_retry_policy ls) = Num r"
  ultimately have "r = of_nat 2" by (simp add: default_tool_retry_policy_def)
  then show ?thesis by blast
qed (auto dest: integral_layer)

lemma integral_call_context: "integral_attempts (call_context_of g w c d v)"
proof -
  have "\<exists>k. r = of_nat k" if "max_attempts (resolve_tool_retry_policy a b e) = Num r" for a b e r
  proof (cases "a = Never \<or> b = Never \<or> e = Never \<and> b = Inherit")
    case True
    then have "resolve_tool_retry_policy a b e = no_retry_policy"
      by (auto simp: resolve_tool_retry_policy_def is_never_def is_inherit_def)
    with that have "r = of_nat 1" by (simp add: no_retry_policy_def)
    then show ?thesis by blast
  next
    case False
    then have "resolve_tool_retry_policy a b e =
        foldl (\<lambda>p l. apply_layer l p) default_tool_retry_policy (layers_of e @ layers_of b @ layers_of a)"
      by (intro resolved_layers) auto
    with that show ?thesis by (metis integral_layers)
  qed
  then show ?thesis by (simp add: integral_attempts_def call_context_of_def)
qed

lemma integral_next: "integral_attempts x \<Longrightarrow> nat_less_jnum n (cc_max x) \<Longrightarrow> nat_le_jnum (Suc n) (cc_max x)"
  by (cases "cc_max x") (auto simp: integral_attempts_def nat_less_jnum_def nat_le_jnum_def
      simp flip: of_nat_Suc)

text \<open>The bound on the executions, and the fuel that is enough.\<close>

lemma attempts_from_cases [consumes 1, case_names Done Returned Left Next]:
  assumes "attempts_from fuel x n sig fs l = Some (l', out)"
  obtains
    "\<not> nat_le_jnum n (cc_max x)" "l' = l" "out = after_loop x"
  | sig1 r where "nat_le_jnum n (cc_max x)" "attempt_try x n sig l = Some (l', sig1, Inr r)" "out = Inr r"
  | l1 sig1 e where "nat_le_jnum n (cc_max x)" "attempt_try x n sig l = Some (l1, sig1, Inl e)"
      "attempt_catch x n e sig1 fs l1 = (l', Leave out)"
  | fuel' l1 sig1 e l2 sig2 fs2 where "fuel = Suc fuel'" "nat_le_jnum n (cc_max x)"
      "attempt_try x n sig l = Some (l1, sig1, Inl e)"
      "attempt_catch x n e sig1 fs l1 = (l2, NextAttempt sig2 fs2)"
      "attempts_from fuel' x (Suc n) sig2 fs2 l2 = Some (l', out)"
proof -
  from assms show ?thesis
    apply (subst (asm) attempts_from.simps)
    apply (simp split: if_splits nat.splits option.splits prod.splits sum.splits catch_step.splits)
       apply (use that in blast)+
    done
qed

lemma attempts_from_runs:
  "attempts_from fuel x n sig fs l = Some (l', out) \<Longrightarrow> cc_max x = Num (of_nat m) \<Longrightarrow>
   runs l \<le> runs l' \<and> runs l' \<le> runs l + (Suc m - n)"
proof (induction fuel arbitrary: n sig fs l)
  case (Suc fuel)
  from Suc.prems(1) show ?case
  proof (cases rule: attempts_from_cases)
    case Done
    then show ?thesis by simp
  next
    case (Returned sig1 r)
    then show ?thesis using attempt_try_runs Suc.prems(2) by (fastforce simp: nat_le_jnum_def)
  next
    case (Left l1 sig1 e)
    then show ?thesis using attempt_try_runs [OF Left(2)] attempt_catch_runs [OF Left(3)] Suc.prems(2)
      by (auto simp: nat_le_jnum_def)
  next
    case (Next fuel' l1 sig1 e l2 sig2 fs2)
    have "runs l2 \<le> runs l' \<and> runs l' \<le> runs l2 + (Suc m - Suc n)"
      by (rule Suc.IH) (use Next Suc.prems in auto)
    then show ?thesis using attempt_try_runs [OF Next(3)] attempt_catch_runs [OF Next(4)] Suc.prems(2) Next(2)
      by (auto simp: nat_le_jnum_def)
  qed
qed (auto simp: attempts_from.simps split: if_splits)

text \<open>An attempt that cannot hang always leaves the \<open>try\<close> block.\<close>

definition settles_in_time :: "call_context \<Rightarrow> bool" where
  "settles_in_time x \<longleftrightarrow> td_timeout (cc_tool x) \<noteq> None \<or> gw_default_timeout (cc_gateway x) \<noteq> None
     \<or> (\<forall>n. settles (attempt_of (cc_world x) n) \<noteq> None)"

lemma earliest_None: "earliest rs = None \<longleftrightarrow> rs = []"
  by (induction rs) (auto split: option.splits if_splits)

lemma execute_with_timeout_None:
  "execute_with_timeout nm timeout env = None \<longleftrightarrow> timeout = None \<and> settles env = None \<and> aborts_at env = None"
  by (auto simp: execute_with_timeout_def racers_def opt_list_def earliest_None split: option.splits prod.splits)

lemma attempt_try_settles: "settles_in_time x \<Longrightarrow> attempt_try x n sig l \<noteq> None"
  unfolding attempt_try_def Let_def
  by (auto simp: settles_in_time_def execute_with_timeout_None split: option.splits sum.splits prod.splits if_splits)

lemma attempts_from_total:
  assumes "settles_in_time x" and "cc_max x = Num (of_nat m)"
  shows "m < n + fuel \<Longrightarrow> attempts_from fuel x n sig fs l \<noteq> None"
proof (induction fuel arbitrary: n sig fs l)
  case 0
  then show ?case using assms(2) by (simp add: attempts_from.simps nat_le_jnum_def)
next
  case (Suc fuel)
  have "attempts_from fuel x (Suc n) sig' fs' l' \<noteq> None" for sig' fs' l'
    using Suc by simp
  then show ?case
    using attempt_try_settles [OF assms(1), of n sig l]
    by (subst attempts_from.simps) (auto split: option.splits prod.splits sum.splits catch_step.splits)
qed

section \<open>Calls\<close>

text \<open>The call is let through: the tool exists, the input parses, and the policy or the user agrees.\<close>

definition authorised :: "gateway \<Rightarrow> gateway_world \<Rightarrow> gateway_call \<Rightarrow> tool_definition \<Rightarrow> json \<Rightarrow> bool" where
  "authorised g w c d v \<longleftrightarrow> abort_on_entry w = None \<and> om_get (gw_tools g) (gc_name c) = Some d
     \<and> parse_input d (gc_input c) = Inr v
     \<and> (let a = action (gw_policy g (to_metadata d (resolved_risk d v)) v)
        in a = Allow \<or> a = Ask \<and> gc_approved c)"

definition started_payload :: "call_context \<Rightarrow> json \<Rightarrow> (jstr \<times> json) list" where
  "started_payload x v =
     spread (cc_meta x) (jfields [(''input'', trace_input (cc_tool x) v), (''maxAttempts'', JNum (cc_max x))])"

lemma authorised_call:
  assumes "authorised g w c d v"
  defines "x \<equiv> call_context_of g w c d v"
  shows "gateway_call_tool fuel g w c =
    (case gateway_record g w ''tool_call.started'' (started_payload x v) empty_log of
       (l, Inl e) \<Rightarrow> Some (l, Inl e)
     | (l, Inr _) \<Rightarrow> attempts_from fuel x 1 (abort_on_start w) [] l)"
  using assms
  by (auto simp: authorised_def gateway_call_tool_def Let_def started_payload_def call_context_of_def)

lemma call_refused_runs: "\<exists>l e'. call_refused g w ty p e = Some (l, Inl e') \<and> runs l = 0"
  by (auto simp: call_refused_def empty_log_def split: prod.splits sum.splits dest!: gateway_record_runs_eq)

lemma unauthorised_call:
  assumes "\<nexists>d v. authorised g w c d v"
  shows "\<exists>l e. gateway_call_tool fuel g w c = Some (l, Inl e) \<and> runs l = 0"
proof (cases "abort_on_entry w")
  case (Some a)
  then show ?thesis by (simp add: gateway_call_tool_def throw_if_aborted_def empty_log_def)
next
  case None
  note none = None
  show ?thesis
  proof (cases "om_get (gw_tools g) (gc_name c)")
    case None
    then show ?thesis using none by (simp add: gateway_call_tool_def empty_log_def)
  next
    case (Some d)
    show ?thesis
    proof (cases "parse_input d (gc_input c)")
      case (Inl e)
      then show ?thesis using none Some by (simp add: gateway_call_tool_def empty_log_def)
    next
      case (Inr v)
      define a where "a = action (gw_policy g (to_metadata d (resolved_risk d v)) v)"
      have "a = Deny \<or> a = Ask \<and> \<not> gc_approved c"
        using assms none Some Inr approval_action.exhaust [of a] by (auto simp: authorised_def Let_def a_def)
      then show ?thesis
        using none Some Inr call_refused_runs by (auto simp: gateway_call_tool_def Let_def a_def)
    qed
  qed
qed

text \<open>
  C15. No tool runs behind the policy's back: if the handler was executed, or the call returned a
  result, then the run was not cancelled, the tool is registered, the input passed its schema,
  and the approval policy, asked about the tool with the risk resolved for this very input,
  answered allow, or ask with the approval given. A denied tool never runs.
\<close>

theorem unauthorised_call_never_runs:
  assumes "gateway_call_tool fuel g w c = Some (l, out)" and "0 < runs l \<or> (\<exists>r. out = Inr r)"
  shows "\<exists>d v. abort_on_entry w = None \<and> om_get (gw_tools g) (gc_name c) = Some d \<and> parse_input d (gc_input c) = Inr v
    \<and> (let a = action (gw_policy g (to_metadata d (resolved_risk d v)) v) in a = Allow \<or> a = Ask \<and> gc_approved c)"
proof (rule ccontr)
  assume "\<not> ?thesis"
  then have "\<nexists>d v. authorised g w c d v" unfolding authorised_def by blast
  from unauthorised_call [OF this, of fuel] assms show False by auto
qed

text \<open>
  C16. A call always returns: with a timeout on the tool or on the gateway (or handlers that
  settle), at most \<open>maxAttempts\<close> attempts are enough fuel for a result or an error, and the
  handler was executed at most \<open>maxAttempts\<close> times.
\<close>

theorem gateway_call_returns:
  assumes "om_get (gw_tools g) (gc_name c) = Some d"
    and "td_timeout d \<noteq> None \<or> gw_default_timeout g \<noteq> None \<or> (\<forall>n. settles (attempt_of w n) \<noteq> None)"
    and "max_attempts (resolve_tool_retry_policy (gc_retry c) (td_retry d) (gw_default_retry g)) = Num (of_nat m)"
    and "m \<le> fuel"
  shows "\<exists>l out. gateway_call_tool fuel g w c = Some (l, out) \<and> runs l \<le> m"
proof (cases "\<exists>v. authorised g w c d v")
  case True
  then obtain v where v: "authorised g w c d v" by blast
  define x where "x = call_context_of g w c d v"
  have m: "cc_max x = Num (of_nat m)" and set: "settles_in_time x"
    using assms(2,3) by (simp_all add: x_def call_context_of_def settles_in_time_def)
  obtain l r where rec: "gateway_record g w ''tool_call.started'' (started_payload x v) empty_log = (l, r)" by fastforce
  have l0: "runs l = 0" using gateway_record_runs_eq [OF rec] by (simp add: empty_log_def)
  show ?thesis
  proof (cases r)
    case (Inl e)
    then show ?thesis using authorised_call [OF v] rec l0 by (simp add: x_def)
  next
    case (Inr u)
    have "attempts_from fuel x 1 (abort_on_start w) [] l \<noteq> None"
      by (rule attempts_from_total [OF set m]) (use assms(4) in simp)
    then obtain l' out where out: "attempts_from fuel x 1 (abort_on_start w) [] l = Some (l', out)" by auto
    then have "runs l' \<le> m" using attempts_from_runs [OF out m] l0 by simp
    then show ?thesis using authorised_call [OF v] rec Inr out by (simp add: x_def)
  qed
next
  case False
  then have no: "\<nexists>d' v. authorised g w c d' v" using assms(1) by (auto simp: authorised_def)
  from unauthorised_call [OF no, of fuel] show ?thesis by auto
qed

section \<open>The trace of a call\<close>

definition reliable_store :: "gateway \<Rightarrow> gateway_world \<Rightarrow> bool" where
  "reliable_store g w \<longleftrightarrow> gw_store g \<and> (\<forall>n. append_fails w n = None)"

definition types_of :: "call_log \<Rightarrow> jstr list" where
  "types_of l = map ev_type (logged l)"

lemma reliable_record:
  "reliable_store g w \<Longrightarrow> gateway_record g w ty p l = (l', r) \<Longrightarrow>
   types_of l' = types_of l @ [asc ty] \<and> r = Inr ()"
  by (auto simp: reliable_store_def gateway_record_def types_of_def Let_def)

text \<open>
  How the tail of a trace goes with the outcome of the call: a terminal event for a result or an
  error, or none at all when the signal fired while the call was waiting to retry.
\<close>

datatype call_end = EndCompleted | EndFailed | EndCancelled | EndInGap

definition end_types :: "call_end \<Rightarrow> jstr list" where
  "end_types k = (case k of
     EndCompleted \<Rightarrow> [asc ''tool_call.completed'']
   | EndFailed \<Rightarrow> [asc ''tool_call.failed'']
   | EndCancelled \<Rightarrow> [asc ''tool_call.cancelled'']
   | EndInGap \<Rightarrow> [])"

definition end_outcome :: "bool \<Rightarrow> call_end \<Rightarrow> js_error + tool_result \<Rightarrow> bool" where
  "end_outcome return_errors k out = (case k of
     EndCompleted \<Rightarrow> (\<exists>r. out = Inr r \<and> \<not> tr_failed r)
   | EndFailed \<Rightarrow> (case out of Inr r \<Rightarrow> tr_failed r | Inl e \<Rightarrow> \<not> return_errors)
   | EndCancelled \<Rightarrow> (\<exists>e. out = Inl e)
   | EndInGap \<Rightarrow> (\<exists>e. out = Inl e))"

definition gap_fires :: "gateway_world \<Rightarrow> bool" where
  "gap_fires w \<longleftrightarrow> (\<exists>n. gap_abort (attempt_of w n) \<noteq> None)"

abbreviation retry_types :: "nat \<Rightarrow> jstr list" where
  "retry_types k \<equiv> replicate k (asc ''tool_call.retry'')"

lemma attempt_try_types:
  assumes "reliable_store (cc_gateway x) (cc_world x)" and "attempt_try x n sig l = Some (l', sig', out)"
  shows "case out of
      Inl e \<Rightarrow> types_of l' = types_of l
    | Inr r \<Rightarrow> types_of l' = types_of l @ end_types (if tr_failed r then EndFailed else EndCompleted)"
proof (cases "throw_if_aborted sig")
  case (Inl e)
  then show ?thesis using assms(2) by (auto simp: attempt_try_def)
next
  case (Inr u)
  define timeout where "timeout = (case td_timeout (cc_tool x) of Some ms \<Rightarrow> Some ms | None \<Rightarrow> gw_default_timeout (cc_gateway x))"
  define l1 where "l1 = l\<lparr>runs := Suc (runs l)\<rparr>"
  have l1: "types_of l1 = types_of l" by (simp add: l1_def types_of_def)
  have unfolded: "attempt_try x n sig l =
    (case execute_with_timeout (tm_name (cc_tool x)) timeout (attempt_of (cc_world x) n) of
       None \<Rightarrow> None
     | Some (sig', Inl e) \<Rightarrow> Some (l1, sig', Inl e)
     | Some (sig', Inr raw) \<Rightarrow>
       (case throw_if_aborted sig' of
          Inl e \<Rightarrow> Some (l1, sig', Inl e)
        | Inr _ \<Rightarrow>
          (let r = build_result (cc_gateway x) (cc_tool x) n (cc_max x) raw
           in case cc_record x (if tr_failed r then ''tool_call.failed'' else ''tool_call.completed'')
                     (result_payload (cc_gateway x) (cc_tool x) (cc_meta x) (cc_duration x l1) n (cc_max x) r) l1 of
                (l', Inl e) \<Rightarrow> Some (l', sig', Inl e)
              | (l', Inr _) \<Rightarrow> Some (l', sig', Inr r))))"
    unfolding attempt_try_def timeout_def l1_def Let_def using Inr by simp
  obtain sig1 o1 where ex: "execute_with_timeout (tm_name (cc_tool x)) timeout (attempt_of (cc_world x) n) = Some (sig1, o1)"
    using assms(2) unfolding unfolded by (auto split: option.splits)
  show ?thesis
  proof (cases o1)
    case (Inl e)
    then show ?thesis using assms(2) ex l1 unfolding unfolded by auto
  next
    case (Inr raw)
    define r where "r = build_result (cc_gateway x) (cc_tool x) n (cc_max x) raw"
    obtain l2 r2 where rec: "cc_record x (if tr_failed r then ''tool_call.failed'' else ''tool_call.completed'')
        (result_payload (cc_gateway x) (cc_tool x) (cc_meta x) (cc_duration x l1) n (cc_max x) r) l1 = (l2, r2)" by fastforce
    note ok = reliable_record [OF assms(1) rec]
    show ?thesis
    proof (cases "throw_if_aborted sig1")
      case (Inl e)
      then show ?thesis using assms(2) ex \<open>o1 = Inr raw\<close> l1 unfolding unfolded by auto
    next
      case (Inr u)
      have "attempt_try x n sig l = Some (l2, sig1, Inr r)"
        unfolding unfolded using ex \<open>o1 = Inr raw\<close> Inr rec ok by (simp add: Let_def r_def)
      then show ?thesis using assms(2) ok l1 by (auto simp: end_types_def)
    qed
  qed
qed

lemma attempt_catch_types:
  assumes rel: "reliable_store (cc_gateway x) (cc_world x)" and "attempt_catch x n e sig fs l = (l', step)"
  shows "case step of
      NextAttempt sig2 fs2 \<Rightarrow> types_of l' = types_of l @ retry_types 1
    | Leave out \<Rightarrow> (\<exists>j k. types_of l' = types_of l @ retry_types j @ end_types k \<and> j \<le> 1
        \<and> end_outcome (gc_return_errors (cc_call x)) k out \<and> (k = EndInGap \<longrightarrow> gap_fires (cc_world x)))"
proof (cases "is_operation_aborted e sig")
  case True
  obtain l1 r1 where rec: "cc_record x ''tool_call.cancelled''
      (cancelled_payload x n (abort_message sig user_interrupt_text) l) l = (l1, r1)" by fastforce
  from reliable_record [OF rel rec] show ?thesis
    using assms(2) True rec by (auto simp: attempt_catch_def Let_def end_types_def end_outcome_def
        intro!: exI [of _ 0] exI [of _ EndCancelled])
next
  case False
  define c where "c = classify_runtime_error e (error_source_of (cc_tool x))"
  define fs' where "fs' = fs @ [\<lparr>failed_attempt = n, failure_message = error_message e\<rparr>]"
  show ?thesis
  proof (cases "nat_less_jnum n (cc_max x) \<and> retry_on (cc_policy x) e n")
    case True
    obtain l1 r1 where rec: "cc_record x ''tool_call.retry''
        (retry_payload x n (error_message e) True (retry_backoff_ms (cc_policy x) n)) l = (l1, r1)" by fastforce
    define gap where "gap = gap_abort (attempt_of (cc_world x) n)"
    note ok = reliable_record [OF rel rec]
    have catch: "attempt_catch x n e sig fs l =
        (if retry_backoff_ms (cc_policy x) n > 0 \<and> gap \<noteq> None
         then (l1, Leave (Inl (abort_reason gap operation_aborted_text))) else (l1, NextAttempt gap fs'))"
      using False True rec ok by (simp add: attempt_catch_def Let_def gap_def fs'_def)
    show ?thesis
    proof (cases "retry_backoff_ms (cc_policy x) n > 0 \<and> gap \<noteq> None")
      case True
      then have "gap_fires (cc_world x)" by (auto simp: gap_fires_def gap_def)
      moreover have "end_outcome b EndInGap (Inl e')" for b e' by (simp add: end_outcome_def)
      moreover have "types_of l' = types_of l @ retry_types 1 @ end_types EndInGap"
        using True catch assms(2) ok by (simp add: end_types_def)
      ultimately show ?thesis using True catch assms(2) by (auto intro!: exI [of _ "1 :: nat"] exI [of _ EndInGap])
    next
      case False
      then show ?thesis using catch assms(2) ok by auto
    qed
  next
    case no: False
    obtain l1 r1 where rec1: "(if nat_less_jnum n (cc_max x)
        then cc_record x ''tool_call.retry'' (retry_payload x n (error_message e) False 0) l else (l, Inr ())) = (l1, r1)"
      by fastforce
    obtain l2 r2 where rec2: "cc_record x ''tool_call.failed'' (failed_payload x fs' (error_message e) c l1) l1 = (l2, r2)"
      by fastforce
    have one: "r1 = Inr () \<and> (\<exists>j \<le> 1. types_of l1 = types_of l @ retry_types j)"
    proof (cases "nat_less_jnum n (cc_max x)")
      case True
      with rec1 reliable_record [OF rel] show ?thesis by (fastforce intro: exI [of _ "1 :: nat"])
    next
      case False
      with rec1 show ?thesis by (auto intro: exI [of _ "0 :: nat"])
    qed
    have two: "r2 = Inr () \<and> types_of l2 = types_of l1 @ end_types EndFailed"
      using reliable_record [OF rel rec2] by (simp add: end_types_def)
    have "attempt_catch x n e sig fs l = give_up x n e fs' c l"
      using False no by (auto simp: attempt_catch_def Let_def c_def fs'_def)
    also have "\<dots> = (l2, Leave (if gc_return_errors (cc_call x) then Inr (failed_result x fs' c) else Inl e))"
      using rec1 rec2 one two by (simp add: give_up_def Let_def)
    finally show ?thesis
      using assms(2) one two
      by (auto simp: end_outcome_def failed_result_def Let_def intro!: exI [of _ EndFailed])
  qed
qed

lemma attempts_from_types:
  assumes rel: "reliable_store (cc_gateway x) (cc_world x)" and int: "integral_attempts x"
  shows "attempts_from fuel x n sig fs l = Some (l', out) \<Longrightarrow> nat_le_jnum n (cc_max x) \<Longrightarrow>
    \<exists>j k. types_of l' = types_of l @ retry_types j @ end_types k
      \<and> end_outcome (gc_return_errors (cc_call x)) k out \<and> (k = EndInGap \<longrightarrow> gap_fires (cc_world x))"
proof (induction fuel arbitrary: n sig fs l)
  case 0
  then show ?case by (simp add: attempts_from.simps)
next
  case (Suc fuel)
  from Suc.prems(1) show ?case
  proof (cases rule: attempts_from_cases)
    case Done
    with Suc.prems(2) show ?thesis by simp
  next
    case (Returned sig1 r)
    with attempt_try_types [OF rel Returned(2)] show ?thesis
      by (auto simp: end_outcome_def intro!: exI [of _ 0] exI [of _ "if tr_failed r then EndFailed else EndCompleted"])
  next
    case (Left l1 sig1 e)
    with attempt_try_types [OF rel Left(2)] attempt_catch_types [OF rel Left(3)] show ?thesis
      by auto
  next
    case (Next fuel' l1 sig1 e l2 sig2 fs2)
    have "nat_le_jnum (Suc n) (cc_max x)"
      using attempt_catch_next [OF Next(4)] integral_next [OF int] by blast
    then obtain j k where jk: "types_of l' = types_of l2 @ retry_types j @ end_types k"
      "end_outcome (gc_return_errors (cc_call x)) k out" "k = EndInGap \<longrightarrow> gap_fires (cc_world x)"
      using Suc.IH [of "Suc n" sig2 fs2 l2] Next(1,5) by auto
    moreover have "types_of l2 = types_of l @ retry_types 1"
      using attempt_try_types [OF rel Next(3)] attempt_catch_types [OF rel Next(4)] by simp
    ultimately have "types_of l' = types_of l @ retry_types (Suc j) @ end_types k" by simp
    with jk show ?thesis by blast
  qed
qed

text \<open>
  C17. The trace of a call tells its story: with a store that accepts every append, an authorised
  call whose policy is a number writes one started event, then retry events, then exactly one
  terminal event that matches the outcome. The only exception is a signal that fires while the
  call waits to retry: that call throws without any terminal event.
\<close>

theorem call_trace_shape:
  assumes "reliable_store g w" and "gateway_call_tool fuel g w c = Some (l, out)" and "authorised g w c d v"
    and "max_attempts (resolve_tool_retry_policy (gc_retry c) (td_retry d) (gw_default_retry g)) \<noteq> NaN"
  shows "\<exists>j k. map ev_type (logged l) = asc ''tool_call.started'' # retry_types j @ end_types k
    \<and> end_outcome (gc_return_errors c) k out
    \<and> (k = EndInGap \<longrightarrow> (\<exists>n. gap_abort (attempt_of w n) \<noteq> None))"
proof -
  define x where "x = call_context_of g w c d v"
  have rel: "reliable_store (cc_gateway x) (cc_world x)"
    using assms(1) by (simp add: x_def call_context_of_def)
  obtain l0 r0 where rec: "gateway_record g w ''tool_call.started'' (started_payload x v) empty_log = (l0, r0)" by fastforce
  then have start: "types_of l0 = [asc ''tool_call.started'']" "r0 = Inr ()"
    using reliable_record [OF assms(1) rec] by (simp_all add: types_of_def empty_log_def)
  have run: "attempts_from fuel x 1 (abort_on_start w) [] l0 = Some (l, out)"
    using authorised_call [OF assms(3)] assms(2) rec start(2) by (simp add: x_def)
  have "nat_le_jnum 1 (cc_max x)"
    using assms(4) resolved_attempts_ok [of "gw_default_retry g" "td_retry d" "gc_retry c"]
    by (auto simp: attempts_ok_def nat_le_jnum_def x_def call_context_of_def split: jnum.splits)
  from attempts_from_types [OF rel _ run this] show ?thesis
    using start(1) integral_call_context
    by (simp add: types_of_def gap_fires_def x_def call_context_of_def)
qed

section \<open>Sample runs\<close>

definition sample_tool :: tool_definition where
  "sample_tool = \<lparr>tm_name = asc ''Append'', tm_description = [], tm_risk = Write, tm_category = None,
     tm_parameters = JNull, td_parse = Inr, td_resolve_risk = None, td_redact = None, td_timeout = Some 1000,
     td_retry = Inherit, td_enabled = None, td_summarize = None\<rparr>"

definition sample_gateway :: gateway where
  "sample_gateway = \<lparr>gw_tools = [(asc ''Append'', sample_tool)], gw_policy = default_approval_policy,
     gw_scope = WorkspaceScope, gw_store = True, gw_default_timeout = None, gw_max_summary = 240,
     gw_max_preview = 4000, gw_default_retry = Inherit, gw_extras = []\<rparr>"

definition sample_call :: gateway_call where
  "sample_call = \<lparr>gc_name = asc ''Append'', gc_input = JNull, gc_call_id = Some (asc ''c1''), gc_iteration = None,
     gc_approved = True, gc_return_errors = True, gc_retry = Inherit\<rparr>"

text \<open>The handler succeeds after 5 ms in every attempt; \<open>fails\<close> says which appends fail.\<close>

definition sample_world :: "(nat \<Rightarrow> js_error option) \<Rightarrow> gateway_world" where
  "sample_world fails =
     \<lparr>attempt_of = (\<lambda>n. \<lparr>settles = Some (5, Inr \<lparr>hr_failed = None, hr_content = asc ''ok'', hr_summary = None, hr_data = JUndefined\<rparr>),
                          aborts_at = None, gap_abort = None\<rparr>),
      append_fails = fails, elapsed = (\<lambda>_. Num 5), stamp = (\<lambda>_. []), abort_on_entry = None, abort_on_start = None\<rparr>"

definition disk_full :: js_error where
  "disk_full = (plain_error (asc ''ENOSPC: no space left on device''))\<lparr>err_code := Some (asc ''ENOSPC'')\<rparr>"

definition second_append_fails :: "nat \<Rightarrow> js_error option" where
  "second_append_fails n = (if n = 1 then Some disk_full else None)"

definition sample_run :: "(call_log \<times> (js_error + tool_result)) option" where
  "sample_run = gateway_call_tool 2 sample_gateway (sample_world (\<lambda>_. None)) sample_call"

definition summary_of_run :: "(call_log \<times> (js_error + tool_result)) option \<Rightarrow> (nat \<times> jstr list \<times> bool) option" where
  "summary_of_run r = (case r of None \<Rightarrow> None
     | Some (l, out) \<Rightarrow> Some (runs l, types_of l, case out of Inl _ \<Rightarrow> False | Inr x \<Rightarrow> \<not> tr_failed x))"

lemma sample_run_summary:
  "summary_of_run sample_run = Some (1, [asc ''tool_call.started'', asc ''tool_call.completed''], True)"
  by code_simp

lemma sample_run_obtain:
  obtains l r where "gateway_call_tool 2 sample_gateway (sample_world (\<lambda>_. None)) sample_call = Some (l, Inr r)"
    "runs l = 1" "types_of l = [asc ''tool_call.started'', asc ''tool_call.completed'']"
  using sample_run_summary
  by (auto simp: summary_of_run_def sample_run_def split: option.splits prod.splits sum.splits)

lemma sample_authorised: "authorised sample_gateway (sample_world f) sample_call sample_tool JNull"
  by (simp add: authorised_def sample_gateway_def sample_world_def sample_call_def sample_tool_def parse_input_def
      default_approval_policy_def to_metadata_def resolved_risk_def Let_def)

lemma sample_policy:
  "max_attempts (resolve_tool_retry_policy (gc_retry sample_call) (td_retry sample_tool) (gw_default_retry sample_gateway))
     = Num (of_nat 2)"
  by (simp add: sample_call_def sample_tool_def sample_gateway_def resolve_tool_retry_policy_def layers_of_def
      default_tool_retry_policy_def)

theorem replace_category_atomic_witness:
  "gateway_wf (fst (replace_category (asc ''mcp:'') [sample_tool] (sample_gateway\<lparr>gw_tools := []\<rparr>)))"
proof -
  have wf: "gateway_wf (sample_gateway\<lparr>gw_tools := []\<rparr>)" by (simp add: gateway_wf_def)
  obtain g' where eq: "replace_category (asc ''mcp:'') [sample_tool] (sample_gateway\<lparr>gw_tools := []\<rparr>) = (g', Inr ())"
    by (simp add: replace_category_def)
  from conjunct1 [OF replace_category_atomic [OF wf, where p = "asc ''mcp:''" and ds = "[sample_tool]" and d = sample_tool]]
  show ?thesis unfolding eq by simp
qed

theorem unauthorised_call_never_runs_witness:
  "\<exists>d. om_get (gw_tools sample_gateway) (gc_name sample_call) = Some d"
proof -
  obtain l r where run: "gateway_call_tool 2 sample_gateway (sample_world (\<lambda>_. None)) sample_call = Some (l, Inr r)"
    by (rule sample_run_obtain)
  from unauthorised_call_never_runs [OF run] show ?thesis by blast
qed

theorem gateway_call_returns_witness:
  "\<exists>l out. gateway_call_tool 2 sample_gateway (sample_world (\<lambda>_. None)) sample_call = Some (l, out) \<and> runs l \<le> 2"
  by (rule gateway_call_returns [OF _ _ sample_policy]) (simp_all add: sample_gateway_def sample_call_def sample_tool_def)

theorem call_trace_shape_witness:
  "\<exists>l out. gateway_call_tool 2 sample_gateway (sample_world (\<lambda>_. None)) sample_call = Some (l, out)
     \<and> hd (map ev_type (logged l)) = asc ''tool_call.started''"
proof -
  obtain l r where run: "gateway_call_tool 2 sample_gateway (sample_world (\<lambda>_. None)) sample_call = Some (l, Inr r)"
    by (rule sample_run_obtain)
  have "reliable_store sample_gateway (sample_world (\<lambda>_. None))"
    by (simp add: reliable_store_def sample_gateway_def sample_world_def)
  from call_trace_shape [OF this run sample_authorised] have "hd (map ev_type (logged l)) = asc ''tool_call.started''"
    unfolding sample_policy by auto
  with run show ?thesis by blast
qed


end
