(* ===== verification/Tool_Scheduler.thy ===== *)
theory Tool_Scheduler
  imports Tool_Gateway
begin

text \<open>
  Scheduling of the tool calls of one model reply
  (\<open>executeScheduledToolCalls\<close> in \<open>packages/core/src/runtime/toolLoopShared.ts\<close>): independent reads
  the policy allows run concurrently in batches, everything else runs alone and in order.

  The gateway is an argument: \<open>inspect\<close> and, for the n-th call of the queue, the time and the
  outcome of \<open>gateway.call\<close>. \<open>Promise.all\<close> rejects with the rejection that comes first in time.
\<close>

definition default_max_parallel_read_tools :: jnum where
  "default_max_parallel_read_tools = Num 4"

definition is_independent_read :: "tool_metadata option \<Rightarrow> bool" where
  "is_independent_read t = (case t of
     None \<Rightarrow> False
   | Some m \<Rightarrow> tm_risk m = Read \<and> \<not> in_category (asc ''mcp:'') (tm_category m) \<and> tm_category m \<noteq> Some (asc ''process''))"

type_synonym inspector = "jstr \<Rightarrow> json \<Rightarrow> js_error + call_inspection"

text \<open>The inner loop: the calls taken from the front of the queue, \<open>k\<close> being taken already.\<close>

fun take_parallel ::
  "(jstr \<Rightarrow> tool_metadata option) \<Rightarrow> inspector \<Rightarrow> jnum \<Rightarrow> nat \<Rightarrow> tool_call list \<Rightarrow> js_error + tool_call list" where
  "take_parallel meta inspect room k [] = Inr []"
| "take_parallel meta inspect room k (c # q) =
     (if \<not> nat_less_jnum k room then Inr []
      else if \<not> is_independent_read (meta (call_name c)) then Inr []
      else (case inspect (call_name c) (call_input c) of
              Inl e \<Rightarrow> Inl e
            | Inr i \<Rightarrow>
              if action (in_approval i) \<noteq> Allow \<or> tm_risk (in_tool i) \<noteq> Read then Inr []
              else (case take_parallel meta inspect room (Suc k) q of
                      Inl e \<Rightarrow> Inl e | Inr cs \<Rightarrow> Inr (c # cs))))"

definition tool_message :: "tool_call \<Rightarrow> tool_result \<Rightarrow> message" where
  "tool_message c r = ToolMsg (call_id c) (call_name c) (tr_content r)"

text \<open>The batch started at position \<open>n\<close>, with the outcome of \<open>Promise.all\<close>.\<close>

type_synonym caller = "nat \<Rightarrow> tool_call \<Rightarrow> nat \<times> (js_error + tool_result)"

definition batch_outcome :: "caller \<Rightarrow> nat \<Rightarrow> tool_call list \<Rightarrow> js_error + message list" where
  "batch_outcome call n batch =
     (let results = map (\<lambda>(i, c). (c, call i c)) (zip [n..<n + length batch] batch)
      in case earliest (concat (map (\<lambda>(c, t, r). case r of Inl e \<Rightarrow> [(t, e)] | Inr _ \<Rightarrow> []) results)) of
           Some (t, e) \<Rightarrow> Inl e
         | None \<Rightarrow> Inr (concat (map (\<lambda>(c, t, r). case r of Inl e \<Rightarrow> [] | Inr x \<Rightarrow> [tool_message c x]) results)))"

text \<open>The outer loop; \<open>b\<close> counts batches (the signal is read before each). The batches started
  are returned with the outcome.\<close>

function execute_scheduled ::
  "(jstr \<Rightarrow> tool_metadata option) \<Rightarrow> inspector \<Rightarrow> caller \<Rightarrow> (nat \<Rightarrow> abort_state) \<Rightarrow> jnum \<Rightarrow> nat \<Rightarrow> nat \<Rightarrow> tool_call list
   \<Rightarrow> tool_call list list \<times> (js_error + message list)" where
  "execute_scheduled meta inspect call sig room b n [] = ([], Inr [])"
| "execute_scheduled meta inspect call sig room b n (c # q) =
     (case throw_if_aborted (sig b) of
        Inl e \<Rightarrow> ([], Inl e)
      | Inr _ \<Rightarrow>
        (case take_parallel meta inspect room 0 (c # q) of
           Inl e \<Rightarrow> ([], Inl e)
         | Inr parallel \<Rightarrow>
           (let batch = (if parallel \<noteq> [] then parallel else [c])
            in case batch_outcome call n batch of
                 Inl e \<Rightarrow> ([batch], Inl e)
               | Inr msgs \<Rightarrow>
                 (case execute_scheduled meta inspect call sig room (Suc b) (n + length batch)
                         (drop (length batch) (c # q)) of
                    (bs, Inl e) \<Rightarrow> (batch # bs, Inl e)
                  | (bs, Inr rest) \<Rightarrow> (batch # bs, Inr (msgs @ rest))))))"
  by pat_completeness auto

termination
  by (relation "measure (\<lambda>(meta, inspect, call, sig, room, b, n, q). length q)") auto

text \<open>The whole function: the metadata map of the listed tools, and \<open>Math.max(1, ...)\<close>.\<close>

definition execute_scheduled_tool_calls ::
  "tool_metadata list \<Rightarrow> inspector \<Rightarrow> caller \<Rightarrow> (nat \<Rightarrow> abort_state) \<Rightarrow> jnum option \<Rightarrow> tool_call list
   \<Rightarrow> tool_call list list \<times> (js_error + message list)" where
  "execute_scheduled_tool_calls tools inspect call sig room calls =
     execute_scheduled (om_get (om_put_all (map (\<lambda>t. (tm_name t, t)) tools) [])) inspect call sig
       (jnum_max 1 (case room of Some r \<Rightarrow> r | None \<Rightarrow> default_max_parallel_read_tools)) 0 0 calls"

section \<open>What a batch may contain\<close>

text \<open>
  The interface the scheduler relies on: a call that the inspection allows passes the checks of
  the gateway without an approval.
\<close>

locale inspected_gateway =
  fixes inspect :: inspector
    and permitted :: "jstr \<Rightarrow> json \<Rightarrow> bool"
  assumes inspect_permits: "inspect n i = Inr ins \<Longrightarrow> action (in_approval ins) = Allow \<Longrightarrow> permitted n i"
begin

lemma parallel_permitted:
  "take_parallel meta inspect room k q = Inr cs \<Longrightarrow> c \<in> set cs \<Longrightarrow>
   is_independent_read (meta (call_name c)) \<and> permitted (call_name c) (call_input c)"
proof (induction q arbitrary: k cs)
  case (Cons c' q)
  then show ?case by (auto split: if_splits sum.splits intro: inspect_permits)
qed simp

end

text \<open>The gateway of the previous theory provides it.\<close>

definition permitted_by :: "gateway \<Rightarrow> jstr \<Rightarrow> json \<Rightarrow> bool" where
  "permitted_by g n i \<longleftrightarrow> (case om_get (gw_tools g) n of
     None \<Rightarrow> False
   | Some d \<Rightarrow> (case parse_input d i of
        Inl _ \<Rightarrow> False
      | Inr v \<Rightarrow> action (gw_policy g (to_metadata d (resolved_risk d v)) v) = Allow))"

interpretation gw: inspected_gateway "inspect_call g" "permitted_by g" for g
  by unfold_locales (auto simp: inspect_call_def permitted_by_def Let_def split: option.splits sum.splits)

lemma permitted_runs:
  "permitted_by g (gc_name c) (gc_input c) \<Longrightarrow> abort_on_entry w = None \<Longrightarrow> \<exists>d v. authorised g w c d v"
  by (auto simp: permitted_by_def authorised_def Let_def split: option.splits sum.splits)

lemma take_parallel_prefix:
  "take_parallel meta inspect room k q = Inr cs \<Longrightarrow> cs = take (length cs) q"
  by (induction meta inspect room k q arbitrary: cs rule: take_parallel.induct) (auto split: if_splits sum.splits)

lemma take_parallel_length:
  "take_parallel meta inspect room k q = Inr cs \<Longrightarrow> cs \<noteq> [] \<Longrightarrow> nat_less_jnum (k + length cs - 1) room"
proof (induction meta inspect room k q arbitrary: cs rule: take_parallel.induct)
  case (2 meta inspect room k c q)
  then obtain ds i where cs: "cs = c # ds" and less: "nat_less_jnum k room"
    and ds: "take_parallel meta inspect room (Suc k) q = Inr ds"
    and ins: "inspect (call_name c) (call_input c) = Inr i" "action (in_approval i) = Allow" "tm_risk (in_tool i) = Read"
    and ind: "is_independent_read (meta (call_name c))"
    by (auto split: if_splits sum.splits)
  show ?case
  proof (cases ds)
    case Nil
    with less cs show ?thesis by simp
  next
    case (Cons d ds')
    with "2.IH" [of i ds] less ind ins ds have "nat_less_jnum (Suc k + length ds - 1) room" by simp
    then show ?thesis by (simp add: cs)
  qed
qed simp

text \<open>What holds of one batch of a schedule over the gateway \<open>g\<close>.\<close>

definition batch_ok :: "(jstr \<Rightarrow> tool_metadata option) \<Rightarrow> gateway \<Rightarrow> jnum \<Rightarrow> tool_call list \<Rightarrow> bool" where
  "batch_ok meta g room batch \<longleftrightarrow> batch \<noteq> [] \<and>
     (2 \<le> length batch \<longrightarrow> nat_less_jnum (length batch - 1) room \<and>
        (\<forall>c \<in> set batch. is_independent_read (meta (call_name c)) \<and> permitted_by g (call_name c) (call_input c)))"

lemma batch_outcome_ids:
  assumes "batch_outcome call n batch = Inr ms"
  shows "map answered_ids ms = map (\<lambda>c. [call_id c]) batch"
proof -
  define rs where "rs = map (\<lambda>(i, c). (c, call i c)) (zip [n..<n + length batch] batch)"
  note outcome = assms [unfolded batch_outcome_def Let_def, folded rs_def]
  have none: "concat (map (\<lambda>(c, t, r). case r of Inl e \<Rightarrow> [(t, e)] | Inr _ \<Rightarrow> []) rs) = []"
    using outcome unfolding earliest_None [symmetric] by (auto split: option.splits)
  have "map answered_ids (concat (map (\<lambda>(c, t, r). case r of Inl e \<Rightarrow> [] | Inr x \<Rightarrow> [tool_message c x]) rs)) =
      map (\<lambda>(c, _). [call_id c]) rs"
    if "concat (map (\<lambda>(c, t, r). case r of Inl e \<Rightarrow> [(t, e)] | Inr _ \<Rightarrow> []) rs) = []"
    for rs :: "(tool_call \<times> nat \<times> (js_error + tool_result)) list"
    using that by (induction rs) (auto simp: tool_message_def split: sum.splits)
  from this [OF none] have "map answered_ids ms = map (\<lambda>(c, _). [call_id c]) rs"
    using outcome unfolding none by simp
  also have "\<dots> = map (\<lambda>c. [call_id c]) (map snd (zip [n..<n + length batch] batch))"
    by (simp only: rs_def map_map) (simp add: comp_def case_prod_beta)
  finally show ?thesis by simp
qed

lemma execute_scheduled_spec:
  "execute_scheduled meta (inspect_call g) call sig room b n calls = (bs, out) \<Longrightarrow>
   (\<forall>batch \<in> set bs. batch_ok meta g room batch) \<and>
   (case out of
      Inl e \<Rightarrow> (\<exists>rest. calls = concat bs @ rest)
    | Inr ms \<Rightarrow> concat bs = calls \<and> map answered_ids ms = map (\<lambda>c. [call_id c]) calls)"
proof (induction meta "inspect_call g" call sig room b n calls arbitrary: bs out rule: execute_scheduled.induct)
  case (1 meta call sig room b n)
  then show ?case by auto
next
  case (2 meta call sig room b n c q)
  show ?case
  proof (cases "throw_if_aborted (sig b)")
    case (Inl e)
    with "2.prems" show ?thesis by auto
  next
    case (Inr u)
    note go = Inr
    show ?thesis
    proof (cases "take_parallel meta (inspect_call g) room 0 (c # q)")
      case (Inl e)
      with "2.prems" go show ?thesis by auto
    next
      case (Inr par)
      note takes = Inr
      define batch where "batch = (if par \<noteq> [] then par else [c])"
      have prefix: "c # q = batch @ drop (length batch) (c # q)"
        using take_parallel_prefix [OF Inr] by (auto simp: batch_def) (metis append_take_drop_id)
      have ok: "batch_ok meta g room batch"
        using take_parallel_length [OF Inr] gw.parallel_permitted [OF Inr] by (auto simp: batch_ok_def batch_def)
      show ?thesis
      proof (cases "batch_outcome call n batch")
        case (Inl e)
        then have "bs = [batch]" "out = Inl e"
          using "2.prems" go takes Inr by (simp_all add: batch_def [symmetric] Let_def del: take_parallel.simps)
        then show ?thesis using ok prefix by auto
      next
        case (Inr msgs)
        obtain bs' out' where rec: "execute_scheduled meta (inspect_call g) call sig room (Suc b) (n + length batch)
            (drop (length batch) (c # q)) = (bs', out')" by fastforce
        have ih: "(\<forall>batch \<in> set bs'. batch_ok meta g room batch) \<and>
           (case out' of
              Inl e \<Rightarrow> (\<exists>rest. drop (length batch) (c # q) = concat bs' @ rest)
            | Inr ms \<Rightarrow> concat bs' = drop (length batch) (c # q)
                \<and> map answered_ids ms = map (\<lambda>c. [call_id c]) (drop (length batch) (c # q)))"
          by (rule "2.hyps" [OF go takes _ Inr rec]) (simp add: batch_def)
        have "execute_scheduled meta (inspect_call g) call sig room b n (c # q) =
            (batch # bs', case out' of Inl e \<Rightarrow> Inl e | Inr rest \<Rightarrow> Inr (msgs @ rest))"
          using go takes Inr rec by (cases out') (simp_all add: batch_def [symmetric] Let_def del: take_parallel.simps)
        then have res: "bs = batch # bs'" "out = (case out' of Inl e \<Rightarrow> Inl e | Inr rest \<Rightarrow> Inr (msgs @ rest))"
          using "2.prems" by simp_all
        have "map (\<lambda>c. [call_id c]) (c # q) = map answered_ids msgs @ map (\<lambda>c. [call_id c]) (drop (length batch) (c # q))"
          using batch_outcome_ids [OF Inr] prefix by (metis map_append)
        then show ?thesis
          using ih ok prefix res by (auto split: sum.splits)
      qed
    qed
  qed
qed

text \<open>
  C19. The scheduler answers every call exactly once and in order: the batches it starts, laid
  end to end, are the requested calls (a prefix of them when it throws), and the messages it
  returns answer the call ids in the order of the request. Calls share a batch only when each is
  a read that is neither an MCP nor a process tool and the gateway permits it without asking,
  and only up to the configured number.
\<close>

theorem scheduler_answers_in_order:
  assumes "execute_scheduled_tool_calls tools (inspect_call g) call sig room calls = (bs, out)"
  shows "(case out of
      Inl e \<Rightarrow> (\<exists>rest. calls = concat bs @ rest)
    | Inr ms \<Rightarrow> concat bs = calls \<and> map answered_ids ms = map (\<lambda>c. [call_id c]) calls)
    \<and> (\<forall>batch \<in> set bs. 2 \<le> length batch \<longrightarrow>
        nat_less_jnum (length batch - 1) (jnum_max 1 (case room of Some r \<Rightarrow> r | None \<Rightarrow> Num 4)) \<and>
        (\<forall>c \<in> set batch. is_independent_read (om_get (om_put_all (map (\<lambda>t. (tm_name t, t)) tools) []) (call_name c))
          \<and> permitted_by g (call_name c) (call_input c)))"
  using execute_scheduled_spec [OF assms [unfolded execute_scheduled_tool_calls_def]]
  unfolding batch_ok_def default_max_parallel_read_tools_def by blast

definition read_calls :: "tool_call list" where
  "read_calls = map (\<lambda>i. \<lparr>call_id = [i], call_name = asc ''Read'', call_input = JNull\<rparr>) [1, 2, 3, 4, 5, 6]"

definition read_gateway :: gateway where
  "read_gateway = sample_gateway\<lparr>gw_tools := [(asc ''Read'', sample_tool\<lparr>tm_name := asc ''Read'', tm_risk := Read\<rparr>)]\<rparr>"

definition read_caller :: caller where
  "read_caller n c = (n, Inr \<lparr>tr_failed = False, tr_content = call_id c, tr_summary = [], tr_data = JUndefined\<rparr>)"

lemma read_schedule:
  "map length (fst (execute_scheduled_tool_calls (list_tools None read_gateway) (inspect_call read_gateway) read_caller (\<lambda>_. None) None read_calls)) = [4, 2]"
  by code_simp

theorem scheduler_answers_in_order_witness:
  "\<exists>out. (case out of
      Inl e \<Rightarrow> False
    | Inr ms \<Rightarrow> map answered_ids ms = [[[1]], [[2]], [[3]], [[4]], [[5]], [[6]]])
    \<and> snd (execute_scheduled_tool_calls (list_tools None read_gateway) (inspect_call read_gateway) read_caller (\<lambda>_. None) None read_calls) = out"
proof -
  obtain bs out where run: "execute_scheduled_tool_calls (list_tools None read_gateway) (inspect_call read_gateway) read_caller (\<lambda>_. None) None read_calls = (bs, out)"
    by fastforce
  have "isl (snd (execute_scheduled_tool_calls (list_tools None read_gateway) (inspect_call read_gateway) read_caller (\<lambda>_. None) None read_calls)) = False"
    by code_simp
  then obtain ms where "out = Inr ms" using run by (cases out) auto
  with conjunct1 [OF scheduler_answers_in_order [OF run]] run show ?thesis
    by (auto simp: read_calls_def)
qed

end
