(* ===== verification/Token_Budget.thy ===== *)
theory Token_Budget
  imports Tool_Types
begin

text \<open>
  Token accounting: the heuristic estimator with its calibration
  (\<open>packages/core/src/context/tokenEstimator.ts\<close>) and the context budget derived from the window of
  the model (\<open>packages/core/src/context/contextPolicy.ts\<close>). Calibration factors and window sizes
  are rationals; the caller's optional limits are numbers that may be NaN or infinite.
\<close>

section \<open>The estimator\<close>

definition is_cjk :: "nat \<Rightarrow> bool" where
  "is_cjk c \<longleftrightarrow> (19968 \<le> c \<and> c \<le> 40959) \<or> (13312 \<le> c \<and> c \<le> 19903) \<or> (12352 \<le> c \<and> c \<le> 12543)
     \<or> (44032 \<le> c \<and> c \<le> 55215)"

text \<open>
  The loop adds 1 or 0.25 per code point; the sum is kept in quarters. A surrogate pair is one
  code point, and no surrogate is in the ranges of the pattern.
\<close>

fun token_quarters :: "jstr \<Rightarrow> nat" where
  "token_quarters [] = 0"
| "token_quarters [c] = (if is_cjk c then 4 else 1)"
| "token_quarters (c # d # s) =
     (if is_high_surrogate c \<and> is_low_surrogate d then 1 + token_quarters s
      else (if is_cjk c then 4 else 1) + token_quarters (d # s))"

definition estimate_text_tokens :: "jstr \<Rightarrow> nat" where
  "estimate_text_tokens s = (token_quarters s + 3) div 4"

definition message_overhead_tokens :: nat where
  "message_overhead_tokens = 4"

definition tool_calls_text :: "(jnum \<Rightarrow> jstr) \<Rightarrow> tool_call list \<Rightarrow> jstr" where
  "tool_calls_text nt tcs = (case stringify nt (JArr (map tool_call_json tcs)) of Some t \<Rightarrow> t | None \<Rightarrow> [])"

definition estimate_message_tokens :: "(jnum \<Rightarrow> jstr) \<Rightarrow> message \<Rightarrow> nat" where
  "estimate_message_tokens nt m = message_overhead_tokens + (case m of
     ToolMsg i n c \<Rightarrow> estimate_text_tokens c + estimate_text_tokens n + estimate_text_tokens i
   | ChatMsg r c tcs \<Rightarrow> estimate_text_tokens c +
       (case tcs of Some (t # ts) \<Rightarrow> estimate_text_tokens (tool_calls_text nt (t # ts)) | _ \<Rightarrow> 0))"

definition estimate_messages_tokens :: "(jnum \<Rightarrow> jstr) \<Rightarrow> message list \<Rightarrow> nat" where
  "estimate_messages_tokens nt ms = foldl (\<lambda>sum m. sum + estimate_message_tokens nt m) 0 ms"

record token_estimator =
  calibration_factor :: rat
  min_factor :: rat
  max_factor :: rat
  ema_alpha :: rat

definition new_token_estimator :: "rat option \<Rightarrow> rat option \<Rightarrow> rat option \<Rightarrow> token_estimator" where
  "new_token_estimator mn mx al =
     \<lparr>calibration_factor = 1, min_factor = (case mn of Some x \<Rightarrow> x | None \<Rightarrow> 1 / 2),
      max_factor = (case mx of Some x \<Rightarrow> x | None \<Rightarrow> 2), ema_alpha = (case al of Some x \<Rightarrow> x | None \<Rightarrow> 3 / 10)\<rparr>"

definition scaled :: "token_estimator \<Rightarrow> nat \<Rightarrow> nat" where
  "scaled e raw = nat (max 0 (js_round (of_nat raw * calibration_factor e)))"

definition te_estimate :: "(jnum \<Rightarrow> jstr) \<Rightarrow> token_estimator \<Rightarrow> message list \<Rightarrow> nat" where
  "te_estimate nt e ms = scaled e (estimate_messages_tokens nt ms)"

definition te_estimate_message :: "(jnum \<Rightarrow> jstr) \<Rightarrow> token_estimator \<Rightarrow> message \<Rightarrow> nat" where
  "te_estimate_message nt e m = scaled e (estimate_message_tokens nt m)"

definition te_estimate_text :: "token_estimator \<Rightarrow> jstr \<Rightarrow> nat" where
  "te_estimate_text e s = scaled e (estimate_text_tokens s)"

definition clamp :: "rat \<Rightarrow> rat \<Rightarrow> rat \<Rightarrow> rat" where
  "clamp v mn mx = min mx (max mn v)"

definition te_calibrate :: "rat \<Rightarrow> rat \<Rightarrow> token_estimator \<Rightarrow> token_estimator" where
  "te_calibrate raw actual e =
     (if raw \<le> 0 \<or> actual \<le> 0 then e
      else let ratio = actual / raw;
               next = calibration_factor e * (1 - ema_alpha e) + ratio * ema_alpha e
           in e\<lparr>calibration_factor := clamp next (min_factor e) (max_factor e)\<rparr>)"

definition te_reset :: "token_estimator \<Rightarrow> token_estimator" where
  "te_reset e = e\<lparr>calibration_factor := 1\<rparr>"

section \<open>The context policy\<close>

definition default_context_window :: rat where
  "default_context_window = 256000"

record context_policy_options =
  o_context_window :: "rat option"
  o_is_subagent :: bool
  o_preserve_full_turns :: "jnum option"
  o_preserve_recent_tokens :: "jnum option"
  o_preserve_tool_iterations :: "jnum option"
  o_max_tool_result_tokens :: "jnum option"

record context_policy =
  context_window :: rat
  output_reserve :: rat
  input_budget :: int
  compact_threshold :: int
  tool_result_quota :: int
  preserve_full_turns :: int
  preserve_recent_tokens :: int
  preserve_tool_iterations :: int
  max_tool_result_tokens :: int

definition normalize_non_negative_int :: "jnum option \<Rightarrow> int \<Rightarrow> int" where
  "normalize_non_negative_int v fallback = (case v of Some (Num r) \<Rightarrow> if 0 \<le> r then \<lfloor>r\<rfloor> else fallback | _ \<Rightarrow> fallback)"

definition normalize_positive_int :: "jnum option \<Rightarrow> int option" where
  "normalize_positive_int v = (case v of Some (Num r) \<Rightarrow> if 0 < r then Some \<lfloor>r\<rfloor> else None | _ \<Rightarrow> None)"

definition create_context_policy :: "context_policy_options \<Rightarrow> context_policy" where
  "create_context_policy opt =
     (let window = (case o_context_window opt of Some w \<Rightarrow> w | None \<Rightarrow> default_context_window);
          reserve = min 32000 (of_int \<lfloor>window * (1 / 8)\<rfloor>);
          base = window - reserve;
          budget = \<lfloor>base * (if o_is_subagent opt then 1 / 2 else 1)\<rfloor>
      in \<lparr>context_window = window, output_reserve = reserve, input_budget = budget,
          compact_threshold = \<lfloor>(of_int budget :: rat) * (8 / 10)\<rfloor>,
          tool_result_quota = \<lfloor>(of_int budget :: rat) * (4 / 10)\<rfloor>,
          preserve_full_turns = normalize_non_negative_int (o_preserve_full_turns opt) 4,
          preserve_recent_tokens = (case normalize_positive_int (o_preserve_recent_tokens opt) of
              Some n \<Rightarrow> n | None \<Rightarrow> max 256 (min 20000 \<lfloor>(of_int budget :: rat) * (1 / 10)\<rfloor>)),
          preserve_tool_iterations = normalize_non_negative_int (o_preserve_tool_iterations opt) 2,
          max_tool_result_tokens = (case normalize_positive_int (o_max_tool_result_tokens opt) of
              Some n \<Rightarrow> n | None \<Rightarrow> 2000)\<rparr>)"

section \<open>Facts about the estimate\<close>

lemma token_quarters_Cons_le: "token_quarters s \<le> token_quarters (c # s) + 3"
  by (cases s rule: token_quarters.cases) (auto simp: is_high_surrogate_def is_low_surrogate_def is_cjk_def)

lemma token_quarters_bound: "token_quarters s \<le> 4 * length s"
  by (induction s rule: token_quarters.induct) auto

lemma estimate_text_bound: "estimate_text_tokens s \<le> length s"
  using token_quarters_bound [of s] by (simp add: estimate_text_tokens_def)

lemma estimate_text_positive: "s \<noteq> [] \<Longrightarrow> 0 < estimate_text_tokens s"
  by (cases s rule: token_quarters.cases) (auto simp: estimate_text_tokens_def)

text \<open>A text without CJK characters costs at most a quarter of a token per unit.\<close>

lemma token_quarters_ascii: "\<forall>c \<in> set s. \<not> is_cjk c \<Longrightarrow> token_quarters s \<le> length s"
  by (induction s rule: token_quarters.induct) auto

lemma token_quarters_cjk: "\<forall>c \<in> set s. is_cjk c \<Longrightarrow> token_quarters s = 4 * length s"
  by (induction s rule: token_quarters.induct) (auto simp: is_high_surrogate_def is_cjk_def)

lemma estimate_messages_sum: "estimate_messages_tokens nt ms = sum_list (map (estimate_message_tokens nt) ms)"
proof -
  have "foldl (\<lambda>sum m. sum + estimate_message_tokens nt m) a ms = a + sum_list (map (estimate_message_tokens nt) ms)" for a
    by (induction ms arbitrary: a) auto
  then show ?thesis by (simp add: estimate_messages_tokens_def)
qed

lemma scaled_mono: "0 \<le> calibration_factor e \<Longrightarrow> m \<le> n \<Longrightarrow> scaled e m \<le> scaled e n"
  unfolding scaled_def js_round_def
  by (intro nat_mono max.mono floor_mono order_refl add_right_mono mult_right_mono) simp_all

section \<open>Properties\<close>

definition well_bounded :: "token_estimator \<Rightarrow> bool" where
  "well_bounded e \<longleftrightarrow> min_factor e \<le> calibration_factor e \<and> calibration_factor e \<le> max_factor e
     \<and> 0 \<le> ema_alpha e \<and> ema_alpha e \<le> 1"

lemma clamp_bounds: "mn \<le> mx \<Longrightarrow> mn \<le> clamp v mn mx \<and> clamp v mn mx \<le> mx"
  by (simp add: clamp_def)

lemma clamp_nearer: "mn \<le> r \<Longrightarrow> r \<le> mx \<Longrightarrow> \<bar>clamp v mn mx - r\<bar> \<le> \<bar>v - r\<bar>"
  by (simp add: clamp_def min_def max_def abs_if)

lemma calibrate_well_bounded: "well_bounded e \<Longrightarrow> well_bounded (te_calibrate raw actual e)"
  using clamp_bounds [of "min_factor e" "max_factor e"] by (auto simp: well_bounded_def te_calibrate_def Let_def)

lemma calibrate_nearer:
  assumes "well_bounded e" and "0 < raw" and "0 < actual"
    and "min_factor e \<le> actual / raw" and "actual / raw \<le> max_factor e"
  shows "\<bar>calibration_factor (te_calibrate raw actual e) - actual / raw\<bar>
    \<le> (1 - ema_alpha e) * \<bar>calibration_factor e - actual / raw\<bar>"
proof -
  let ?r = "actual / raw" and ?f = "calibration_factor e" and ?a = "ema_alpha e"
  have "calibration_factor (te_calibrate raw actual e) = clamp (?f * (1 - ?a) + ?r * ?a) (min_factor e) (max_factor e)"
    using assms(2,3) by (simp add: te_calibrate_def Let_def)
  also have "\<bar>\<dots> - ?r\<bar> \<le> \<bar>(?f * (1 - ?a) + ?r * ?a) - ?r\<bar>"
    by (rule clamp_nearer) (use assms(4,5) in auto)
  also have "(?f * (1 - ?a) + ?r * ?a) - ?r = (1 - ?a) * (?f - ?r)"
    by (simp add: algebra_simps)
  also have "\<bar>\<dots>\<bar> = (1 - ?a) * \<bar>?f - ?r\<bar>"
    using assms(1) by (simp add: abs_mult well_bounded_def)
  finally show ?thesis .
qed

text \<open>
  C24. Calibration is a contraction towards the observed ratio: from a factor within its bounds,
  every update stays within the bounds whatever is observed, and n updates with a constant ratio
  inside the bounds shrink the distance to it by \<open>(1 - alpha) ^ n\<close>.
\<close>

theorem calibration_converges:
  assumes "well_bounded e"
  shows "well_bounded (te_calibrate raw actual e)
    \<and> (0 < raw \<and> 0 < actual \<and> min_factor e \<le> actual / raw \<and> actual / raw \<le> max_factor e \<longrightarrow>
       \<bar>calibration_factor ((te_calibrate raw actual ^^ n) e) - actual / raw\<bar>
         \<le> (1 - ema_alpha e) ^ n * \<bar>calibration_factor e - actual / raw\<bar>)"
proof -
  have "\<bar>calibration_factor ((te_calibrate raw actual ^^ n) e) - actual / raw\<bar>
         \<le> (1 - ema_alpha e) ^ n * \<bar>calibration_factor e - actual / raw\<bar>"
    if "0 < raw" "0 < actual" "min_factor e \<le> actual / raw" "actual / raw \<le> max_factor e"
  proof (induction n)
    case 0
    then show ?case by simp
  next
    case (Suc n)
    let ?e = "(te_calibrate raw actual ^^ n) e"
    have same: "well_bounded ?e \<and> min_factor ?e = min_factor e \<and> max_factor ?e = max_factor e \<and> ema_alpha ?e = ema_alpha e"
      by (induction n) (use assms calibrate_well_bounded in \<open>auto simp: te_calibrate_def Let_def\<close>)
    have "\<bar>calibration_factor (te_calibrate raw actual ?e) - actual / raw\<bar>
        \<le> (1 - ema_alpha e) * \<bar>calibration_factor ?e - actual / raw\<bar>"
      using calibrate_nearer [of ?e raw actual] same that by simp
    also have "\<dots> \<le> (1 - ema_alpha e) * ((1 - ema_alpha e) ^ n * \<bar>calibration_factor e - actual / raw\<bar>)"
      by (rule mult_left_mono [OF Suc.IH]) (use assms in \<open>simp add: well_bounded_def\<close>)
    finally show ?case by (simp add: mult.assoc)
  qed
  then show ?thesis using calibrate_well_bounded [OF assms] by blast
qed

theorem calibration_converges_witness:
  "well_bounded (te_calibrate 100 150 (new_token_estimator None None None))"
proof -
  have "well_bounded (new_token_estimator None None None)"
    by (simp add: well_bounded_def new_token_estimator_def)
  from conjunct1 [OF calibration_converges [OF this]] show ?thesis .
qed

lemma floor_share:
  fixes b :: int and k :: int
  assumes "0 \<le> b" and "0 \<le> k"
  shows "0 \<le> \<lfloor>(of_int b :: rat) * (of_int k / 10)\<rfloor> \<and> 10 * \<lfloor>(of_int b :: rat) * (of_int k / 10)\<rfloor> \<le> k * b"
proof -
  let ?x = "(of_int b :: rat) * (of_int k / 10)"
  have "of_int (10 * \<lfloor>?x\<rfloor>) \<le> 10 * ?x"
    using of_int_floor_le [of ?x] by (simp only: of_int_mult of_int_numeral mult_left_mono)
  also have "10 * ?x = of_int (k * b)" by simp
  finally have "10 * \<lfloor>?x\<rfloor> \<le> k * b" by (simp only: of_int_le_iff)
  moreover have "0 \<le> ?x" using assms by simp
  then have "0 \<le> \<lfloor>?x\<rfloor>" by (simp only: zero_le_floor)
  ultimately show ?thesis by blast
qed

lemma normalized_limits:
  "0 \<le> d \<Longrightarrow> 0 \<le> normalize_non_negative_int v d"
  "normalize_positive_int v = Some n \<Longrightarrow> 0 \<le> n"
  by (auto simp: normalize_non_negative_int_def normalize_positive_int_def split: option.splits jnum.splits if_splits)

lemma reserve_bounds:
  fixes w :: rat
  assumes "0 \<le> w"
  defines "r \<equiv> min 32000 (of_int \<lfloor>w * (1 / 8)\<rfloor>)"
  shows "0 \<le> r" and "r \<le> 32000" and "r \<le> w / 8"
proof -
  have "0 \<le> \<lfloor>w * (1 / 8)\<rfloor>" using assms(1) by (simp only: zero_le_floor)
  then show "0 \<le> r" by (simp add: r_def)
  show "r \<le> 32000" by (simp add: r_def)
  have "of_int \<lfloor>w * (1 / 8)\<rfloor> \<le> w / 8" using of_int_floor_le [of "w * (1 / 8)"] by simp
  then show "r \<le> w / 8" by (simp add: r_def min_def)
qed

lemma budget_bounds:
  fixes w r q :: rat
  assumes "0 \<le> w" and "r \<le> w / 8" and "0 \<le> q" and "q \<le> 1"
  shows "0 \<le> \<lfloor>(w - r) * q\<rfloor>" and "of_int \<lfloor>(w - r) * q\<rfloor> + r \<le> w"
proof -
  have pos: "0 \<le> w - r" using assms by simp
  then have "0 \<le> (w - r) * q" using assms by simp
  then show "0 \<le> \<lfloor>(w - r) * q\<rfloor>" by (simp only: zero_le_floor)
  have "of_int \<lfloor>(w - r) * q\<rfloor> \<le> (w - r) * q" by (rule of_int_floor_le)
  also have "\<dots> \<le> (w - r) * 1" by (rule mult_left_mono [OF assms(4) pos])
  finally show "of_int \<lfloor>(w - r) * q\<rfloor> + r \<le> w" by simp
qed


definition plain_options :: context_policy_options where
  "plain_options = \<lparr>o_context_window = None, o_is_subagent = True, o_preserve_full_turns = None,
     o_preserve_recent_tokens = Some NaN, o_preserve_tool_iterations = None, o_max_tool_result_tokens = Some (Num (1 / 2))\<rparr>"


end
