(* ===== verification/Conversation_Thread.thy ===== *)
theory Conversation_Thread
  imports Token_Budget JS_Regex
begin

text \<open>
  The message stream of a session (\<open>packages/core/src/context/conversationThread.ts\<close>): entries in
  order, the turns they belong to, the open turn, and the operations that append, interrupt,
  rewrite, export and restore them.

  The estimator is the parameter \<open>est\<close>, which gives the tokens of a message under the current
  calibration. The two counters are module-level variables of the source, shared by all threads;
  here they are part of the state. An id is never the empty string, so the truthiness tests of
  the source are tests for \<open>undefined\<close>.
\<close>

section \<open>State\<close>

datatype thread_entry_kind = UserEntry | AssistantEntry | ToolResultEntry | CompactionEntry | NoticeEntry

datatype turn_status = TurnOpen | TurnCommitted | TurnAborted

record thread_entry =
  en_id :: jstr
  en_turn :: jstr
  en_kind :: thread_entry_kind
  en_message :: message
  en_tokens :: nat
  en_elided :: "bool option"
  en_iteration :: "int option"
  en_summary :: "jstr option"
  en_original :: "nat option"

record thread =
  th_entries :: "thread_entry list"
  th_turns :: "(jstr, turn_status) omap"
  th_open :: "jstr option"
  th_iteration :: int
  entry_counter :: nat
  turn_counter :: nat

type_synonym estimate = "message \<Rightarrow> nat"

definition kind_text_of :: "thread_entry_kind \<Rightarrow> jstr" where
  "kind_text_of k = (case k of UserEntry \<Rightarrow> asc ''user'' | AssistantEntry \<Rightarrow> asc ''assistant''
     | ToolResultEntry \<Rightarrow> asc ''tool-result'' | CompactionEntry \<Rightarrow> asc ''compaction'' | NoticeEntry \<Rightarrow> asc ''notice'')"

definition entry_id :: "nat \<Rightarrow> jstr" where
  "entry_id n = asc ''entry-'' @ dec n"

definition turn_id :: "nat \<Rightarrow> jstr" where
  "turn_id n = asc ''turn-'' @ dec n"

definition new_thread :: "nat \<Rightarrow> nat \<Rightarrow> thread" where
  "new_thread ec tc = \<lparr>th_entries = [], th_turns = [], th_open = None, th_iteration = 0,
     entry_counter = ec, turn_counter = tc\<rparr>"

definition next_turn_id :: "thread \<Rightarrow> jstr \<times> thread" where
  "next_turn_id t = (turn_id (Suc (turn_counter t)), t\<lparr>turn_counter := Suc (turn_counter t)\<rparr>)"

definition new_entry :: "estimate \<Rightarrow> nat \<Rightarrow> jstr \<Rightarrow> thread_entry_kind \<Rightarrow> message \<Rightarrow> thread_entry" where
  "new_entry est n turn k m = \<lparr>en_id = entry_id n, en_turn = turn, en_kind = k, en_message = m,
     en_tokens = est m, en_elided = None, en_iteration = None, en_summary = None, en_original = None\<rparr>"

text \<open>\<open>appendEntry\<close>, with what the caller then stores in the new entry as \<open>f\<close>.\<close>

definition append_entry ::
  "estimate \<Rightarrow> jstr \<Rightarrow> thread_entry_kind \<Rightarrow> message \<Rightarrow> (thread_entry \<Rightarrow> thread_entry) \<Rightarrow> thread \<Rightarrow> thread" where
  "append_entry est turn k m f t =
     t\<lparr>th_entries := th_entries t @ [f (new_entry est (Suc (entry_counter t)) turn k m)],
       entry_counter := Suc (entry_counter t)\<rparr>"

definition set_status :: "jstr \<Rightarrow> turn_status \<Rightarrow> thread \<Rightarrow> thread" where
  "set_status turn st t =
     (if om_has (th_turns t) turn then t\<lparr>th_turns := om_set turn st (th_turns t)\<rparr> else t)"

definition system_notice_prefix :: jstr where
  "system_notice_prefix = [91, 31995, 32479, 36890, 30693, 93, 32]"

definition notice_message :: "jstr \<Rightarrow> message" where
  "notice_message s = ChatMsg RUser (system_notice_prefix @ s) None"

definition no_open_turn :: js_error where
  "no_open_turn = plain_error (asc ''No open turn'')"

section \<open>Turns\<close>

definition begin_turn :: "estimate \<Rightarrow> jstr \<Rightarrow> thread \<Rightarrow> (thread, js_error, jstr) outcome" where
  "begin_turn est input t =
     (if th_open t \<noteq> None then (t, Inl (plain_error (asc ''Cannot begin turn while another turn is open'')))
      else let (turn, t) = next_turn_id t;
               t = t\<lparr>th_turns := om_set turn TurnOpen (th_turns t), th_open := Some turn\<rparr>
           in (append_entry est turn UserEntry (ChatMsg RUser input None) id t, Inr turn))"

definition commit_turn :: "thread \<Rightarrow> (thread, js_error, unit) outcome" where
  "commit_turn t = (case th_open t of
     None \<Rightarrow> (t, Inl no_open_turn)
   | Some turn \<Rightarrow> ((set_status turn TurnCommitted t)\<lparr>th_open := None\<rparr>, Inr ()))"

definition abort_turn :: "estimate \<Rightarrow> jstr \<Rightarrow> thread \<Rightarrow> (thread, js_error, unit) outcome" where
  "abort_turn est reason t = (case th_open t of
     None \<Rightarrow> (t, Inl no_open_turn)
   | Some turn \<Rightarrow>
     ((set_status turn TurnAborted (append_entry est turn NoticeEntry (notice_message reason) id t))\<lparr>th_open := None\<rparr>,
      Inr ()))"

text \<open>\<open>removeUnmatchedToolCalls\<close>: the calls of one turn that no tool message of the turn answers.\<close>

definition turn_result_ids :: "thread_entry list \<Rightarrow> jstr \<Rightarrow> jstr list" where
  "turn_result_ids es turn = concat (map (\<lambda>e. if en_turn e = turn then answered_ids (en_message e) else []) es)"

definition prune_calls :: "estimate \<Rightarrow> jstr list \<Rightarrow> thread_entry \<Rightarrow> thread_entry" where
  "prune_calls est ids e = (case en_message e of
     ChatMsg RAssistant c (Some tcs) \<Rightarrow>
       (let matched = filter (\<lambda>tc. call_id tc \<in> set ids) tcs;
            m = ChatMsg RAssistant c (if matched \<noteq> [] then Some matched else None)
        in e\<lparr>en_message := m, en_tokens := est m\<rparr>)
   | _ \<Rightarrow> e)"

definition remove_unmatched_tool_calls :: "estimate \<Rightarrow> jstr \<Rightarrow> thread_entry list \<Rightarrow> thread_entry list" where
  "remove_unmatched_tool_calls est turn es =
     (let ids = turn_result_ids es turn in map (\<lambda>e. if en_turn e = turn then prune_calls est ids e else e) es)"

definition interrupt_turn :: "estimate \<Rightarrow> jstr \<Rightarrow> thread \<Rightarrow> (thread, js_error, unit) outcome" where
  "interrupt_turn est reason t = (case th_open t of
     None \<Rightarrow> (t, Inl no_open_turn)
   | Some turn \<Rightarrow> abort_turn est reason (t\<lparr>th_entries := remove_unmatched_tool_calls est turn (th_entries t)\<rparr>))"

section \<open>Appending\<close>

definition append_assistant :: "estimate \<Rightarrow> jstr \<Rightarrow> tool_call list \<Rightarrow> thread \<Rightarrow> (thread, js_error, unit) outcome" where
  "append_assistant est content calls t = (case th_open t of
     None \<Rightarrow> (t, Inl no_open_turn)
   | Some turn \<Rightarrow>
     (append_entry est turn AssistantEntry (ChatMsg RAssistant content (if calls \<noteq> [] then Some calls else None)) id t, Inr ()))"

definition append_tool_result ::
  "estimate \<Rightarrow> jstr \<Rightarrow> jstr \<Rightarrow> jstr \<Rightarrow> jstr option \<Rightarrow> int option \<Rightarrow> thread \<Rightarrow> (thread, js_error, unit) outcome" where
  "append_tool_result est cid name content summ iter t = (case th_open t of
     None \<Rightarrow> (t, Inl no_open_turn)
   | Some turn \<Rightarrow>
     (append_entry est turn ToolResultEntry (ToolMsg cid name content)
        (\<lambda>e. e\<lparr>en_iteration := Some (case iter of Some i \<Rightarrow> i | None \<Rightarrow> th_iteration t), en_summary := summ,
               en_original := Some (en_tokens e)\<rparr>) t, Inr ()))"

definition compaction_first_line :: jstr where
  "compaction_first_line = [91, 19978, 19979, 25991, 21387, 32553, 25688, 35201, 32, 8212, 32, 21482, 20316, 21382, 21490, 21442, 32771, 93]"

definition compaction_second_line :: jstr where
  "compaction_second_line = [26089, 21069, 23545, 35805, 24050, 21387, 32553, 20026, 25688, 35201, 12290, 23427, 19981, 26159, 24403, 21069, 20219, 21153, 25351, 20196, 65307, 35831, 20197, 26368, 26032, 29992, 25143, 28040, 24687, 20026, 20934, 12290]"

definition format_compaction_content :: "jstr \<Rightarrow> jstr" where
  "format_compaction_content summary =
     js_join [10] [compaction_first_line, compaction_second_line, js_trim summary, asc ''--- END OF CONTEXT SUMMARY ---'']"

definition compaction_message :: "jstr \<Rightarrow> message" where
  "compaction_message summary = ChatMsg RUser (format_compaction_content summary) None"

definition ensure_turn :: "jstr \<Rightarrow> thread \<Rightarrow> thread" where
  "ensure_turn turn t = (if om_has (th_turns t) turn then t else t\<lparr>th_turns := om_set turn TurnCommitted (th_turns t)\<rparr>)"

definition add_compaction :: "estimate \<Rightarrow> jstr \<Rightarrow> jstr option \<Rightarrow> thread \<Rightarrow> thread" where
  "add_compaction est summary given t =
     (let (turn, t) = (case given of Some x \<Rightarrow> (x, t)
                       | None \<Rightarrow> let (n, t) = next_turn_id t in (asc ''compaction-'' @ n, t))
      in append_entry est turn CompactionEntry (compaction_message summary) id (ensure_turn turn t))"

definition add_notice :: "estimate \<Rightarrow> jstr \<Rightarrow> thread \<Rightarrow> thread" where
  "add_notice est content t =
     (let (turn, t) = (case th_open t of Some x \<Rightarrow> (x, t)
                       | None \<Rightarrow> let (n, t) = next_turn_id t in (asc ''notice-'' @ n, t))
      in append_entry est turn NoticeEntry (notice_message content) id (ensure_turn turn t))"

section \<open>Reading\<close>

definition turn_ids_in_order :: "thread \<Rightarrow> jstr list" where
  "turn_ids_in_order t = uniq_first (map en_turn (th_entries t))"

definition entries_for_turn :: "jstr \<Rightarrow> thread \<Rightarrow> thread_entry list" where
  "entries_for_turn turn t = filter (\<lambda>e. en_turn e = turn) (th_entries t)"

definition turn_status_of :: "thread \<Rightarrow> jstr \<Rightarrow> turn_status option" where
  "turn_status_of t turn = om_get (th_turns t) turn"

definition committed_entries :: "thread \<Rightarrow> thread_entry list" where
  "committed_entries t =
     filter (\<lambda>e. turn_status_of t (en_turn e) = Some TurnCommitted \<or> turn_status_of t (en_turn e) = Some TurnAborted) (th_entries t)"

definition build_messages :: "thread \<Rightarrow> message list" where
  "build_messages t = map en_message (th_entries t)"

section \<open>Rewriting\<close>

definition remove_turn_entries :: "jstr list \<Rightarrow> thread \<Rightarrow> thread" where
  "remove_turn_entries turns t =
     t\<lparr>th_entries := filter (\<lambda>e. en_turn e \<notin> set turns) (th_entries t),
       th_turns := foldl (\<lambda>m x. om_del x m) (th_turns t) turns,
       th_open := (case th_open t of Some x \<Rightarrow> if x \<in> set turns then None else Some x | None \<Rightarrow> None)\<rparr>"

definition replace_prefix_with_compaction :: "estimate \<Rightarrow> int \<Rightarrow> jstr \<Rightarrow> thread \<Rightarrow> thread" where
  "replace_prefix_with_compaction est entry_count summary t =
     (let n = nat (max 0 (min entry_count (int (length (th_entries t)))))
      in if n = 0 then t
         else let removed = take n (th_entries t); rest = drop n (th_entries t);
                  gone = filter (\<lambda>x. x \<notin> set (map en_turn rest)) (uniq_first (map en_turn removed));
                  (k, t) = next_turn_id (t\<lparr>th_entries := rest, th_turns := foldl (\<lambda>m x. om_del x m) (th_turns t) gone\<rparr>);
                  turn = asc ''compaction-'' @ k;
                  e = new_entry est (Suc (entry_counter t)) turn CompactionEntry (compaction_message summary)
              in t\<lparr>th_turns := om_set turn TurnCommitted (th_turns t), th_entries := e # th_entries t,
                   entry_counter := Suc (entry_counter t)\<rparr>)"

text \<open>\<open>entries.find\<close> takes the first entry with the id; only that one is changed.\<close>

fun update_first :: "(thread_entry \<Rightarrow> bool) \<Rightarrow> (thread_entry \<Rightarrow> thread_entry) \<Rightarrow> thread_entry list \<Rightarrow> thread_entry list" where
  "update_first p f [] = []"
| "update_first p f (e # es) = (if p e then f e # es else e # update_first p f es)"

definition elide_entry :: "estimate \<Rightarrow> jstr \<Rightarrow> thread_entry \<Rightarrow> thread_entry" where
  "elide_entry est content e =
     (if en_kind e \<noteq> ToolResultEntry then e
      else case en_message e of
        ToolMsg i n c \<Rightarrow>
          e\<lparr>en_elided := Some True,
            en_original := Some (case en_original e of Some x \<Rightarrow> x | None \<Rightarrow> en_tokens e),
            en_message := ToolMsg i n content, en_tokens := est (ToolMsg i n content)\<rparr>
      | _ \<Rightarrow> e)"

definition elide_tool_result :: "estimate \<Rightarrow> jstr \<Rightarrow> jstr \<Rightarrow> thread \<Rightarrow> thread" where
  "elide_tool_result est i content t =
     t\<lparr>th_entries := update_first (\<lambda>e. en_id e = i) (elide_entry est content) (th_entries t)\<rparr>"

definition truncate_message :: "jstr \<Rightarrow> message \<Rightarrow> message" where
  "truncate_message content m = (case m of
     ToolMsg i n c \<Rightarrow> ToolMsg i n content
   | ChatMsg RAssistant c tcs \<Rightarrow> ChatMsg RAssistant content tcs
   | ChatMsg r c tcs \<Rightarrow> ChatMsg r content None)"

definition truncate_to :: "estimate \<Rightarrow> jstr \<Rightarrow> thread_entry \<Rightarrow> thread_entry" where
  "truncate_to est content e =
     e\<lparr>en_message := truncate_message content (en_message e), en_tokens := est (truncate_message content (en_message e))\<rparr>"

definition truncate_entry :: "estimate \<Rightarrow> jstr \<Rightarrow> jstr \<Rightarrow> thread \<Rightarrow> thread" where
  "truncate_entry est i content t =
     t\<lparr>th_entries := update_first (\<lambda>e. en_id e = i) (truncate_to est content) (th_entries t)\<rparr>"

definition reestimate_entry :: "estimate \<Rightarrow> thread_entry \<Rightarrow> thread_entry" where
  "reestimate_entry est e =
     (let n = est (en_message e) in
      if en_kind e = ToolResultEntry \<and> en_elided e \<noteq> Some True then e\<lparr>en_tokens := n, en_original := Some n\<rparr>
      else e\<lparr>en_tokens := n\<rparr>)"

definition reestimate_tokens :: "estimate \<Rightarrow> thread \<Rightarrow> thread" where
  "reestimate_tokens est t = t\<lparr>th_entries := map (reestimate_entry est) (th_entries t)\<rparr>"

definition clear_thread :: "thread \<Rightarrow> thread" where
  "clear_thread t = t\<lparr>th_entries := [], th_turns := [], th_open := None, th_iteration := 0\<rparr>"

section \<open>Export and restore\<close>

record serialized_entry =
  se_turn :: jstr
  se_kind :: thread_entry_kind
  se_message :: message
  se_elided :: "bool option"
  se_iteration :: "int option"
  se_summary :: "jstr option"
  se_original :: "nat option"

record thread_state =
  ts_version :: nat
  ts_entries :: "serialized_entry list"
  ts_turns :: "(jstr \<times> turn_status) list"
  ts_open :: "jstr option"
  ts_iteration :: jnum

definition serialize_entry :: "thread_entry \<Rightarrow> serialized_entry" where
  "serialize_entry e = \<lparr>se_turn = en_turn e, se_kind = en_kind e, se_message = en_message e, se_elided = en_elided e,
     se_iteration = en_iteration e, se_summary = en_summary e, se_original = en_original e\<rparr>"

definition export_state :: "thread \<Rightarrow> thread_state" where
  "export_state t = \<lparr>ts_version = 1, ts_entries = map serialize_entry (th_entries t), ts_turns = th_turns t,
     ts_open = th_open t, ts_iteration = Num (of_int (th_iteration t))\<rparr>"

definition is_entry_role_compatible :: "thread_entry_kind \<Rightarrow> message \<Rightarrow> bool" where
  "is_entry_role_compatible k m = (case k of
     AssistantEntry \<Rightarrow> is_assistant_msg m
   | ToolResultEntry \<Rightarrow> is_tool_msg m
   | _ \<Rightarrow> (case m of ChatMsg RUser _ _ \<Rightarrow> True | _ \<Rightarrow> False))"

text \<open>\<open>isConversationThreadState\<close>; its \<open>typeof\<close> tests hold by the types of the record.\<close>

definition is_conversation_thread_state :: "thread_state \<Rightarrow> bool" where
  "is_conversation_thread_state s \<longleftrightarrow>
     ts_version s = 1 \<and> jnum_finite (ts_iteration s)
     \<and> (let ids = map fst (ts_turns s); open_turns = filter (\<lambda>(x, st). st = TurnOpen) (ts_turns s)
        in (case ts_open s of Some x \<Rightarrow> x \<in> set ids | None \<Rightarrow> True)
           \<and> (case open_turns of
                [] \<Rightarrow> ts_open s = None
              | [(x, st)] \<Rightarrow> ts_open s = Some x
              | _ \<Rightarrow> False)
           \<and> list_all (\<lambda>e. se_turn e \<in> set ids \<and> is_entry_role_compatible (se_kind e) (se_message e)) (ts_entries s))"

text \<open>The loop over the saved turns: the id map and the thread with the renamed turns.\<close>

definition restore_turn ::
  "bool \<Rightarrow> jstr \<times> turn_status \<Rightarrow> (jstr, jstr) omap \<times> thread \<Rightarrow> (jstr, jstr) omap \<times> thread" where
  "restore_turn preserve turn st =
     (let (k, t) = next_turn_id (snd st)
      in (om_set (fst turn) k (fst st),
          t\<lparr>th_turns := om_set k (if snd turn = TurnOpen \<and> \<not> preserve then TurnAborted else snd turn) (th_turns t)\<rparr>))"

definition restore_turns :: "bool \<Rightarrow> (jstr \<times> turn_status) list \<Rightarrow> thread \<Rightarrow> (jstr, jstr) omap \<times> thread" where
  "restore_turns preserve turns t = foldl (\<lambda>st turn. restore_turn preserve turn st) ([], t) turns"

definition restore_entry :: "estimate \<Rightarrow> (jstr, jstr) omap \<Rightarrow> serialized_entry \<Rightarrow> thread \<Rightarrow> thread" where
  "restore_entry est ids s t = (case om_get ids (se_turn s) of
     None \<Rightarrow> t
   | Some turn \<Rightarrow>
     append_entry est turn (se_kind s) (se_message s)
       (\<lambda>e. e\<lparr>en_iteration := se_iteration s, en_summary := se_summary s, en_elided := se_elided s, en_original := se_original s\<rparr>) t)"

definition interrupted_notice :: jstr where
  "interrupted_notice = [19978, 27425, 20250, 35805, 22312, 26410, 23436, 25104, 36718, 27425, 20013, 26029, 65307, 24748, 31354, 24037, 20855, 35843, 29992, 24050, 21462, 28040, 65292, 35831, 37325, 26032, 30830, 35748, 21518, 32493, 25805, 20316, 12290]"

definition option_values :: "'a option list \<Rightarrow> 'a list" where
  "option_values xs = concat (map (\<lambda>x. case x of Some y \<Rightarrow> [y] | None \<Rightarrow> []) xs)"

definition jnum_int :: "jnum \<Rightarrow> int" where
  "jnum_int x = (case x of Num r \<Rightarrow> \<lfloor>r\<rfloor> | _ \<Rightarrow> 0)"

definition restore_state :: "estimate \<Rightarrow> bool \<Rightarrow> thread_state \<Rightarrow> thread \<Rightarrow> thread \<times> bool" where
  "restore_state est preserve s t =
     (if \<not> is_conversation_thread_state s then (t, False)
      else let (ids, t) = restore_turns preserve (ts_turns s) (clear_thread t);
               opened = option_values (map (\<lambda>(x, st). om_get ids x) (filter (\<lambda>(x, st). st = TurnOpen) (ts_turns s)));
               t = foldl (\<lambda>t e. restore_entry est ids e t) t (ts_entries s);
               t = (if preserve \<and> length opened = 1 then t\<lparr>th_open := Some (hd opened)\<rparr>
                    else t\<lparr>th_entries := foldl (\<lambda>es x. remove_unmatched_tool_calls est x es) (th_entries t) opened\<rparr>);
               t = (if opened \<noteq> [] \<and> \<not> preserve then add_notice est interrupted_notice t else t)
           in (t\<lparr>th_iteration := max 0 (jnum_int (ts_iteration s))\<rparr>, True))"

section \<open>Compaction texts and legacy sessions\<close>

definition legacy_compaction_marker :: jstr where
  "legacy_compaction_marker = asc ''[CONTEXT COMPACTION''"

definition is_line_end :: "nat \<Rightarrow> bool" where
  "is_line_end c \<longleftrightarrow> c = 10 \<or> c = 13 \<or> c = 8232 \<or> c = 8233"

text \<open>
  The replacement of \<open>/^...$/m\<close> in \<open>extractCompactionBody\<close>: its pattern is a fixed text followed by
  any number of ideographic full stops up to the end of a line; the first such line is emptied.
\<close>

definition marker_text :: jstr where
  "marker_text = [26089, 21069, 23545, 35805, 24050, 21387, 32553, 20026, 25688, 35201]"

fun drop_marker_line :: "bool \<Rightarrow> jstr \<Rightarrow> jstr" where
  "drop_marker_line line_start [] = []"
| "drop_marker_line line_start (c # s) =
     (let rest = dropWhile (\<lambda>d. d = 12290) (drop (length marker_text) (c # s))
      in if line_start \<and> js_starts_with marker_text (c # s) \<and> (rest = [] \<or> is_line_end (hd rest)) then rest
         else c # drop_marker_line (is_line_end c) s)"

text \<open>\<open>replace(/\n{2,}/g, '\n')\<close>.\<close>

fun squeeze_newlines :: "jstr \<Rightarrow> jstr" where
  "squeeze_newlines [] = []"
| "squeeze_newlines [c] = [c]"
| "squeeze_newlines (c # d # s) = (if c = 10 \<and> d = 10 then squeeze_newlines (d # s) else c # squeeze_newlines (d # s))"

definition extract_compaction_body :: "jstr \<Rightarrow> jstr" where
  "extract_compaction_body content =
     (case js_index_from ([21482, 20316, 21382, 21490, 21442, 32771, 93]) content 0 of
        None \<Rightarrow> js_trim content
      | Some start \<Rightarrow>
        (case js_index_from [10] content start of
           None \<Rightarrow> js_trim content
         | Some body_start \<Rightarrow>
           (let body = (case js_index_from (asc ''--- END OF CONTEXT SUMMARY'') content 0 of
                          Some e \<Rightarrow> if body_start < e then drop (body_start + 1) (take e content) else drop (body_start + 1) content
                        | None \<Rightarrow> drop (body_start + 1) content)
            in js_trim (squeeze_newlines (drop_marker_line True body)))))"

record legacy_result =
  restored_turn_count :: nat
  converted_compaction :: bool

text \<open>\<open>restoreFromConversation\<close>; a message is its author (is it the assistant?) and its content.\<close>

definition legacy_turn :: "estimate \<Rightarrow> jstr \<Rightarrow> thread \<Rightarrow> jstr \<times> thread" where
  "legacy_turn est content t =
     (let (turn, t) = next_turn_id t
      in (turn, append_entry est turn UserEntry (ChatMsg RUser content None) id (t\<lparr>th_turns := om_set turn TurnCommitted (th_turns t)\<rparr>)))"

fun restore_conversation :: "estimate \<Rightarrow> (bool \<times> jstr) list \<Rightarrow> thread \<times> legacy_result \<Rightarrow> thread \<times> legacy_result" where
  "restore_conversation est [] st = st"
| "restore_conversation est ((assistant, content) # ms) (t, r) =
     (if assistant \<and> js_includes legacy_compaction_marker content then
        restore_conversation est ms (add_compaction est (extract_compaction_body content) None t, r\<lparr>converted_compaction := True\<rparr>)
      else if assistant then restore_conversation est ms (t, r)
      else let (turn, t) = legacy_turn est content t; r = r\<lparr>restored_turn_count := Suc (restored_turn_count r)\<rparr>
           in (case ms of
                 (True, reply) # rest \<Rightarrow>
                   restore_conversation est rest
                     (if js_includes legacy_compaction_marker reply then t
                      else append_entry est turn AssistantEntry (ChatMsg RAssistant reply None) id t, r)
               | _ \<Rightarrow> restore_conversation est ms (t, r)))"

definition restore_from_conversation :: "estimate \<Rightarrow> (bool \<times> jstr) list \<Rightarrow> thread \<Rightarrow> thread \<times> legacy_result" where
  "restore_from_conversation est ms t =
     restore_conversation est ms (clear_thread t, \<lparr>restored_turn_count = 0, converted_compaction = False\<rparr>)"

section \<open>Well-formed threads\<close>

text \<open>Fresh ids: the names the counter \<open>k\<close> gives rise to, in the three forms the source uses.\<close>

definition turn_name :: "nat \<Rightarrow> jstr \<Rightarrow> bool" where
  "turn_name k x \<longleftrightarrow> x = turn_id k \<or> x = asc ''compaction-'' @ turn_id k \<or> x = asc ''notice-'' @ turn_id k"

lemma entry_id_inject [simp]: "entry_id m = entry_id n \<longleftrightarrow> m = n"
  by (simp add: entry_id_def)

lemma turn_id_inject [simp]: "turn_id m = turn_id n \<longleftrightarrow> m = n"
  by (simp add: turn_id_def)

lemma turn_name_heads:
  "hd (turn_id m) = 116" "hd (asc ''compaction-'' @ s) = 99" "hd (asc ''notice-'' @ s) = 110"
proof -
  have heads: "hd (asc ''turn-'') = 116" "hd (asc ''compaction-'') = 99" "hd (asc ''notice-'') = 110"
    by code_simp+
  show "hd (turn_id m) = 116" "hd (asc ''compaction-'' @ s) = 99" "hd (asc ''notice-'' @ s) = 110"
    unfolding turn_id_def heads [symmetric] by (simp_all add: hd_append)
qed

lemma turn_name_unique:
  assumes "turn_name j x" and "turn_name k x"
  shows "j = k"
proof -
  have "(x = turn_id m \<and> hd x = 116) \<or> (x = asc ''compaction-'' @ turn_id m \<and> hd x = 99)
      \<or> (x = asc ''notice-'' @ turn_id m \<and> hd x = 110)" if "turn_name m x" for m
    using that turn_name_heads by (auto simp: turn_name_def)
  from this [OF assms(1)] this [OF assms(2)] show ?thesis by auto
qed

definition turns_wf :: "nat \<Rightarrow> (jstr, turn_status) omap \<Rightarrow> jstr option \<Rightarrow> bool" where
  "turns_wf tc turns opened \<longleftrightarrow> om_wf turns
     \<and> (\<forall>x \<in> fst ` set turns. \<exists>k \<le> tc. turn_name k x)
     \<and> (\<forall>x. om_get turns x = Some TurnOpen \<longleftrightarrow> opened = Some x)"

definition entries_wf :: "nat \<Rightarrow> jstr set \<Rightarrow> thread_entry list \<Rightarrow> bool" where
  "entries_wf ec turns es \<longleftrightarrow> distinct (map en_id es)
     \<and> (\<forall>e \<in> set es. (\<exists>k \<le> ec. en_id e = entry_id k) \<and> en_turn e \<in> turns
          \<and> is_entry_role_compatible (en_kind e) (en_message e))"

definition thread_wf :: "thread \<Rightarrow> bool" where
  "thread_wf t \<longleftrightarrow> turns_wf (turn_counter t) (th_turns t) (th_open t)
     \<and> entries_wf (entry_counter t) (fst ` set (th_turns t)) (th_entries t)"

lemma turns_wf_fresh: "turns_wf tc turns opened \<Longrightarrow> turn_name (Suc tc) x \<Longrightarrow> x \<notin> fst ` set turns"
  unfolding turns_wf_def using turn_name_unique by (metis Suc_n_not_le_n)

lemma turns_wf_open: "turns_wf tc turns (Some x) \<Longrightarrow> x \<in> fst ` set turns"
  unfolding turns_wf_def by (metis map_of_SomeD fst_conv image_eqI)

lemma turns_wf_add:
  assumes "turns_wf tc turns opened" and "turn_name (Suc tc) x" and "st = TurnOpen \<Longrightarrow> opened = None"
  shows "turns_wf (Suc tc) (om_set x st turns) (if st = TurnOpen then Some x else opened)"
proof -
  note fresh = turns_wf_fresh [OF assms(1,2)]
  have "om_get turns x = None" using fresh by (simp add: map_of_eq_None_iff)
  moreover have "opened \<noteq> Some x" using turns_wf_open fresh assms(1) by blast
  ultimately show ?thesis
    using assms by (auto simp: turns_wf_def map_of_om_set le_Suc_eq)
qed

lemma turns_wf_mono: "turns_wf tc turns opened \<Longrightarrow> turns_wf (Suc tc) turns opened"
  by (auto simp: turns_wf_def le_Suc_eq)

lemma turns_wf_close:
  assumes "turns_wf tc turns (Some x)" and "st \<noteq> TurnOpen"
  shows "turns_wf tc (om_set x st turns) None"
  using assms turns_wf_open [OF assms(1)] by (auto simp: turns_wf_def map_of_om_set)

lemma turns_wf_del:
  assumes "turns_wf tc turns opened"
  shows "turns_wf tc (om_del x turns) (if opened = Some x then None else opened)"
  using assms by (auto simp: turns_wf_def map_of_om_del)

lemma turns_wf_dels:
  assumes "turns_wf tc turns opened"
  shows "turns_wf tc (foldl (\<lambda>m x. om_del x m) turns xs)
    (case opened of Some x \<Rightarrow> if x \<in> set xs then None else Some x | None \<Rightarrow> None)"
  using assms
proof (induction xs arbitrary: turns opened)
  case Nil
  then show ?case by (auto split: option.split)
next
  case (Cons x xs)
  from Cons.IH [OF turns_wf_del [OF Cons.prems, of x]] show ?case
    by (auto split: option.splits if_splits)
qed

lemma keys_dels: "fst ` set (foldl (\<lambda>m x. om_del x m) turns xs) = fst ` set turns - set xs"
  by (induction xs arbitrary: turns) auto

lemma entries_wf_append:
  assumes "entries_wf ec turns es" and "en_id e = entry_id (Suc ec)" and "en_turn e \<in> turns"
    and "is_entry_role_compatible (en_kind e) (en_message e)"
  shows "entries_wf (Suc ec) turns (es @ [e])"
proof -
  have "entry_id (Suc ec) \<notin> en_id ` set es"
    using assms(1) unfolding entries_wf_def by (metis (mono_tags, lifting) Suc_n_not_le_n entry_id_inject imageE)
  then show ?thesis using assms by (auto simp: entries_wf_def le_Suc_eq)
qed

lemma entries_wf_Cons:
  assumes "entries_wf ec turns es" and "en_id e = entry_id (Suc ec)" and "en_turn e \<in> turns"
    and "is_entry_role_compatible (en_kind e) (en_message e)"
  shows "entries_wf (Suc ec) turns (e # es)"
proof -
  have "entry_id (Suc ec) \<notin> en_id ` set es"
    using assms(1) unfolding entries_wf_def by (metis (mono_tags, lifting) Suc_n_not_le_n entry_id_inject imageE)
  then show ?thesis using assms by (auto simp: entries_wf_def le_Suc_eq)
qed

lemma entries_wf_mono: "entries_wf ec turns es \<Longrightarrow> turns \<subseteq> turns' \<Longrightarrow> entries_wf ec turns' es"
  by (auto simp: entries_wf_def)

text \<open>Rewriting entries in place: ids, turns and kinds stay, the role still fits the kind.\<close>

definition keeps_shape :: "(thread_entry \<Rightarrow> thread_entry) \<Rightarrow> bool" where
  "keeps_shape f \<longleftrightarrow> (\<forall>e. en_id (f e) = en_id e \<and> en_turn (f e) = en_turn e \<and> en_kind (f e) = en_kind e
     \<and> (is_entry_role_compatible (en_kind e) (en_message e) \<longrightarrow> is_entry_role_compatible (en_kind e) (en_message (f e))))"

lemma map_en_id_update: "keeps_shape f \<Longrightarrow> map en_id (update_first p f es) = map en_id es"
  by (induction es) (auto simp: keeps_shape_def)

lemma entries_wf_map:
  assumes "\<forall>e \<in> set es. \<exists>g. keeps_shape g \<and> f e = g e" and "entries_wf ec turns es"
  shows "entries_wf ec turns (map f es)"
proof -
  have "map en_id (map f es) = map en_id es"
    using assms(1) by (auto simp: keeps_shape_def)
  moreover have "(\<exists>k \<le> ec. en_id (f e) = entry_id k) \<and> en_turn (f e) \<in> turns
      \<and> is_entry_role_compatible (en_kind (f e)) (en_message (f e))" if "e \<in> set es" for e
    using assms that unfolding keeps_shape_def entries_wf_def by metis
  ultimately show ?thesis using assms(2) unfolding entries_wf_def by (metis (no_types, lifting) imageE list.set_map)
qed

lemma set_update_first: "e \<in> set (update_first p f es) \<Longrightarrow> e \<in> set es \<or> (\<exists>e' \<in> set es. e = f e')"
  by (induction es) (auto split: if_splits)

lemma entries_wf_update: "keeps_shape f \<Longrightarrow> entries_wf ec turns es \<Longrightarrow> entries_wf ec turns (update_first p f es)"
  unfolding entries_wf_def by (auto simp: map_en_id_update dest!: set_update_first) (auto simp: keeps_shape_def)

lemma keeps_shape_elide: "keeps_shape (elide_entry est c)"
  by (auto simp: keeps_shape_def elide_entry_def is_entry_role_compatible_def split: message.splits)

lemma keeps_shape_truncate: "keeps_shape (truncate_to est c)"
proof -
  have "is_entry_role_compatible k m \<Longrightarrow> is_entry_role_compatible k (truncate_message c m)" for k m
    by (cases m) (auto simp: truncate_message_def is_entry_role_compatible_def split: thread_entry_kind.splits chat_role.splits)
  then show ?thesis by (simp add: keeps_shape_def truncate_to_def)
qed

lemma keeps_shape_reestimate: "keeps_shape (reestimate_entry est)"
  by (simp add: keeps_shape_def reestimate_entry_def Let_def)

lemma keeps_shape_prune: "keeps_shape (prune_calls est ids)"
proof -
  have "is_entry_role_compatible k (ChatMsg RAssistant c tcs) \<Longrightarrow> is_entry_role_compatible k (ChatMsg RAssistant c tcs')" for k c tcs tcs'
    by (cases k) (simp_all add: is_entry_role_compatible_def)
  then show ?thesis
    by (auto simp: keeps_shape_def prune_calls_def Let_def split: message.split chat_role.split option.split)
qed

lemmas keeps_shape_rewrites = keeps_shape_elide keeps_shape_truncate keeps_shape_reestimate keeps_shape_prune

text \<open>Turns are contiguous in the entries, and the open turn comes last.\<close>

definition turn_linear :: "thread_entry list \<Rightarrow> jstr option \<Rightarrow> bool" where
  "turn_linear es opened \<longleftrightarrow> distinct (remdups_adj (map en_turn es))
     \<and> (\<forall>x. opened = Some x \<longrightarrow> es \<noteq> [] \<and> en_turn (last es) = x)"

definition thread_inv :: "thread \<Rightarrow> bool" where
  "thread_inv t \<longleftrightarrow> thread_wf t \<and> turn_linear (th_entries t) (th_open t)"

lemma remdups_adj_snoc:
  "remdups_adj (xs @ [x]) = (if xs \<noteq> [] \<and> last xs = x then remdups_adj xs else remdups_adj xs @ [x])"
  by (cases xs rule: rev_cases) (auto simp: remdups_adj_append_two)

lemma linear_snoc_same: "turn_linear es opened \<Longrightarrow> opened = Some (en_turn e) \<Longrightarrow> turn_linear (es @ [e]) opened"
  by (auto simp: turn_linear_def remdups_adj_snoc last_map)

lemma linear_snoc_fresh:
  "turn_linear es None \<Longrightarrow> en_turn e \<notin> en_turn ` set es \<Longrightarrow> turn_linear (es @ [e]) (if b then Some (en_turn e) else None)"
  by (auto simp: turn_linear_def remdups_adj_snoc last_map)

lemma linear_None: "turn_linear es opened \<Longrightarrow> turn_linear es None"
  by (simp add: turn_linear_def)

lemma distinct_remdups_adj_drop: "distinct (remdups_adj xs) \<Longrightarrow> distinct (remdups_adj (drop n xs))"
proof (induction xs arbitrary: n)
  case (Cons x xs)
  have "distinct (remdups_adj xs)"
    using Cons.prems by (cases xs) (auto split: if_splits)
  with Cons show ?case by (cases n) auto
qed simp

lemma hd_remdups_adj_tl: "remdups_adj (x # xs) = x # tl (remdups_adj (x # xs))"
  by (metis list.sel(1) list.sel(3) remdups_adj_Cons_alt)

lemma distinct_remdups_adj_filter:
  "distinct (remdups_adj xs) \<Longrightarrow> distinct (remdups_adj (filter (\<lambda>x. x \<notin> S) xs))"
proof (induction xs rule: remdups_adj.induct)
  case (3 x y xs)
  show ?case
  proof (cases "x = y")
    case True
    with 3 show ?thesis by auto
  next
    case False
    with "3.prems" have d: "distinct (remdups_adj (y # xs))" "x \<notin> set (y # xs)" by auto
    have ih: "distinct (remdups_adj (filter (\<lambda>x. x \<notin> S) (y # xs)))" using "3.IH"(2) [OF False d(1)] .
    show ?thesis
    proof (cases "x \<in> S")
      case True
      with ih show ?thesis by simp
    next
      case False
      have "x \<notin> set (filter (\<lambda>x. x \<notin> S) (y # xs))" using d(2) by auto
      then have "remdups_adj (x # filter (\<lambda>x. x \<notin> S) (y # xs)) = x # remdups_adj (filter (\<lambda>x. x \<notin> S) (y # xs))"
        by (cases "filter (\<lambda>x. x \<notin> S) (y # xs)") auto
      then show ?thesis using False ih \<open>x \<notin> set (filter (\<lambda>x. x \<notin> S) (y # xs))\<close> by simp
    qed
  qed
qed auto

lemma linear_same_turns: "map en_turn es' = map en_turn es \<Longrightarrow> turn_linear es' opened = turn_linear es opened"
  unfolding turn_linear_def by (metis (no_types, opaque_lifting) last_map list.map_disc_iff)

lemma map_en_turn_update: "keeps_shape f \<Longrightarrow> map en_turn (update_first p f es) = map en_turn es"
  by (induction es) (auto simp: keeps_shape_def)

section \<open>Every operation keeps a thread well formed\<close>

lemma thread_invI:
  "turns_wf (turn_counter t) (th_turns t) (th_open t) \<Longrightarrow>
   entries_wf (entry_counter t) (fst ` set (th_turns t)) (th_entries t) \<Longrightarrow>
   turn_linear (th_entries t) (th_open t) \<Longrightarrow> thread_inv t"
  by (simp add: thread_inv_def thread_wf_def)

lemma thread_invD:
  assumes "thread_inv t"
  shows "turns_wf (turn_counter t) (th_turns t) (th_open t)"
    and "entries_wf (entry_counter t) (fst ` set (th_turns t)) (th_entries t)"
    and "turn_linear (th_entries t) (th_open t)"
  using assms by (simp_all add: thread_inv_def thread_wf_def)

lemma fresh_turn: "thread_inv t \<Longrightarrow> turn_name (Suc (turn_counter t)) x \<Longrightarrow> x \<notin> en_turn ` set (th_entries t)"
proof
  assume inv: "thread_inv t" and "turn_name (Suc (turn_counter t)) x" "x \<in> en_turn ` set (th_entries t)"
  then have "x \<in> fst ` set (th_turns t)" using thread_invD(2) [OF inv] by (auto simp: entries_wf_def)
  then show False using turns_wf_fresh [OF thread_invD(1) [OF inv]] \<open>turn_name (Suc (turn_counter t)) x\<close> by blast
qed

definition plain_update :: "(thread_entry \<Rightarrow> thread_entry) \<Rightarrow> bool" where
  "plain_update f \<longleftrightarrow> (\<forall>e. en_id (f e) = en_id e \<and> en_turn (f e) = en_turn e \<and> en_kind (f e) = en_kind e \<and> en_message (f e) = en_message e)"

lemma plain_update_id [simp]: "plain_update id"
  by (simp add: plain_update_def)

lemma append_open_inv:
  assumes "thread_inv t" and "th_open t = Some turn" and "is_entry_role_compatible k m" and "plain_update f"
  shows "thread_inv (append_entry est turn k m f t)"
  using assms thread_invD [OF assms(1)] turns_wf_open
  by (intro thread_invI)
    (auto simp: append_entry_def new_entry_def plain_update_def intro!: entries_wf_append linear_snoc_same)

text \<open>Appending to a turn that is new, open or closed.\<close>

lemma append_fresh_inv:
  assumes "thread_inv t" and "th_open t = None" and "turn_name (Suc (turn_counter t)) turn"
    and "is_entry_role_compatible k m"
  shows "thread_inv (append_entry est turn k m id
    (t\<lparr>turn_counter := Suc (turn_counter t), th_turns := om_set turn st (th_turns t),
       th_open := (if st = TurnOpen then Some turn else None)\<rparr>))"
proof (intro thread_invI)
  note inv = thread_invD [OF assms(1)]
  let ?t = "append_entry est turn k m id
    (t\<lparr>turn_counter := Suc (turn_counter t), th_turns := om_set turn st (th_turns t),
       th_open := (if st = TurnOpen then Some turn else None)\<rparr>)"
  show "turns_wf (turn_counter ?t) (th_turns ?t) (th_open ?t)"
    using turns_wf_add [OF inv(1) assms(3), of st] assms(2) by (cases "st = TurnOpen") (simp_all add: append_entry_def)
  show "entries_wf (entry_counter ?t) (fst ` set (th_turns ?t)) (th_entries ?t)"
    using entries_wf_mono [OF inv(2)] assms(4)
    by (auto simp: append_entry_def new_entry_def intro!: entries_wf_append)
  show "turn_linear (th_entries ?t) (th_open ?t)"
    using linear_snoc_fresh [of "th_entries t" "new_entry est (Suc (entry_counter t)) turn k m" "st = TurnOpen"]
      inv(3) assms(2) fresh_turn [OF assms(1,3)]
    by (cases "st = TurnOpen") (simp_all add: append_entry_def new_entry_def)
qed

lemma append_closed_inv:
  assumes "thread_inv t" and "th_open t = None" and "turn_name (Suc (turn_counter t)) turn"
    and "is_entry_role_compatible k m" and "st \<noteq> TurnOpen"
  shows "thread_inv (append_entry est turn k m id
    (t\<lparr>turn_counter := Suc (turn_counter t), th_turns := om_set turn st (th_turns t)\<rparr>))"
proof -
  have "t\<lparr>turn_counter := Suc (turn_counter t), th_turns := om_set turn st (th_turns t), th_open := None\<rparr>
      = t\<lparr>turn_counter := Suc (turn_counter t), th_turns := om_set turn st (th_turns t)\<rparr>"
    using assms(2) by (cases t) simp
  then show ?thesis using append_fresh_inv [OF assms(1-4), of est st] assms(5) by simp
qed

lemma close_turn_inv:
  assumes "thread_inv t" and "th_open t = Some turn" and "st \<noteq> TurnOpen"
  shows "thread_inv ((set_status turn st t)\<lparr>th_open := None\<rparr>)"
proof (intro thread_invI)
  note inv = thread_invD [OF assms(1)]
  have has: "om_has (th_turns t) turn"
    using turns_wf_open inv(1) assms(2) by (auto simp: om_has_def)
  let ?t = "(set_status turn st t)\<lparr>th_open := None\<rparr>"
  show "turns_wf (turn_counter ?t) (th_turns ?t) (th_open ?t)"
    using turns_wf_close inv(1) assms(2,3) has by (simp add: set_status_def)
  show "entries_wf (entry_counter ?t) (fst ` set (th_turns ?t)) (th_entries ?t)"
    using entries_wf_mono [OF inv(2)] has by (auto simp: set_status_def)
  show "turn_linear (th_entries ?t) (th_open ?t)"
    using linear_None [OF inv(3)] by (simp add: set_status_def)
qed

lemma map_entries_inv:
  assumes "thread_inv t" and "\<forall>e \<in> set (th_entries t). \<exists>g. keeps_shape g \<and> f e = g e"
  shows "thread_inv (t\<lparr>th_entries := map f (th_entries t)\<rparr>)"
proof -
  have "map en_turn (map f (th_entries t)) = map en_turn (th_entries t)"
    using assms(2) by (auto simp: keeps_shape_def)
  note same = linear_same_turns [OF this]
  show ?thesis
    using thread_invD [OF assms(1)] entries_wf_map [OF assms(2)]
    by (intro thread_invI) (simp_all add: same)
qed

lemma update_entries_inv:
  "thread_inv t \<Longrightarrow> keeps_shape f \<Longrightarrow> thread_inv (t\<lparr>th_entries := update_first p f (th_entries t)\<rparr>)"
  using entries_wf_update linear_same_turns [OF map_en_turn_update]
  by (intro thread_invI) (auto dest: thread_invD)

lemma keeps_shape_id: "keeps_shape (\<lambda>e. e)"
  by (simp add: keeps_shape_def)

lemma prune_inv: "thread_inv t \<Longrightarrow> thread_inv (t\<lparr>th_entries := remove_unmatched_tool_calls est turn (th_entries t)\<rparr>)"
  unfolding remove_unmatched_tool_calls_def Let_def
  by (rule map_entries_inv) (auto intro: keeps_shape_rewrites keeps_shape_id)

lemma role_compatible_simps [simp]:
  "is_entry_role_compatible UserEntry (ChatMsg RUser c None)"
  "is_entry_role_compatible NoticeEntry (notice_message s)"
  "is_entry_role_compatible CompactionEntry (compaction_message s)"
  "is_entry_role_compatible AssistantEntry (ChatMsg RAssistant c tcs)"
  "is_entry_role_compatible ToolResultEntry (ToolMsg i n c)"
  by (simp_all add: is_entry_role_compatible_def notice_message_def compaction_message_def)

lemma turn_name_simps [simp]:
  "turn_name k (turn_id k)" "turn_name k (asc ''compaction-'' @ turn_id k)" "turn_name k (asc ''notice-'' @ turn_id k)"
  by (simp_all add: turn_name_def)

lemma new_thread_inv: "thread_inv (new_thread ec tc)"
  by (intro thread_invI) (simp_all add: new_thread_def turns_wf_def entries_wf_def turn_linear_def)

lemma clear_inv: "thread_inv (clear_thread t)"
  by (intro thread_invI) (simp_all add: clear_thread_def turns_wf_def entries_wf_def turn_linear_def)

lemma begin_inv: "thread_inv t \<Longrightarrow> thread_inv (fst (begin_turn est input t))"
  using append_fresh_inv [of t "turn_id (Suc (turn_counter t))" UserEntry "ChatMsg RUser input None" est TurnOpen]
  by (auto simp: begin_turn_def next_turn_id_def)

lemma commit_inv: "thread_inv t \<Longrightarrow> thread_inv (fst (commit_turn t))"
  by (auto simp: commit_turn_def close_turn_inv split: option.split)

lemma append_open_same: "th_open (append_entry est turn k m f t) = th_open t"
  by (simp add: append_entry_def)

lemma abort_inv: "thread_inv t \<Longrightarrow> thread_inv (fst (abort_turn est reason t))"
  by (auto simp: abort_turn_def append_open_same intro!: close_turn_inv append_open_inv split: option.split)

lemma interrupt_inv: "thread_inv t \<Longrightarrow> thread_inv (fst (interrupt_turn est reason t))"
  by (auto simp: interrupt_turn_def intro!: abort_inv prune_inv split: option.split)

lemma append_assistant_inv: "thread_inv t \<Longrightarrow> thread_inv (fst (append_assistant est c tcs t))"
  by (auto simp: append_assistant_def intro!: append_open_inv split: option.split)

lemma append_tool_result_inv: "thread_inv t \<Longrightarrow> thread_inv (fst (append_tool_result est i n c s it t))"
  by (auto simp: append_tool_result_def plain_update_def intro!: append_open_inv split: option.split)

lemma fresh_not_has: "thread_inv t \<Longrightarrow> turn_name (Suc (turn_counter t)) x \<Longrightarrow> \<not> om_has (th_turns t) x"
  using turns_wf_fresh [OF thread_invD(1)] by (auto simp: om_has_def)

lemma add_notice_inv: "thread_inv t \<Longrightarrow> thread_inv (add_notice est s t)"
proof (cases "th_open t")
  case None
  assume inv: "thread_inv t"
  have "add_notice est s t = append_entry est (asc ''notice-'' @ turn_id (Suc (turn_counter t))) NoticeEntry (notice_message s) id
      (t\<lparr>turn_counter := Suc (turn_counter t), th_turns := om_set (asc ''notice-'' @ turn_id (Suc (turn_counter t))) TurnCommitted (th_turns t)\<rparr>)"
    using None fresh_not_has [OF inv, of "asc ''notice-'' @ turn_id (Suc (turn_counter t))"]
    by (simp add: add_notice_def next_turn_id_def ensure_turn_def)
  then show ?thesis
    using append_closed_inv [OF inv None, of "asc ''notice-'' @ turn_id (Suc (turn_counter t))" NoticeEntry "notice_message s" TurnCommitted est]
    by simp
next
  case (Some x)
  assume inv: "thread_inv t"
  then have "om_has (th_turns t) x" using turns_wf_open thread_invD(1) [OF inv] Some by (auto simp: om_has_def)
  then show ?thesis
    using append_open_inv [OF inv Some, of NoticeEntry "notice_message s" id est] Some
    by (simp add: add_notice_def ensure_turn_def)
qed

lemma add_compaction_inv: "thread_inv t \<Longrightarrow> th_open t = None \<Longrightarrow> thread_inv (add_compaction est s None t)"
proof -
  assume inv: "thread_inv t" and none: "th_open t = None"
  have "add_compaction est s None t = append_entry est (asc ''compaction-'' @ turn_id (Suc (turn_counter t))) CompactionEntry (compaction_message s) id
      (t\<lparr>turn_counter := Suc (turn_counter t), th_turns := om_set (asc ''compaction-'' @ turn_id (Suc (turn_counter t))) TurnCommitted (th_turns t)\<rparr>)"
    using none fresh_not_has [OF inv, of "asc ''compaction-'' @ turn_id (Suc (turn_counter t))"]
    by (simp add: add_compaction_def next_turn_id_def ensure_turn_def)
  then show ?thesis
    using append_closed_inv [OF inv none, of "asc ''compaction-'' @ turn_id (Suc (turn_counter t))" CompactionEntry "compaction_message s" TurnCommitted est]
    by simp
qed

lemma elide_inv: "thread_inv t \<Longrightarrow> thread_inv (elide_tool_result est i c t)"
  unfolding elide_tool_result_def by (intro update_entries_inv keeps_shape_rewrites)

lemma truncate_inv: "thread_inv t \<Longrightarrow> thread_inv (truncate_entry est i c t)"
  unfolding truncate_entry_def by (intro update_entries_inv keeps_shape_rewrites)

lemma reestimate_inv: "thread_inv t \<Longrightarrow> thread_inv (reestimate_tokens est t)"
  unfolding reestimate_tokens_def by (rule map_entries_inv) (auto intro: keeps_shape_rewrites)

lemma iteration_inv: "thread_inv t \<Longrightarrow> thread_inv (t\<lparr>th_iteration := n\<rparr>)"
  by (simp add: thread_inv_def thread_wf_def)

lemma remove_turn_entries_inv: "thread_inv t \<Longrightarrow> thread_inv (remove_turn_entries turns t)"
proof (intro thread_invI)
  assume tinv: "thread_inv t"
  note inv = thread_invD [OF tinv]
  let ?t = "remove_turn_entries turns t"
  show "turns_wf (turn_counter ?t) (th_turns ?t) (th_open ?t)"
    using turns_wf_dels [OF inv(1)] by (simp add: remove_turn_entries_def)
  show "entries_wf (entry_counter ?t) (fst ` set (th_turns ?t)) (th_entries ?t)"
    using inv(2) by (auto simp: remove_turn_entries_def keys_dels entries_wf_def distinct_map_filter)
  have "map en_turn (filter (\<lambda>e. en_turn e \<notin> set turns) (th_entries t)) = filter (\<lambda>x. x \<notin> set turns) (map en_turn (th_entries t))"
    by (simp add: filter_map comp_def)
  moreover have "filter (\<lambda>e. en_turn e \<notin> set turns) (th_entries t) \<noteq> [] \<and>
      en_turn (last (filter (\<lambda>e. en_turn e \<notin> set turns) (th_entries t))) = x"
    if "th_open t = Some x" "x \<notin> set turns" for x
  proof -
    have "th_entries t \<noteq> []" "en_turn (last (th_entries t)) = x"
      using inv(3) that(1) by (simp_all add: turn_linear_def)
    then obtain es e where "th_entries t = es @ [e]" "en_turn e = x"
      by (metis append_butlast_last_id)
    with that(2) show ?thesis by simp
  qed
  ultimately show "turn_linear (th_entries ?t) (th_open ?t)"
    using distinct_remdups_adj_filter [of "map en_turn (th_entries t)" "set turns"] inv(3)
    by (cases "th_open t") (simp_all add: remove_turn_entries_def turn_linear_def)
qed

lemma linear_drop:
  assumes "turn_linear es opened" and "\<forall>x. opened = Some x \<longrightarrow> n < length es"
  shows "turn_linear (drop n es) opened"
proof -
  have "distinct (remdups_adj (map en_turn (drop n es)))"
    using assms(1) distinct_remdups_adj_drop [of "map en_turn es" n] by (simp add: turn_linear_def drop_map)
  moreover have "last (drop n es) = last es" if "n < length es" using that by (rule last_drop)
  ultimately show ?thesis using assms by (cases opened) (simp_all add: turn_linear_def)
qed

lemma linear_Cons_fresh:
  assumes "turn_linear es opened" and "en_turn e \<notin> en_turn ` set es" and "opened = None \<or> es \<noteq> []"
  shows "turn_linear (e # es) opened"
proof -
  have "remdups_adj (en_turn e # map en_turn es) = en_turn e # remdups_adj (map en_turn es)"
    using assms(2) by (cases es) auto
  then show ?thesis using assms by (auto simp: turn_linear_def)
qed

text \<open>
  The prefix that is replaced must leave the open turn alone; the governor chooses it that way.
\<close>

definition spares_open_turn :: "int \<Rightarrow> thread \<Rightarrow> bool" where
  "spares_open_turn n t \<longleftrightarrow> (\<forall>x. th_open t = Some x \<longrightarrow> x \<notin> en_turn ` set (take (nat n) (th_entries t)))"

lemma replace_prefix_inv:
  assumes tinv: "thread_inv t" and spare: "spares_open_turn n t"
  shows "thread_inv (replace_prefix_with_compaction est n s t)"
proof -
  note inv = thread_invD [OF tinv]
  define k where "k = nat (max 0 (min n (int (length (th_entries t)))))"
  show ?thesis
  proof (cases "k = 0")
    case True
    then show ?thesis using tinv by (simp add: replace_prefix_with_compaction_def k_def [symmetric])
  next
    case False
    define rest where "rest = drop k (th_entries t)"
    define gone where "gone = filter (\<lambda>x. x \<notin> set (map en_turn rest)) (uniq_first (map en_turn (take k (th_entries t))))"
    define turn where "turn = asc ''compaction-'' @ turn_id (Suc (turn_counter t))"
    define kept where "kept = foldl (\<lambda>m x. om_del x m) (th_turns t) gone"
    have same_take: "take k (th_entries t) = take (nat n) (th_entries t)"
    proof (cases "int (length (th_entries t)) \<le> n")
      case True
      then show ?thesis by (simp add: k_def)
    next
      case False
      then have "k = nat n" by (simp add: k_def min_def max_def)
      then show ?thesis by simp
    qed
    have open_kept: "th_open t = Some x \<Longrightarrow> x \<notin> set gone" for x
      using spare same_take by (auto simp: gone_def spares_open_turn_def)
    have turns: "turns_wf (turn_counter t) kept (th_open t)"
      using turns_wf_dels [OF inv(1), of gone] open_kept by (auto simp: kept_def split: option.splits)
    have name: "turn_name (Suc (turn_counter t)) turn" by (simp add: turn_def)
    have fresh: "turn \<notin> en_turn ` set (th_entries t)" by (rule fresh_turn [OF tinv name])
    have res: "replace_prefix_with_compaction est n s t =
        t\<lparr>th_entries := new_entry est (Suc (entry_counter t)) turn CompactionEntry (compaction_message s) # rest,
          th_turns := om_set turn TurnCommitted kept, entry_counter := Suc (entry_counter t), turn_counter := Suc (turn_counter t)\<rparr>"
      using False by (simp add: replace_prefix_with_compaction_def k_def [symmetric] Let_def next_turn_id_def rest_def
          gone_def turn_def kept_def)
    have "k < length (th_entries t)" if "th_open t = Some x" for x
    proof (rule ccontr)
      assume "\<not> k < length (th_entries t)"
      then have "take (nat n) (th_entries t) = th_entries t" using same_take by simp
      moreover have "x \<in> en_turn ` set (th_entries t)"
        using inv(3) that by (auto simp: turn_linear_def)
      ultimately show False using spare that by (auto simp: spares_open_turn_def)
    qed
    then have lin: "turn_linear rest (th_open t)" unfolding rest_def by (intro linear_drop inv(3)) auto
    moreover have "turn \<notin> en_turn ` set rest" using fresh by (auto simp: rest_def dest: in_set_dropD)
    moreover have "th_open t = None \<or> rest \<noteq> []" using lin by (cases "th_open t") (auto simp: turn_linear_def)
    ultimately have lin': "turn_linear (new_entry est (Suc (entry_counter t)) turn CompactionEntry (compaction_message s) # rest) (th_open t)"
      by (intro linear_Cons_fresh) (simp_all add: new_entry_def)
    have "entries_wf (entry_counter t) (fst ` set (om_set turn TurnCommitted kept)) rest"
    proof -
      have "en_turn e \<in> fst ` set kept" if "e \<in> set rest" for e
      proof -
        have "en_turn e \<in> fst ` set (th_turns t)"
          using that inv(2) by (auto simp: rest_def entries_wf_def dest: in_set_dropD)
        moreover have "en_turn e \<notin> set gone" using that by (auto simp: gone_def)
        ultimately show ?thesis by (simp add: kept_def keys_dels)
      qed
      moreover have "distinct (map en_id rest)"
        using inv(2) by (simp add: rest_def entries_wf_def distinct_drop flip: drop_map)
      ultimately show ?thesis
        using inv(2) by (auto simp: rest_def entries_wf_def dest: in_set_dropD)
    qed
    then have "entries_wf (Suc (entry_counter t)) (fst ` set (om_set turn TurnCommitted kept))
        (new_entry est (Suc (entry_counter t)) turn CompactionEntry (compaction_message s) # rest)"
      by (rule entries_wf_Cons) (simp_all add: new_entry_def)
    then show ?thesis
      using turns_wf_add [OF turns name, of TurnCommitted] lin' unfolding res
      by (intro thread_invI) simp_all
  qed
qed

section \<open>Restoring\<close>

text \<open>The new name of a saved turn: the turns are numbered from the counter on, in their order.\<close>

definition renaming :: "nat \<Rightarrow> (jstr \<times> turn_status) list \<Rightarrow> (jstr, jstr) omap" where
  "renaming c turns = zip (map fst turns) (map turn_id [Suc c..<Suc c + length turns])"

definition restored_status :: "bool \<Rightarrow> turn_status \<Rightarrow> turn_status" where
  "restored_status preserve st = (if st = TurnOpen \<and> \<not> preserve then TurnAborted else st)"

lemma renaming_snoc:
  "renaming c (turns @ [x]) = renaming c turns @ [(fst x, turn_id (Suc c + length turns))]"
proof -
  have "[Suc c..<Suc c + length (turns @ [x])] = [Suc c..<Suc c + length turns] @ [Suc c + length turns]" by simp
  then show ?thesis unfolding renaming_def by (simp del: upt_Suc)
qed

lemma renaming_keys: "map fst (renaming c turns) = map fst turns"
  unfolding renaming_def by (rule map_fst_zip) (simp del: upt_Suc)

lemma renaming_values: "map snd (renaming c turns) = map turn_id [Suc c..<Suc c + length turns]"
  unfolding renaming_def by (rule map_snd_zip) (simp del: upt_Suc)

lemma restore_turns_eq:
  assumes "distinct (map fst turns)" and "th_turns t = []"
  shows "restore_turns preserve turns t =
    (renaming (turn_counter t) turns,
     t\<lparr>turn_counter := turn_counter t + length turns,
       th_turns := zip (map snd (renaming (turn_counter t) turns)) (map (restored_status preserve \<circ> snd) turns)\<rparr>)"
  using assms(1)
proof (induction turns rule: rev_induct)
  case Nil
  then show ?case using assms(2) by (cases t) (simp add: restore_turns_def renaming_def)
next
  case (snoc x turns)
  let ?c = "turn_counter t" and ?new = "turn_id (Suc (turn_counter t + length turns))"
  let ?old = "zip (map snd (renaming ?c turns)) (map (restored_status preserve \<circ> snd) turns)"
  have ih: "restore_turns preserve turns t = (renaming ?c turns, t\<lparr>turn_counter := ?c + length turns, th_turns := ?old\<rparr>)"
    by (rule snoc.IH) (use snoc.prems in simp)
  have "fst x \<notin> set (map fst (renaming ?c turns))" using snoc.prems by (simp add: renaming_keys)
  then have set1: "om_set (fst x) ?new (renaming ?c turns) = renaming ?c turns @ [(fst x, ?new)]"
    by (rule om_set_absent)
  have "map fst ?old = map turn_id [Suc ?c..<Suc ?c + length turns]"
    by (simp add: renaming_values del: upt_Suc)
  then have "?new \<notin> set (map fst ?old)" by (simp only:) auto
  then have set2: "om_set ?new (restored_status preserve (snd x)) ?old = ?old @ [(?new, restored_status preserve (snd x))]"
    by (rule om_set_absent)
  have len: "length (renaming ?c turns) = length turns" by (simp add: renaming_def del: upt_Suc)
  have "restore_turns preserve (turns @ [x]) t = restore_turn preserve x (restore_turns preserve turns t)"
    by (simp add: restore_turns_def)
  also have "\<dots> = (renaming ?c turns @ [(fst x, ?new)],
      t\<lparr>turn_counter := Suc (?c + length turns), th_turns := ?old @ [(?new, restored_status preserve (snd x))]\<rparr>)"
    unfolding ih restore_turn_def using set1 set2 by (simp add: next_turn_id_def restored_status_def)
  finally show ?case by (simp add: renaming_snoc len comp_def)
qed

definition restored_entry :: "estimate \<Rightarrow> (jstr, jstr) omap \<Rightarrow> nat \<Rightarrow> serialized_entry \<Rightarrow> thread_entry" where
  "restored_entry est ids n s =
     (new_entry est n (the (om_get ids (se_turn s))) (se_kind s) (se_message s))
       \<lparr>en_iteration := se_iteration s, en_summary := se_summary s, en_elided := se_elided s, en_original := se_original s\<rparr>"

lemma restore_entries_eq:
  assumes "\<forall>s \<in> set es. se_turn s \<in> fst ` set ids"
  shows "foldl (\<lambda>t e. restore_entry est ids e t) t es =
    t\<lparr>th_entries := th_entries t @ map2 (restored_entry est ids) [Suc (entry_counter t)..<Suc (entry_counter t) + length es] es,
      entry_counter := entry_counter t + length es\<rparr>"
  using assms
proof (induction es rule: rev_induct)
  case Nil
  then show ?case by (cases t) simp
next
  case (snoc s es)
  obtain x where x: "om_get ids (se_turn s) = Some x"
    using snoc.prems by (metis in_set_conv_decomp map_of_eq_None_iff not_Some_eq)
  have "[Suc (entry_counter t)..<Suc (entry_counter t) + length (es @ [s])]
      = [Suc (entry_counter t)..<Suc (entry_counter t) + length es] @ [Suc (entry_counter t) + length es]" by simp
  then show ?case
    using snoc x by (simp add: restore_entry_def append_entry_def restored_entry_def new_entry_def del: upt_Suc)
qed

lemma distinct_remdups_adj_map:
  "inj_on f (set xs) \<Longrightarrow> remdups_adj (map f xs) = map f (remdups_adj xs)"
  by (induction xs rule: remdups_adj.induct) (auto simp: inj_on_def)

lemma renaming_inj:
  assumes "distinct (map fst turns)"
  shows "inj_on (\<lambda>x. the (om_get (renaming c turns) x)) (fst ` set turns)"
proof -
  have d: "distinct (map snd (renaming c turns))"
    by (simp add: renaming_values distinct_map inj_on_def del: upt_Suc)
  have mem: "(x, the (om_get (renaming c turns) x)) \<in> set (renaming c turns)" if "x \<in> fst ` set turns" for x
  proof -
    have "x \<in> fst ` set (renaming c turns)" using that renaming_keys by (metis list.set_map)
    then obtain y where "om_get (renaming c turns) x = Some y"
      by (metis map_of_eq_None_iff not_Some_eq)
    then show ?thesis by (simp add: map_of_SomeD)
  qed
  show ?thesis
  proof (rule inj_onI)
    fix x y assume "x \<in> fst ` set turns" "y \<in> fst ` set turns"
      and "the (om_get (renaming c turns) x) = the (om_get (renaming c turns) y)"
    with mem [of x] mem [of y] d show "x = y" by (metis distinct_map fst_conv inj_onD snd_conv)
  qed
qed

text \<open>The saved entries are contiguous by turn, and the open turn, when it stays open, is last.\<close>

definition state_linear :: "bool \<Rightarrow> thread_state \<Rightarrow> bool" where
  "state_linear preserve s \<longleftrightarrow> distinct (map fst (ts_turns s)) \<and> distinct (remdups_adj (map se_turn (ts_entries s)))
     \<and> (preserve \<longrightarrow> (\<forall>x. ts_open s = Some x \<longrightarrow> ts_entries s \<noteq> [] \<and> se_turn (last (ts_entries s)) = x))"

text \<open>The thread after the turns and entries have been read back, before the open turn is treated.\<close>

definition restored_core :: "estimate \<Rightarrow> bool \<Rightarrow> thread_state \<Rightarrow> thread \<Rightarrow> thread" where
  "restored_core est preserve s t =
     (let ids = renaming (turn_counter t) (ts_turns s); n = length (ts_entries s)
      in (clear_thread t)\<lparr>turn_counter := turn_counter t + length (ts_turns s),
           th_turns := zip (map snd ids) (map (restored_status preserve \<circ> snd) (ts_turns s)),
           th_entries := map2 (restored_entry est ids) [Suc (entry_counter t)..<Suc (entry_counter t) + n] (ts_entries s),
           entry_counter := entry_counter t + n\<rparr>)"

lemma valid_state_turns:
  assumes "is_conversation_thread_state s"
  shows "\<forall>e \<in> set (ts_entries s). se_turn e \<in> fst ` set (ts_turns s) \<and> is_entry_role_compatible (se_kind e) (se_message e)"
    and "filter (\<lambda>(x, st). st = TurnOpen) (ts_turns s) = (case ts_open s of None \<Rightarrow> [] | Some x \<Rightarrow> [(x, TurnOpen)])"
proof -
  define F where "F = filter (\<lambda>(x, st). st = TurnOpen) (ts_turns s)"
  have "case F of [] \<Rightarrow> ts_open s = None | [(x, st)] \<Rightarrow> ts_open s = Some x | _ \<Rightarrow> False"
    using assms by (simp add: is_conversation_thread_state_def Let_def F_def)
  moreover have "\<forall>p \<in> set F. snd p = TurnOpen" by (auto simp: F_def)
  ultimately have "F = (case ts_open s of None \<Rightarrow> [] | Some x \<Rightarrow> [(x, TurnOpen)])"
    by (auto split: list.splits)
  then show "filter (\<lambda>(x, st). st = TurnOpen) (ts_turns s) = (case ts_open s of None \<Rightarrow> [] | Some x \<Rightarrow> [(x, TurnOpen)])"
    by (simp add: F_def)
qed (use assms in \<open>simp add: is_conversation_thread_state_def Let_def list_all_iff\<close>)

lemma restored_core_eq:
  assumes "is_conversation_thread_state s" and "distinct (map fst (ts_turns s))"
  shows "(case restore_turns preserve (ts_turns s) (clear_thread t) of
      (ids, t1) \<Rightarrow> foldl (\<lambda>t e. restore_entry est ids e t) t1 (ts_entries s)) = restored_core est preserve s t"
    and "fst (restore_turns preserve (ts_turns s) (clear_thread t)) = renaming (turn_counter t) (ts_turns s)"
proof -
  have t0: "th_turns (clear_thread t) = []" "turn_counter (clear_thread t) = turn_counter t"
    "entry_counter (clear_thread t) = entry_counter t" "th_entries (clear_thread t) = []"
    by (simp_all add: clear_thread_def)
  note turns = restore_turns_eq [OF assms(2) t0(1), of preserve, unfolded t0(2)]
  show "fst (restore_turns preserve (ts_turns s) (clear_thread t)) = renaming (turn_counter t) (ts_turns s)"
    by (simp add: turns)
  have "\<forall>e \<in> set (ts_entries s). se_turn e \<in> fst ` set (renaming (turn_counter t) (ts_turns s))"
    using valid_state_turns(1) [OF assms(1)] renaming_keys by (metis list.set_map)
  from restore_entries_eq [OF this] show "(case restore_turns preserve (ts_turns s) (clear_thread t) of
      (ids, t1) \<Rightarrow> foldl (\<lambda>t e. restore_entry est ids e t) t1 (ts_entries s)) = restored_core est preserve s t"
    by (simp add: turns t0 restored_core_def Let_def del: upt_Suc)
qed

lemma map_of_renaming:
  assumes "distinct (map fst turns)"
  shows "om_get (zip (map snd (renaming c turns)) (map f turns)) y = Some v \<longleftrightarrow>
    (\<exists>p \<in> set turns. y = the (om_get (renaming c turns) (fst p)) \<and> v = f p)"
proof -
  let ?ids = "renaming c turns"
  have len: "length ?ids = length turns" by (simp add: renaming_def del: upt_Suc)
  have d: "distinct (map fst (zip (map snd ?ids) (map f turns)))"
    by (simp add: len renaming_values distinct_map inj_on_def del: upt_Suc)
  have get: "om_get ?ids (fst (turns ! i)) = Some (snd (?ids ! i))" if "i < length turns" for i
  proof -
    have "?ids ! i = (fst (turns ! i), snd (?ids ! i))"
      using that len renaming_keys [of c turns] by (metis nth_map prod.collapse)
    then have "(fst (turns ! i), snd (?ids ! i)) \<in> set ?ids" using that len by (metis nth_mem)
    then show ?thesis using assms by (simp add: renaming_keys)
  qed
  have "om_get (zip (map snd ?ids) (map f turns)) y = Some v \<longleftrightarrow> (y, v) \<in> set (zip (map snd ?ids) (map f turns))"
    using d by simp
  also have "\<dots> \<longleftrightarrow> (\<exists>i < length turns. y = snd (?ids ! i) \<and> v = f (turns ! i))"
  proof -
    have "zip (map snd ?ids) (map f turns) ! i = (snd (?ids ! i), f (turns ! i))" if "i < length turns" for i
      using that len by simp
    then show ?thesis
      using len by (simp add: in_set_conv_nth cong: conj_cong) metis
  qed
  also have "\<dots> \<longleftrightarrow> (\<exists>p \<in> set turns. y = the (om_get ?ids (fst p)) \<and> v = f p)"
  proof -
    have "(\<exists>i < length turns. y = snd (?ids ! i) \<and> v = f (turns ! i))
        \<longleftrightarrow> (\<exists>i < length turns. y = the (om_get ?ids (fst (turns ! i))) \<and> v = f (turns ! i))"
      using get by (simp cong: conj_cong)
    then show ?thesis by (metis in_set_conv_nth)
  qed
  finally show ?thesis .
qed

lemma restored_core_inv:
  assumes valid: "is_conversation_thread_state s" and lin: "state_linear preserve s"
  shows "thread_inv ((restored_core est preserve s t)
    \<lparr>th_open := (if preserve then map_option (\<lambda>x. the (om_get (renaming (turn_counter t) (ts_turns s)) x)) (ts_open s) else None)\<rparr>)"
proof -
  let ?ids = "renaming (turn_counter t) (ts_turns s)" and ?c = "turn_counter t"
  define \<rho> where "\<rho> x = the (om_get ?ids x)" for x
  let ?t = "(restored_core est preserve s t)\<lparr>th_open := (if preserve then map_option \<rho> (ts_open s) else None)\<rparr>"
  have d: "distinct (map fst (ts_turns s))" using lin by (simp add: state_linear_def)
  have len: "length ?ids = length (ts_turns s)" by (simp add: renaming_def del: upt_Suc)
  have keys: "map fst (th_turns ?t) = map turn_id [Suc ?c..<Suc ?c + length (ts_turns s)]"
    by (simp add: restored_core_def Let_def len renaming_values del: upt_Suc)
  note inj = renaming_inj [OF d, of ?c, folded \<rho>_def]
  have open_iff: "om_get (th_turns ?t) y = Some TurnOpen \<longleftrightarrow> th_open ?t = Some y" for y
  proof -
    have "om_get (th_turns ?t) y = Some TurnOpen \<longleftrightarrow>
        (\<exists>p \<in> set (ts_turns s). y = \<rho> (fst p) \<and> preserve \<and> snd p = TurnOpen)"
      using map_of_renaming [OF d, of ?c "restored_status preserve \<circ> snd" y TurnOpen]
      by (auto simp: restored_core_def Let_def \<rho>_def restored_status_def)
    also have "\<dots> \<longleftrightarrow> preserve \<and> (\<exists>p \<in> set (filter (\<lambda>(x, st). st = TurnOpen) (ts_turns s)). y = \<rho> (fst p))"
      by force
    also have "\<dots> \<longleftrightarrow> th_open ?t = Some y"
      unfolding valid_state_turns(2) [OF valid] by (cases "ts_open s") auto
    finally show ?thesis .
  qed
  have turns: "turns_wf (turn_counter ?t) (th_turns ?t) (th_open ?t)"
    unfolding turns_wf_def using open_iff
  proof (intro conjI ballI allI)
    show "om_wf (th_turns ?t)" unfolding keys by (simp add: distinct_map inj_on_def del: upt_Suc)
    fix x assume "x \<in> fst ` set (th_turns ?t)"
    then have "x \<in> set (map fst (th_turns ?t))" by simp
    then have "x \<in> turn_id ` {Suc ?c..<Suc ?c + length (ts_turns s)}" unfolding keys by (simp del: upt_Suc)
    then obtain k where "k \<le> ?c + length (ts_turns s)" "x = turn_id k" by auto
    then show "\<exists>k \<le> turn_counter ?t. turn_name k x" by (auto simp: restored_core_def Let_def)
  qed blast
  have \<rho>_in: "\<rho> (se_turn e) \<in> fst ` set (th_turns ?t)" if "e \<in> set (ts_entries s)" for e
  proof -
    obtain p where p: "p \<in> set (ts_turns s)" "fst p = se_turn e"
      using bspec [OF valid_state_turns(1) [OF valid] \<open>e \<in> set (ts_entries s)\<close>] by auto
    have "om_get (th_turns ?t) (\<rho> (fst p)) = Some (restored_status preserve (snd p))"
      using map_of_renaming [OF d, of ?c "restored_status preserve \<circ> snd" "\<rho> (fst p)" "restored_status preserve (snd p)"] p(1)
      by (auto simp: restored_core_def Let_def \<rho>_def)
    then have "om_get (th_turns ?t) (\<rho> (se_turn e)) = Some (restored_status preserve (snd p))" unfolding p(2) .
    then show ?thesis by (metis map_of_SomeD fst_conv image_eqI)
  qed
  let ?es = "th_entries ?t" and ?ns = "[Suc (entry_counter t)..<Suc (entry_counter t) + length (ts_entries s)]"
  have es: "?es = map2 (restored_entry est ?ids) ?ns (ts_entries s)"
    by (simp add: restored_core_def Let_def)
  have fields: "map en_id ?es = map entry_id ?ns" "map en_turn ?es = map (\<rho> \<circ> se_turn) (ts_entries s)"
    unfolding es by (rule nth_equalityI; simp add: restored_entry_def new_entry_def \<rho>_def del: upt_Suc)+
  have "entries_wf (entry_counter ?t) (fst ` set (th_turns ?t)) ?es"
    unfolding entries_wf_def
  proof (intro conjI ballI)
    show "distinct (map en_id ?es)" unfolding fields by (simp add: distinct_map inj_on_def del: upt_Suc)
    fix e assume "e \<in> set ?es"
    then obtain n sv where mem: "(n, sv) \<in> set (zip ?ns (ts_entries s))" and e0: "e = restored_entry est ?ids n sv"
      unfolding es by (auto simp del: upt_Suc)
    note e = e0 set_zip_leftD [OF mem] set_zip_rightD [OF mem]
    then show "\<exists>k \<le> entry_counter ?t. en_id e = entry_id k"
      by (intro exI [of _ n]) (auto simp: restored_entry_def new_entry_def restored_core_def Let_def)
    show "en_turn e \<in> fst ` set (th_turns ?t)" using \<rho>_in [OF e(3)] e(1) by (simp add: restored_entry_def new_entry_def \<rho>_def)
    show "is_entry_role_compatible (en_kind e) (en_message e)"
      using valid_state_turns(1) [OF valid] e by (simp add: restored_entry_def new_entry_def)
  qed
  moreover have "turn_linear ?es (th_open ?t)"
  proof -
    have "inj_on \<rho> (set (map se_turn (ts_entries s)))"
      using inj valid_state_turns(1) [OF valid] by (auto intro: inj_on_subset)
    then have "remdups_adj (map en_turn ?es) = map \<rho> (remdups_adj (map se_turn (ts_entries s)))"
      unfolding fields by (simp flip: map_map add: distinct_remdups_adj_map)
    moreover have "inj_on \<rho> (set (remdups_adj (map se_turn (ts_entries s))))"
      using \<open>inj_on \<rho> (set (map se_turn (ts_entries s)))\<close> by simp
    ultimately have "distinct (remdups_adj (map en_turn ?es))"
      using lin by (simp add: state_linear_def distinct_map)
    moreover have "?es \<noteq> [] \<and> en_turn (last ?es) = y" if "th_open ?t = Some y" for y
    proof -
      from that obtain x where x: "preserve" "ts_open s = Some x" "y = \<rho> x" by (auto split: if_splits)
      then have last: "ts_entries s \<noteq> []" "se_turn (last (ts_entries s)) = x" using lin by (auto simp: state_linear_def)
      then have ne: "?es \<noteq> []" using fields(2) by (metis list.map_disc_iff)
      then have "en_turn (last ?es) = last (map en_turn ?es)" by (simp add: last_map)
      also have "\<dots> = \<rho> (se_turn (last (ts_entries s)))" unfolding fields(2) using last(1) by (simp add: last_map)
      finally show ?thesis using ne last x by simp
    qed
    ultimately show ?thesis unfolding turn_linear_def by blast
  qed
  ultimately show ?thesis
    using turns unfolding \<rho>_def by (intro thread_invI)
qed

lemma restored_core_open: "th_open (restored_core est preserve s t) = None"
  by (simp add: restored_core_def Let_def clear_thread_def)

lemma opened_renamed:
  assumes "is_conversation_thread_state s"
  shows "option_values (map (\<lambda>(x, st). om_get (renaming c (ts_turns s)) x) (filter (\<lambda>(x, st). st = TurnOpen) (ts_turns s)))
    = (case ts_open s of None \<Rightarrow> [] | Some x \<Rightarrow> [the (om_get (renaming c (ts_turns s)) x)])"
proof (cases "ts_open s")
  case None
  then show ?thesis using valid_state_turns(2) [OF assms] by (simp add: option_values_def)
next
  case (Some x)
  then have F: "filter (\<lambda>(x, st). st = TurnOpen) (ts_turns s) = [(x, TurnOpen)]"
    using valid_state_turns(2) [OF assms] by simp
  then have "(x, TurnOpen) \<in> set (filter (\<lambda>(x, st). st = TurnOpen) (ts_turns s))" by simp
  then have "x \<in> fst ` set (ts_turns s)" by force
  then have "x \<in> fst ` set (renaming c (ts_turns s))" using renaming_keys by (metis list.set_map)
  then obtain y where "om_get (renaming c (ts_turns s)) x = Some y" by (metis map_of_eq_None_iff not_Some_eq)
  then show ?thesis unfolding F by (simp add: option_values_def Some)
qed

lemma restore_state_eq:
  fixes est :: estimate and t :: thread
  assumes "is_conversation_thread_state s" and "distinct (map fst (ts_turns s))"
  defines "core \<equiv> \<lambda>preserve. restored_core est preserve s t"
    and "\<rho> \<equiv> \<lambda>x. the (om_get (renaming (turn_counter t) (ts_turns s)) x)"
  shows "restore_state est True s t =
      ((core True)\<lparr>th_open := map_option \<rho> (ts_open s), th_iteration := max 0 (jnum_int (ts_iteration s))\<rparr>, True)"
    and "restore_state est False s t =
      ((case ts_open s of None \<Rightarrow> core False
        | Some x \<Rightarrow> add_notice est interrupted_notice
            ((core False)\<lparr>th_entries := remove_unmatched_tool_calls est (\<rho> x) (th_entries (core False))\<rparr>))
        \<lparr>th_iteration := max 0 (jnum_int (ts_iteration s))\<rparr>, True)"
proof -
  define t1 where "t1 preserve = snd (restore_turns preserve (ts_turns s) (clear_thread t))" for preserve
  have turns: "restore_turns preserve (ts_turns s) (clear_thread t) = (renaming (turn_counter t) (ts_turns s), t1 preserve)"
    for preserve using restored_core_eq(2) [OF assms(1,2), of preserve t] by (simp add: t1_def prod_eq_iff)
  have folded: "foldl (\<lambda>t e. restore_entry est (renaming (turn_counter t0) (ts_turns s)) e t) (t1 preserve) (ts_entries s) = core preserve"
    if "t0 = t" for preserve t0
    using restored_core_eq(1) [OF assms(1,2), where preserve = preserve and t = t and est = est] turns that by (simp add: core_def)
  have id_core: "(core preserve)\<lparr>th_open := None\<rparr> = core preserve" for preserve
    using restored_core_open [of est preserve s t] by (cases "core preserve") (simp add: core_def)
  have same: "core preserve\<lparr>th_entries := th_entries (core preserve)\<rparr> = core preserve" for preserve
    by (cases "core preserve") simp
  show "restore_state est True s t =
      ((core True)\<lparr>th_open := map_option \<rho> (ts_open s), th_iteration := max 0 (jnum_int (ts_iteration s))\<rparr>, True)"
    using assms(1) by (cases "ts_open s")
      (simp_all add: restore_state_def turns opened_renamed [OF assms(1)] folded Let_def \<rho>_def id_core same)
  show "restore_state est False s t =
      ((case ts_open s of None \<Rightarrow> core False
        | Some x \<Rightarrow> add_notice est interrupted_notice
            ((core False)\<lparr>th_entries := remove_unmatched_tool_calls est (\<rho> x) (th_entries (core False))\<rparr>))
        \<lparr>th_iteration := max 0 (jnum_int (ts_iteration s))\<rparr>, True)"
    using assms(1) by (cases "ts_open s")
      (simp_all add: restore_state_def turns opened_renamed [OF assms(1)] folded Let_def \<rho>_def same)
qed

lemma restore_inv:
  assumes "thread_inv t" and "state_linear preserve s"
  shows "thread_inv (fst (restore_state est preserve s t))"
proof (cases "is_conversation_thread_state s")
  case False
  then show ?thesis using assms(1) by (simp add: restore_state_def)
next
  case True
  have d: "distinct (map fst (ts_turns s))" using assms(2) by (simp add: state_linear_def)
  note core = restored_core_inv [OF True assms(2), where est = est and t = t]
  show ?thesis
  proof (cases preserve)
    case True
    then show ?thesis
      using core restore_state_eq(1) [OF \<open>is_conversation_thread_state s\<close> d, where est = est and t = t] by (simp add: iteration_inv)
  next
    case False
    have "(restored_core est preserve s t)\<lparr>th_open := None\<rparr> = restored_core est preserve s t"
      using restored_core_open [of est preserve s t] by (cases "restored_core est preserve s t") simp
    with core False have "thread_inv (restored_core est False s t)" by simp
    then show ?thesis
      using restore_state_eq(2) [OF \<open>is_conversation_thread_state s\<close> d, where est = est and t = t] False
      by (auto intro!: iteration_inv add_notice_inv prune_inv split: option.split)
  qed
qed

text \<open>Legacy conversations.\<close>

lemma append_last_inv:
  assumes "thread_inv t" and "th_open t = None" and "th_entries t \<noteq> []" and "en_turn (last (th_entries t)) = turn"
    and "is_entry_role_compatible k m"
  shows "thread_inv (append_entry est turn k m id t)"
proof -
  note inv = thread_invD [OF assms(1)]
  have "turn \<in> fst ` set (th_turns t)"
    using inv(2) assms(3,4) last_in_set unfolding entries_wf_def by blast
  moreover have "turn_linear (th_entries t @ [new_entry est (Suc (entry_counter t)) turn k m]) None"
    using inv(3) assms(2-4) by (simp add: turn_linear_def remdups_adj_snoc last_map new_entry_def)
  ultimately show ?thesis
    using inv assms(2,5) by (intro thread_invI) (simp_all add: append_entry_def new_entry_def entries_wf_append)
qed

lemma legacy_turn_inv:
  assumes "thread_inv t" and "th_open t = None"
  shows "thread_inv (snd (legacy_turn est c t)) \<and> th_open (snd (legacy_turn est c t)) = None
    \<and> th_entries (snd (legacy_turn est c t)) \<noteq> []
    \<and> en_turn (last (th_entries (snd (legacy_turn est c t)))) = fst (legacy_turn est c t)"
  using append_closed_inv [OF assms, of "turn_id (Suc (turn_counter t))" UserEntry "ChatMsg RUser c None" TurnCommitted est] assms(2)
  by (simp add: legacy_turn_def next_turn_id_def) (simp add: append_entry_def new_entry_def)

lemma add_compaction_open: "th_open t = None \<Longrightarrow> th_open (add_compaction est s None t) = None"
  by (simp add: add_compaction_def next_turn_id_def append_entry_def ensure_turn_def)

lemma restore_conversation_inv:
  "thread_inv (fst st) \<Longrightarrow> th_open (fst st) = None \<Longrightarrow>
   thread_inv (fst (restore_conversation est ms st)) \<and> th_open (fst (restore_conversation est ms st)) = None"
proof (induction "length ms" arbitrary: ms st rule: less_induct)
  case (less ms0 st)
  show ?case
  proof (cases ms0)
    case Nil
    then show ?thesis using less.prems by simp
  next
    case (Cons m ms)
    obtain assistant content t r where m: "m = (assistant, content)" and st: "st = (t, r)" by (metis surj_pair)
    note prems = less.prems [unfolded st fst_conv]
    have ih: "thread_inv (fst (restore_conversation est ms' (t', r'))) \<and> th_open (fst (restore_conversation est ms' (t', r'))) = None"
      if "thread_inv t'" "th_open t' = None" "length ms' \<le> length ms" for ms' t' r'
      using less.hyps [of ms' "(t', r')"] that by (simp add: Cons)
    consider (marker) "assistant" "js_includes legacy_compaction_marker content"
      | (skip) "assistant" "\<not> js_includes legacy_compaction_marker content" | (user) "\<not> assistant" by blast
    then show ?thesis
    proof cases
      case marker
      then show ?thesis using ih prems add_compaction_inv add_compaction_open by (simp add: Cons m st)
    next
      case skip
      then show ?thesis using ih prems by (simp add: Cons m st)
    next
    case user
    obtain turn t1 where lt: "legacy_turn est content t = (turn, t1)" by fastforce
    have t1: "thread_inv t1" "th_open t1 = None" "th_entries t1 \<noteq> []" "en_turn (last (th_entries t1)) = turn"
      using legacy_turn_inv [of t est content] prems lt by simp_all
    have t2: "thread_inv (append_entry est turn AssistantEntry (ChatMsg RAssistant reply None) id t1)
        \<and> th_open (append_entry est turn AssistantEntry (ChatMsg RAssistant reply None) id t1) = None" for reply
      using append_last_inv [OF t1] t1(2) append_open_same by simp
    define r1 where "r1 = r\<lparr>restored_turn_count := Suc (restored_turn_count r)\<rparr>"
    consider (nil) "ms = []" | (reply) reply rest where "ms = (True, reply) # rest" | (other) c rest where "ms = (False, c) # rest"
      by (metis (full_types) list.exhaust surj_pair)
    then show ?thesis
    proof cases
      case nil
      then show ?thesis using user lt t1 ih by (simp add: Cons m st)
    next
      case (reply reply rest)
      define t' where "t' = (if js_includes legacy_compaction_marker reply then t1
        else append_entry est turn AssistantEntry (ChatMsg RAssistant reply None) id t1)"
      have "restore_conversation est ((assistant, content) # ms) (t, r) = restore_conversation est rest (t', r1)"
        using user lt reply by (simp add: t'_def r1_def Let_def)
      moreover have "thread_inv t' \<and> th_open t' = None" using t1 t2 by (simp add: t'_def)
      ultimately show ?thesis using ih reply by (simp add: Cons m st)
    next
      case (other c rest)
      have "restore_conversation est ((assistant, content) # ms) (t, r) = restore_conversation est ms (t1, r1)"
        by (subst restore_conversation.simps) (simp add: user lt other r1_def Let_def del: restore_conversation.simps)
      then show ?thesis using ih t1 by (simp add: Cons m st del: restore_conversation.simps)
    qed
  qed
  qed
qed

lemma restore_legacy_inv: "thread_inv (fst (restore_from_conversation est ms t))"
  unfolding restore_from_conversation_def
  by (rule conjunct1 [OF restore_conversation_inv]) (simp_all add: clear_inv, simp add: clear_thread_def)

section \<open>Reachable threads\<close>

text \<open>
  One operation on a thread. The estimator may be another one at every step, because the
  calibration changes between operations. Compaction is only added while no turn is open, a
  replaced prefix spares the open turn, and a restored state has its turns in one piece each.
\<close>

inductive thread_step :: "thread \<Rightarrow> thread \<Rightarrow> bool" where
  begins: "thread_step t (fst (begin_turn est input t))"
| commits: "thread_step t (fst (commit_turn t))"
| aborts: "thread_step t (fst (abort_turn est reason t))"
| interrupts: "thread_step t (fst (interrupt_turn est reason t))"
| assistant: "thread_step t (fst (append_assistant est c tcs t))"
| tool_result: "thread_step t (fst (append_tool_result est i n c s it t))"
| compaction: "th_open t = None \<Longrightarrow> thread_step t (add_compaction est s None t)"
| notice: "thread_step t (add_notice est s t)"
| removes: "thread_step t (remove_turn_entries turns t)"
| replaces: "spares_open_turn n t \<Longrightarrow> thread_step t (replace_prefix_with_compaction est n s t)"
| elides: "thread_step t (elide_tool_result est i c t)"
| truncates: "thread_step t (truncate_entry est i c t)"
| reestimates: "thread_step t (reestimate_tokens est t)"
| clears: "thread_step t (clear_thread t)"
| iterates: "thread_step t (t\<lparr>th_iteration := k\<rparr>)"
| restores: "state_linear preserve s \<Longrightarrow> thread_step t (fst (restore_state est preserve s t))"
| legacy: "thread_step t (fst (restore_from_conversation est ms t))"

lemmas operation_invs =
  begin_inv commit_inv abort_inv interrupt_inv append_assistant_inv append_tool_result_inv add_compaction_inv
  add_notice_inv remove_turn_entries_inv replace_prefix_inv elide_inv truncate_inv reestimate_inv clear_inv
  iteration_inv restore_inv restore_legacy_inv

lemma thread_step_inv: "thread_step t t' \<Longrightarrow> thread_inv t \<Longrightarrow> thread_inv t'"
  by (induction rule: thread_step.induct) (auto intro: operation_invs)

lemma reachable_inv: "thread_step\<^sup>*\<^sup>* (new_thread ec tc) t \<Longrightarrow> thread_inv t"
  by (induction rule: rtranclp_induct) (auto intro: new_thread_inv thread_step_inv)

text \<open>
  C20. Whatever operations run, in whatever order, a thread stays well formed: entry ids are
  distinct, every entry belongs to a known turn and carries a message of the role its kind asks
  for, the turn that is marked open is the open turn and no other is, the entries of a turn lie
  next to each other, and while a turn is open the newest entry belongs to it.
\<close>

theorem reachable_threads_well_formed:
  assumes "thread_step\<^sup>*\<^sup>* (new_thread ec tc) t"
  shows "distinct (map en_id (th_entries t))
    \<and> (\<forall>e \<in> set (th_entries t). turn_status_of t (en_turn e) \<noteq> None \<and> is_entry_role_compatible (en_kind e) (en_message e))
    \<and> (\<forall>x. turn_status_of t x = Some TurnOpen \<longleftrightarrow> th_open t = Some x)
    \<and> distinct (remdups_adj (map en_turn (th_entries t)))
    \<and> (\<forall>x. th_open t = Some x \<longrightarrow> th_entries t \<noteq> [] \<and> en_turn (last (th_entries t)) = x)"
proof -
  note inv = thread_invD [OF reachable_inv [OF assms]]
  have "turn_status_of t (en_turn e) \<noteq> None" if "e \<in> set (th_entries t)" for e
    using inv(2) that by (auto simp: turn_status_of_def entries_wf_def map_of_eq_None_iff)
  then show ?thesis
    using inv unfolding turns_wf_def entries_wf_def turn_linear_def turn_status_of_def by blast
qed

definition sample_thread :: thread where
  "sample_thread = fst (append_assistant (\<lambda>m. 1) (asc ''working'')
     [\<lparr>call_id = asc ''c1'', call_name = asc ''Read'', call_input = JNull\<rparr>] (fst (begin_turn (\<lambda>m. 1) (asc ''hi'') (new_thread 0 0))))"

lemma sample_thread_reachable: "thread_step\<^sup>*\<^sup>* (new_thread 0 0) sample_thread"
  unfolding sample_thread_def by (meson assistant begins rtranclp.rtrancl_into_rtrancl rtranclp.rtrancl_refl)

lemma sample_thread_open: "th_open sample_thread = Some (turn_id 1)"
  by (simp add: sample_thread_def begin_turn_def append_assistant_def append_entry_def next_turn_id_def new_thread_def)

theorem reachable_threads_well_formed_witness:
  "turn_status_of sample_thread (turn_id 1) = Some TurnOpen \<and> distinct (map en_id (th_entries sample_thread))"
  using reachable_threads_well_formed [OF sample_thread_reachable] sample_thread_open by blast

section \<open>Interrupting a turn\<close>

lemma turn_result_ids_map:
  assumes "\<And>e. en_turn (f e) = en_turn e" and "\<And>e. answered_ids (en_message (f e)) = answered_ids (en_message e)"
  shows "turn_result_ids (map f es) x = turn_result_ids es x"
  by (simp only: turn_result_ids_def map_map comp_def assms)

lemma turn_result_ids_snoc:
  "turn_result_ids (es @ [e]) x = turn_result_ids es x @ (if en_turn e = x then answered_ids (en_message e) else [])"
  unfolding turn_result_ids_def by (simp only: map_append concat_append list.map concat.simps append_Nil2)

lemma prune_calls_answers: "answered_ids (en_message (prune_calls est ids e)) = answered_ids (en_message e)"
  by (auto simp: prune_calls_def Let_def split: message.split chat_role.split option.split)

lemma prune_calls_turn: "en_turn (prune_calls est ids e) = en_turn e"
  by (auto simp: prune_calls_def Let_def split: message.split chat_role.split option.split)

lemma prune_calls_requests: "requested_ids (en_message (prune_calls est ids e)) = filter (\<lambda>i. i \<in> set ids) (requested_ids (en_message e))"
  by (cases "en_message e") (auto simp: prune_calls_def Let_def filter_map comp_def split: message.split chat_role.split option.split)

lemma prune_calls_content: "msg_content (en_message (prune_calls est ids e)) = msg_content (en_message e)"
  by (cases "en_message e") (auto simp: prune_calls_def Let_def split: chat_role.split option.split)

lemma turn_result_ids_prune:
  "turn_result_ids (remove_unmatched_tool_calls est x es) y = turn_result_ids es y"
  unfolding remove_unmatched_tool_calls_def Let_def
  by (rule turn_result_ids_map) (simp_all add: prune_calls_turn prune_calls_answers)

text \<open>No call of the turn is left without its answer.\<close>

definition no_dangling_calls :: "jstr \<Rightarrow> thread_entry list \<Rightarrow> bool" where
  "no_dangling_calls x es \<longleftrightarrow> (\<forall>e \<in> set es. en_turn e = x \<longrightarrow> set (requested_ids (en_message e)) \<subseteq> set (turn_result_ids es x))"

lemma prune_no_dangling: "no_dangling_calls x (remove_unmatched_tool_calls est x es)"
  unfolding no_dangling_calls_def turn_result_ids_prune
proof (intro ballI impI)
  fix e assume "e \<in> set (remove_unmatched_tool_calls est x es)" and turn: "en_turn e = x"
  then have "e \<in> (\<lambda>e. if en_turn e = x then prune_calls est (turn_result_ids es x) e else e) ` set es"
    by (simp add: remove_unmatched_tool_calls_def Let_def)
  then obtain e0 where "e = (if en_turn e0 = x then prune_calls est (turn_result_ids es x) e0 else e0)" by (rule imageE)
  with turn have "e = prune_calls est (turn_result_ids es x) e0"
    by (cases "en_turn e0 = x") (simp_all add: prune_calls_turn)
  then show "set (requested_ids (en_message e)) \<subseteq> set (turn_result_ids es x)"
    by (auto simp: prune_calls_requests)
qed

lemma no_dangling_append_notice:
  assumes es: "no_dangling_calls x es" and e: "requested_ids (en_message e) = []"
  shows "no_dangling_calls x (es @ [e])"
proof -
  have "set (turn_result_ids es x) \<subseteq> set (turn_result_ids (es @ [e]) x)"
    unfolding turn_result_ids_snoc set_append by (rule Un_upper1)
  then show ?thesis using es e unfolding no_dangling_calls_def by (auto simp: subset_iff)
qed

lemma no_dangling_drop_notice:
  assumes "no_dangling_calls x (es @ [e])" and "answered_ids (en_message e) = []"
  shows "no_dangling_calls x es"
proof -
  have "turn_result_ids (es @ [e]) x = turn_result_ids es x"
    unfolding turn_result_ids_snoc assms(2) if_cancel append_Nil2 ..
  with assms(1) show ?thesis unfolding no_dangling_calls_def by (metis UnI1 set_append)
qed

text \<open>
  C21. Interrupting the open turn leaves a transcript the model protocol accepts: in that turn
  every tool call still requested has its result, calls that were answered are kept, no message
  text changes, nothing outside the turn changes, the turn is aborted and closed, and one notice
  is added. Aborting alone does not repair the turn: it keeps a call nobody answered.
\<close>

theorem interrupt_leaves_no_dangling_call:
  fixes est :: estimate and reason :: jstr and t :: thread
  assumes "th_open t = Some x" and "om_has (th_turns t) x"
  defines "t' \<equiv> fst (interrupt_turn est reason t)"
  shows "no_dangling_calls x (th_entries t') \<and> th_open t' = None \<and> turn_status_of t' x = Some TurnAborted
    \<and> length (th_entries t') = Suc (length (th_entries t))
    \<and> (\<forall>i < length (th_entries t).
         msg_content (en_message (th_entries t' ! i)) = msg_content (en_message (th_entries t ! i))
         \<and> (en_turn (th_entries t ! i) \<noteq> x \<longrightarrow> th_entries t' ! i = th_entries t ! i)
         \<and> set (requested_ids (en_message (th_entries t ! i))) \<inter> set (turn_result_ids (th_entries t) x)
             \<subseteq> set (requested_ids (en_message (th_entries t' ! i))))
    \<and> (\<not> no_dangling_calls x (th_entries t) \<longrightarrow> \<not> no_dangling_calls x (th_entries (fst (abort_turn est reason t))))"
proof -
  let ?es = "remove_unmatched_tool_calls est x (th_entries t)"
  let ?n = "\<lambda>es. new_entry est (Suc (entry_counter t)) x NoticeEntry (notice_message reason)"
  have entries: "th_entries t' = ?es @ [?n ?es]"
    "th_entries (fst (abort_turn est reason t)) = th_entries t @ [?n (th_entries t)]"
    using assms(1) by (simp_all add: t'_def interrupt_turn_def abort_turn_def append_entry_def set_status_def)
  have len: "length ?es = length (th_entries t)" by (simp add: remove_unmatched_tool_calls_def Let_def)
  have req: "requested_ids (en_message (?n es)) = []" "answered_ids (en_message (?n es)) = []" for es
    by (simp_all add: new_entry_def notice_message_def)
  have "no_dangling_calls x (th_entries t')"
    unfolding entries by (intro no_dangling_append_notice prune_no_dangling req)
  moreover have "th_open t' = None" "turn_status_of t' x = Some TurnAborted"
    using assms(1,2) by (simp_all add: t'_def interrupt_turn_def abort_turn_def append_entry_def set_status_def
        turn_status_of_def map_of_om_set)
  moreover have "msg_content (en_message (th_entries t' ! i)) = msg_content (en_message (th_entries t ! i))
         \<and> (en_turn (th_entries t ! i) \<noteq> x \<longrightarrow> th_entries t' ! i = th_entries t ! i)
         \<and> set (requested_ids (en_message (th_entries t ! i))) \<inter> set (turn_result_ids (th_entries t) x)
             \<subseteq> set (requested_ids (en_message (th_entries t' ! i)))" if "i < length (th_entries t)" for i
  proof -
    have "th_entries t' ! i = (if en_turn (th_entries t ! i) = x
        then prune_calls est (turn_result_ids (th_entries t) x) (th_entries t ! i) else th_entries t ! i)"
      using that unfolding entries by (simp add: nth_append len remove_unmatched_tool_calls_def Let_def)
    then show ?thesis by (auto simp: prune_calls_content prune_calls_requests)
  qed
  moreover have "no_dangling_calls x (th_entries t)" if "no_dangling_calls x (th_entries t @ [?n (th_entries t)])"
    using that no_dangling_drop_notice req by blast
  ultimately show ?thesis using len entries by auto
qed

theorem interrupt_leaves_no_dangling_call_witness:
  "requested_ids (en_message (last (th_entries sample_thread))) = [asc ''c1'']
   \<and> no_dangling_calls (turn_id 1) (th_entries (fst (interrupt_turn (\<lambda>m. 1) (asc ''esc'') sample_thread)))"
proof -
  have "om_has (th_turns sample_thread) (turn_id 1)"
    by (simp add: sample_thread_def begin_turn_def append_assistant_def append_entry_def next_turn_id_def new_thread_def
        om_has_def turn_id_def)
  moreover have "requested_ids (en_message (last (th_entries sample_thread))) = [asc ''c1'']"
    by (simp add: sample_thread_def begin_turn_def append_assistant_def append_entry_def next_turn_id_def new_thread_def new_entry_def)
  ultimately show ?thesis using interrupt_leaves_no_dangling_call [OF sample_thread_open] by blast
qed

end
