(* ===== verification/Text_Preview.thy ===== *)
theory Text_Preview
  imports Tool_Types
begin

text \<open>
  The short previews shown to users and written to traces: the preview of a tool input
  (\<open>packages/core/src/tools/formatToolInputPreview.ts\<close>), the shape of a shell command without its
  argument values (\<open>packages/core/src/process/processCommandPreview.ts\<close>), and the clipping of texts
  these and the summarizer share. The rendering of \<open>Number(value)\<close> in a template is the parameter
  \<open>number_text\<close>. The limits are natural numbers; every caller passes a constant.
\<close>

section \<open>Clipping\<close>

text \<open>\<open>value.replace(/\s+/g, ' ')\<close>.\<close>

fun flatten_ws :: "jstr \<Rightarrow> jstr" where
  "flatten_ws [] = []"
| "flatten_ws [c] = [if is_ws c then 32 else c]"
| "flatten_ws (c # d # s) =
     (if is_ws c then if is_ws d then flatten_ws (d # s) else 32 # flatten_ws (d # s) else c # flatten_ws (d # s))"

definition ellipsis_cut :: "nat \<Rightarrow> jstr \<Rightarrow> jstr" where
  "ellipsis_cut limit s = (if length s \<le> limit then s else take (limit - 1) s @ [8230])"

definition clip_line :: "nat \<Rightarrow> jstr \<Rightarrow> jstr" where
  "clip_line limit s = ellipsis_cut limit (js_trim (flatten_ws s))"

text \<open>\<open>split\<close> at every unit a class accepts.\<close>

fun split_units :: "(nat \<Rightarrow> bool) \<Rightarrow> jstr \<Rightarrow> jstr list" where
  "split_units p [] = [[]]"
| "split_units p (c # s) =
     (if p c then [] # split_units p s
      else (case split_units p s of [] \<Rightarrow> [[c]] | x # xs \<Rightarrow> (c # x) # xs))"

section \<open>The shape of a command\<close>

fun tokenize_go :: "jstr \<Rightarrow> nat option \<Rightarrow> bool \<Rightarrow> jstr \<Rightarrow> jstr list" where
  "tokenize_go current q escaped [] = (if current \<noteq> [] then [current] else [])"
| "tokenize_go current q escaped (c # s) =
     (if escaped then tokenize_go (current @ [c]) q False s
      else if c = 92 \<and> q \<noteq> Some 39 then tokenize_go current q True s
      else if q \<noteq> None then
        if q = Some c then tokenize_go current None False s else tokenize_go (current @ [c]) q False s
      else if c = 39 \<or> c = 34 then tokenize_go current (Some c) False s
      else if is_ws c then
        (if current \<noteq> [] then [current] else []) @ (if c = 10 \<or> c = 13 then [[59]] else []) @ tokenize_go [] None False s
      else if c \<in> {124, 38, 59, 60, 62} then
        (if current \<noteq> [] then [current] else []) @
        (case s of
           d # s' \<Rightarrow> if d = c then [c, d] # tokenize_go [] None False s' else [c] # tokenize_go [] None False s
         | [] \<Rightarrow> [c] # tokenize_go [] None False s)
      else tokenize_go (current @ [c]) None False s)"

definition tokenize_command :: "jstr \<Rightarrow> jstr list" where
  "tokenize_command command = tokenize_go [] None False command"

definition is_command_separator :: "jstr \<Rightarrow> bool" where
  "is_command_separator token \<longleftrightarrow> token \<in> set (map asc [''|'', ''||'', ''&&'', '';''])"

definition is_shell_operator :: "jstr \<Rightarrow> bool" where
  "is_shell_operator token \<longleftrightarrow> token \<in> set (map asc [''&'', ''<'', ''>'', ''>>''])"

definition is_letter :: "nat \<Rightarrow> bool" where
  "is_letter c \<longleftrightarrow> (65 \<le> c \<and> c \<le> 90) \<or> (97 \<le> c \<and> c \<le> 122)"

definition is_digit_unit :: "nat \<Rightarrow> bool" where
  "is_digit_unit c \<longleftrightarrow> 48 \<le> c \<and> c \<le> 57"

text \<open>\<open>/^([A-Za-z_][A-Za-z0-9_]*)=/\<close>: the key of an inline assignment.\<close>

definition assignment_key :: "jstr \<Rightarrow> jstr option" where
  "assignment_key token =
     (let name = takeWhile (\<lambda>c. is_letter c \<or> is_digit_unit c \<or> c = 95) token
      in if name \<noteq> [] \<and> \<not> is_digit_unit (hd name) \<and> js_starts_with [61] (drop (length name) token) then Some name else None)"

definition is_safe_unit :: "nat \<Rightarrow> bool" where
  "is_safe_unit c \<longleftrightarrow> is_letter c \<or> is_digit_unit c \<or> c = 46 \<or> c = 95 \<or> c = 43 \<or> c = 45"

definition safe_executable_name :: "jstr \<Rightarrow> jstr" where
  "safe_executable_name token =
     (let leaf = last (split_units (\<lambda>c. c = 92 \<or> c = 47) token);
          safe = filter is_safe_unit (if leaf = [] then asc ''command'' else leaf)
      in if safe \<noteq> [] then ellipsis_cut 40 safe else asc ''command'')"

definition safe_flag_name :: "jstr \<Rightarrow> jstr" where
  "safe_flag_name token =
     (if \<not> js_starts_with (asc ''--'') token \<and> 2 < length token then
        let short = filter is_safe_unit (take 2 token)
        in (if short = [] then asc ''-'' else short) @ [8230]
      else let name = (if js_starts_with (asc ''--'') token then hd (split_units (\<lambda>c. c = 61) token) else token);
               safe = filter is_safe_unit name
           in if safe \<noteq> [] then ellipsis_cut 40 safe else asc ''-'')"

record command_shape =
  cs_commands :: "jstr list"
  cs_flags :: "jstr list"
  cs_env_keys :: "jstr list"
  cs_arguments :: nat
  cs_expects :: bool

definition is_flag_token :: "jstr \<Rightarrow> bool" where
  "is_flag_token token \<longleftrightarrow> js_starts_with (asc ''-'') token \<and> token \<noteq> asc ''-''"

definition shape_token :: "command_shape \<Rightarrow> jstr \<Rightarrow> command_shape" where
  "shape_token st token =
     (if is_command_separator token then st\<lparr>cs_expects := True\<rparr>
      else if is_shell_operator token then st
      else if cs_expects st then
        (case assignment_key token of
           Some name \<Rightarrow> if length (cs_env_keys st) < 4 then st\<lparr>cs_env_keys := cs_env_keys st @ [name @ [61, 8230]]\<rparr> else st
         | None \<Rightarrow> st\<lparr>cs_commands := cs_commands st @ [safe_executable_name token], cs_expects := False\<rparr>)
      else if is_flag_token token then
        if length (cs_flags st) < 8 then st\<lparr>cs_flags := cs_flags st @ [safe_flag_name token]\<rparr> else st
      else st\<lparr>cs_arguments := Suc (cs_arguments st)\<rparr>)"

definition initial_shape :: command_shape where
  "initial_shape = \<lparr>cs_commands = [], cs_flags = [], cs_env_keys = [], cs_arguments = 0, cs_expects = True\<rparr>"

definition format_process_command_preview :: "nat \<Rightarrow> jstr \<Rightarrow> jstr" where
  "format_process_command_preview max_chars command =
     (let st = foldl shape_token initial_shape (tokenize_command command);
          shape = js_join [32] (cs_env_keys st
             @ [if cs_commands st \<noteq> [] then js_join [32, 8594, 32] (take 4 (cs_commands st)) else asc ''command'']
             @ cs_flags st);
          label = dec (cs_arguments st) @ asc '' arg'' @ (if cs_arguments st = 1 then [] else asc ''s'')
      in ellipsis_cut (max 24 max_chars)
           (asc ''$ '' @ shape @ [32, 183, 32] @ label @ [32, 183, 32] @ dec (length command) @ asc '' chars''))"

section \<open>The preview of a tool input\<close>

definition first_non_empty_line :: "jstr \<Rightarrow> jstr" where
  "first_non_empty_line text = (case filter (\<lambda>l. js_trim l \<noteq> []) (split_units (\<lambda>c. c = 10) text) of l # ls \<Rightarrow> l | [] \<Rightarrow> [])"

definition str_field :: "string \<Rightarrow> json \<Rightarrow> jstr option" where
  "str_field k r = as_string (obj_field (asc k) r)"

definition str_or :: "jstr \<Rightarrow> jstr option \<Rightarrow> jstr" where
  "str_or d v = (case v of Some s \<Rightarrow> s | None \<Rightarrow> d)"

definition changed_line :: "nat \<Rightarrow> jstr \<Rightarrow> jstr" where
  "changed_line limit s = clip_line limit (if first_non_empty_line s \<noteq> [] then first_non_empty_line s else flatten_ws s)"

definition middle_dot :: jstr where
  "middle_dot = [32, 183, 32]"

definition format_write_preview :: "jstr \<Rightarrow> json \<Rightarrow> jstr" where
  "format_write_preview path r =
     (let content = str_or [] (str_field ''content'' r);
          lines = (if content = [] then 0
                   else length (split_units (\<lambda>c. c = 10) (if last content = 10 then butlast content else content)));
          first = first_non_empty_line content
      in js_join middle_dot ([path, dec lines @ asc '' lines''] @ (if first \<noteq> [] then [clip_line 80 first] else [])))"

definition format_file_mutation_preview :: "bool \<Rightarrow> json \<Rightarrow> jstr" where
  "format_file_mutation_preview is_write r =
     (let path = (case str_field ''path'' r of Some p \<Rightarrow> if p \<noteq> [] then p else asc ''(no path)'' | None \<Rightarrow> asc ''(no path)'')
      in if is_write then format_write_preview path r
         else case obj_field (asc ''edits'') r of
           JArr (e # es) \<Rightarrow>
             path @ middle_dot @ dec (Suc (length es)) @ asc '' edits'' @ [10] @ asc ''- ''
               @ changed_line 50 (str_or [] (str_field ''old_string'' e)) @ [10] @ asc ''+ ''
               @ changed_line 50 (str_or [] (str_field ''new_string'' e))
         | _ \<Rightarrow>
             path @ (if obj_field (asc ''replace_all'') r = JBool True then middle_dot @ asc ''replace_all'' else [])
               @ [10] @ asc ''- '' @ changed_line 60 (str_or [] (str_field ''old_string'' r))
               @ [10] @ asc ''+ '' @ changed_line 60 (str_or [] (str_field ''new_string'' r)))"

text \<open>The branches of a record, one per tool, that may fall through to the generic ones.\<close>

definition task_preview :: "json \<Rightarrow> jstr option" where
  "task_preview r =
     (let title = (case str_field ''description'' r of
                     Some d \<Rightarrow> if js_trim d \<noteq> [] then js_trim d else js_trim (str_or [] (str_field ''title'' r))
                   | None \<Rightarrow> js_trim (str_or [] (str_field ''title'' r)));
          profile = js_trim (str_or [] (str_field ''modelProfileId'' r))
      in if title = [] then None
         else Some (title @ (if profile \<noteq> [] then middle_dot @ asc ''model='' @ profile else [])))"

definition named_preview :: "(json \<Rightarrow> jstr) \<Rightarrow> nat \<Rightarrow> jstr \<Rightarrow> json \<Rightarrow> jstr option" where
  "named_preview number_text limit name r =
     (if name = asc ''Edit'' \<or> name = asc ''Write'' then Some (format_file_mutation_preview (name = asc ''Write'') r)
      else if name = asc ''Delete'' \<and> str_field ''path'' r \<noteq> None then
        Some (asc ''delete '' @ str_or [] (str_field ''path'' r)
              @ (if obj_field (asc ''recursive'') r = JBool True then middle_dot @ asc ''recursive'' else []))
      else if name = asc ''Move'' then
        Some (str_or (asc ''?'') (str_field ''from'' r) @ [32, 8594, 32] @ str_or (asc ''?'') (str_field ''to'' r))
      else if name = asc ''ProcessStart'' \<and> str_field ''commandPreview'' r \<noteq> None then str_field ''commandPreview'' r
      else if name = asc ''ProcessStart'' \<and> str_field ''command'' r \<noteq> None then
        Some (format_process_command_preview limit (str_or [] (str_field ''command'' r)))
      else if name = asc ''Bash'' \<and> str_field ''command'' r \<noteq> None then Some (asc ''$ '' @ str_or [] (str_field ''command'' r))
      else if name = asc ''ProcessWrite'' \<and> str_field ''processId'' r \<noteq> None then
        Some (str_or [] (str_field ''processId'' r) @ middle_dot
              @ number_text (case obj_field (asc ''textBytes'') r of JUndefined \<Rightarrow> JNum (Num 0) | JNull \<Rightarrow> JNum (Num 0) | v \<Rightarrow> v)
              @ asc '' bytes'' @ (if obj_field (asc ''eof'') r = JBool True then middle_dot @ asc ''EOF'' else []))
      else if name = asc ''Task'' then task_preview r
      else if name = asc ''SetMode'' \<and> str_field ''mode'' r \<noteq> None then
        Some (asc ''mode '' @ [8594, 32] @ str_or [] (str_field ''mode'' r)
              @ (let reason = js_trim (str_or [] (str_field ''reason'' r)) in if reason \<noteq> [] then middle_dot @ reason else []))
      else None)"

definition path_preview :: "json \<Rightarrow> jstr option" where
  "path_preview r = (case str_field ''path'' r of
     None \<Rightarrow> None
   | Some path \<Rightarrow> Some (path @ (case str_field ''pattern'' r of
        Some p \<Rightarrow> asc '' pattern='' @ p
      | None \<Rightarrow> (case str_field ''glob'' r of Some g \<Rightarrow> asc '' glob='' @ g | None \<Rightarrow> []))))"

definition format_tool_input_preview ::
  "(jnum \<Rightarrow> jstr) \<Rightarrow> (json \<Rightarrow> jstr) \<Rightarrow> jstr option \<Rightarrow> json \<Rightarrow> nat \<Rightarrow> jstr" where
  "format_tool_input_preview nt number_text tool_name input limit = (case input of
     JUndefined \<Rightarrow> []
   | JNull \<Rightarrow> []
   | JStr s \<Rightarrow> ellipsis_cut limit s
   | JObj es \<Rightarrow>
       ellipsis_cut limit (case named_preview number_text limit (str_or [] tool_name) input of
         Some text \<Rightarrow> text
       | None \<Rightarrow> (case path_preview input of
           Some text \<Rightarrow> text
         | None \<Rightarrow> str_or [] (stringify nt input)))
   | _ \<Rightarrow> ellipsis_cut limit (str_or [] (stringify nt input)))"

section \<open>What a command preview reveals\<close>

text \<open>
  The part of a token the preview may show: operators, the key of an inline assignment, the safe
  name of an executable, the safe name of a flag. Everything else about the token is hidden.
\<close>

datatype visible = VControl jstr | VAssign jstr | VCommand jstr | VFlag jstr | VArgument

fun visible_tokens :: "bool \<Rightarrow> jstr list \<Rightarrow> visible list" where
  "visible_tokens expects [] = []"
| "visible_tokens expects (token # tokens) =
     (if is_command_separator token then VControl token # visible_tokens True tokens
      else if is_shell_operator token then VControl token # visible_tokens expects tokens
      else if expects then
        (case assignment_key token of
           Some name \<Rightarrow> VAssign name # visible_tokens True tokens
         | None \<Rightarrow> VCommand (safe_executable_name token) # visible_tokens False tokens)
      else (if is_flag_token token then VFlag (safe_flag_name token) else VArgument) # visible_tokens False tokens)"

text \<open>The shape is a function of the visible parts.\<close>

definition shape_visible :: "command_shape \<Rightarrow> visible \<Rightarrow> command_shape" where
  "shape_visible st v = (case v of
     VControl token \<Rightarrow> if is_command_separator token then st\<lparr>cs_expects := True\<rparr> else st
   | VAssign name \<Rightarrow> if length (cs_env_keys st) < 4 then st\<lparr>cs_env_keys := cs_env_keys st @ [name @ [61, 8230]]\<rparr> else st
   | VCommand name \<Rightarrow> st\<lparr>cs_commands := cs_commands st @ [name], cs_expects := False\<rparr>
   | VFlag name \<Rightarrow> if length (cs_flags st) < 8 then st\<lparr>cs_flags := cs_flags st @ [name]\<rparr> else st
   | VArgument \<Rightarrow> st\<lparr>cs_arguments := Suc (cs_arguments st)\<rparr>)"

lemma visible_step:
  "\<exists>v. visible_tokens (cs_expects st) (token # tokens) = v # visible_tokens (cs_expects (shape_token st token)) tokens
     \<and> shape_visible st v = shape_token st token"
  by (cases "assignment_key token") (simp_all add: shape_token_def shape_visible_def)

lemma shape_of_visible:
  "foldl shape_token st tokens = foldl shape_visible st (visible_tokens (cs_expects st) tokens)"
proof (induction tokens arbitrary: st)
  case (Cons token tokens)
  obtain v where "visible_tokens (cs_expects st) (token # tokens) = v # visible_tokens (cs_expects (shape_token st token)) tokens"
    "shape_visible st v = shape_token st token" using visible_step by blast
  then show ?case using Cons.IH [of "shape_token st token"] by (simp del: visible_tokens.simps)
qed simp

lemma ellipsis_cut_length: "0 < limit \<Longrightarrow> length (ellipsis_cut limit s) \<le> limit"
  by (simp add: ellipsis_cut_def)




end
