(* ===== verification/Summarizer.thy ===== *)
theory Summarizer
  imports Conversation_Thread Text_Preview
begin

text \<open>
  The summarizers of the context governor (\<open>packages/core/src/context/summarizer.ts\<close>): the
  extractive one, which lists what happened turn by turn, and the one that asks a model and falls
  back to the extractive one. The model client is the parameter \<open>client\<close>, the prompt catalogue
  \<open>renderPrompt\<close> is the parameter \<open>prompt\<close>, and the rendering of numbers inside JSON is \<open>nt\<close>.
  The signal is given by its state before and after the call of the model.
\<close>

section \<open>The extractive summary\<close>

record summarize_turn =
  st_turn :: jstr
  st_entries :: "thread_entry list"

record summarize_options =
  so_previous :: "jstr option"
  so_instructions :: "jstr option"

type_synonym summarizer = "summarize_turn list \<Rightarrow> summarize_options \<Rightarrow> js_error + jstr"

text \<open>
  \<open>safeJson\<close>: \<open>JSON.stringify(undefined)\<close> is \<open>undefined\<close>, and clipping it throws.
\<close>

definition no_text :: js_error where
  "no_text = named_error ''TypeError'' (asc ''Cannot read properties of undefined (reading '' @ [39] @ asc ''replace'' @ [39] @ asc '')'')"

definition call_text :: "(jnum \<Rightarrow> jstr) \<Rightarrow> tool_call \<Rightarrow> js_error + jstr" where
  "call_text nt c = (case stringify nt (call_input c) of
     None \<Rightarrow> Inl no_text
   | Some t \<Rightarrow> Inr (call_name c @ [40] @ clip_line 2000 t @ [41]))"

definition labelled :: "jstr \<Rightarrow> jstr \<Rightarrow> jstr list" where
  "labelled label text = (if text \<noteq> [] then [label @ text] else [])"

definition assistant_parts :: "(jnum \<Rightarrow> jstr) \<Rightarrow> message \<Rightarrow> js_error + jstr list" where
  "assistant_parts nt m =
     (let parts = labelled ([21161, 25163, 58, 32]) (clip_line 4000 (msg_content m))
      in (case m of
            ChatMsg RAssistant c (Some tcs) \<Rightarrow>
              (case map_err (call_text nt) tcs of
                 Inl e \<Rightarrow> Inl e
               | Inr ts \<Rightarrow> Inr (parts @ labelled ([24037, 20855, 35843, 29992, 58, 32]) (js_join (asc '', '') ts)))
          | _ \<Rightarrow> Inr parts))"

definition entry_parts :: "(jnum \<Rightarrow> jstr) \<Rightarrow> thread_entry \<Rightarrow> js_error + jstr list" where
  "entry_parts nt e = (case en_kind e of
     UserEntry \<Rightarrow> Inr (labelled ([29992, 25143, 58, 32]) (clip_line 2000 (msg_content (en_message e))))
   | AssistantEntry \<Rightarrow> assistant_parts nt (en_message e)
   | ToolResultEntry \<Rightarrow> Inr (case en_message e of
       ToolMsg i n c \<Rightarrow> [[24037, 20855, 32] @ n @ asc '': '' @ clip_line 2000 (case en_summary e of Some s \<Rightarrow> s | None \<Rightarrow> c)]
     | _ \<Rightarrow> [])
   | NoticeEntry \<Rightarrow> Inr (labelled ([29366, 24577, 58, 32]) (clip_line 1000 (msg_content (en_message e))))
   | CompactionEntry \<Rightarrow> Inr [])"

definition turn_lines :: "(jnum \<Rightarrow> jstr) \<Rightarrow> summarize_turn \<Rightarrow> js_error + jstr list" where
  "turn_lines nt turn = (case map_err (entry_parts nt) (st_entries turn) of
     Inl e \<Rightarrow> Inl e
   | Inr pss \<Rightarrow> Inr (let parts = concat pss in
       if parts \<noteq> [] then [[45, 32, 36718, 27425, 32] @ st_turn turn @ asc '': '' @ js_join (asc ''; '') parts] else []))"

definition nothing_left :: jstr where
  "nothing_left = [26089, 21069, 23545, 35805, 24050, 21387, 32553, 65307, 32454, 33410, 19981, 21487, 29992, 12290]"

definition build_extractive_turn_summary :: "(jnum \<Rightarrow> jstr) \<Rightarrow> summarize_turn list \<Rightarrow> js_error + jstr" where
  "build_extractive_turn_summary nt turns = (case map_err (turn_lines nt) turns of
     Inl e \<Rightarrow> Inl e
   | Inr lss \<Rightarrow> Inr (let lines = concat lss in if lines = [] then nothing_left else js_join [10] lines))"

definition merge_fallback_summary :: "(jnum \<Rightarrow> jstr) \<Rightarrow> jstr option \<Rightarrow> summarize_turn list \<Rightarrow> js_error + jstr" where
  "merge_fallback_summary nt previous_summary turns = (case build_extractive_turn_summary nt turns of
     Inl e \<Rightarrow> Inl e
   | Inr fresh \<Rightarrow>
       (let previous = (case previous_summary of Some p \<Rightarrow> js_trim p | None \<Rightarrow> [])
        in Inr (if previous = [] then fresh
                else if turns = [] then previous
                else js_join [10, 10] [[26082, 26377, 25688, 35201, 65306] @ [10] @ clip_line 12000 previous, [26032, 22686, 21382, 21490, 65306] @ [10] @ fresh])))"

definition extractive_summarize :: "(jnum \<Rightarrow> jstr) \<Rightarrow> abort_state \<Rightarrow> summarizer" where
  "extractive_summarize nt signal turns opt = (case throw_if_aborted signal of
     Inl e \<Rightarrow> Inl e
   | Inr _ \<Rightarrow> merge_fallback_summary nt (so_previous opt) turns)"

section \<open>The summary of a model\<close>

definition compaction_request :: "(jstr \<Rightarrow> (jstr \<times> jstr) list \<Rightarrow> jstr) \<Rightarrow> jstr \<Rightarrow> summarize_options \<Rightarrow> message list" where
  "compaction_request prompt transcript opt =
     (let prior = (case so_previous opt of Some p \<Rightarrow> js_trim p | None \<Rightarrow> []);
          instructions = (case so_instructions opt of Some i \<Rightarrow> js_trim i | None \<Rightarrow> []);
          parts = [if prior \<noteq> [] then prompt (asc ''context.compaction.previous'') [(asc ''summary'', prior)] else [],
                   prompt (asc ''context.compaction.turns'') [(asc ''transcript'', transcript)],
                   if instructions \<noteq> [] then prompt (asc ''context.compaction.instructions'') [(asc ''instructions'', instructions)] else []]
      in [ChatMsg RSystem (prompt (asc ''context.compaction.system'') []) None,
          ChatMsg RUser (js_join [10, 10] (filter (\<lambda>p. p \<noteq> []) parts)) None])"

definition llm_summarize ::
  "(jnum \<Rightarrow> jstr) \<Rightarrow> (jstr \<Rightarrow> (jstr \<times> jstr) list \<Rightarrow> jstr) \<Rightarrow> (message list \<Rightarrow> js_error + jstr option) option \<Rightarrow>
   abort_state \<Rightarrow> abort_state \<Rightarrow> summarizer" where
  "llm_summarize nt prompt client signal signal_after turns opt = (case throw_if_aborted signal of
     Inl e \<Rightarrow> Inl e
   | Inr _ \<Rightarrow>
       (case client of
          None \<Rightarrow> extractive_summarize nt signal turns opt
        | Some ask \<Rightarrow>
            if turns = [] \<and> (so_previous opt = None \<or> so_previous opt = Some []) then extractive_summarize nt signal turns opt
            else case build_extractive_turn_summary nt turns of
              Inl e \<Rightarrow> Inl e
            | Inr transcript \<Rightarrow>
                (let fallback = (case throw_if_aborted signal_after of
                                   Inl e \<Rightarrow> Inl e
                                 | Inr _ \<Rightarrow> extractive_summarize nt signal_after turns opt)
                 in (case ask (compaction_request prompt transcript opt) of
                       Inl e \<Rightarrow> if is_operation_aborted e signal_after then Inl e else fallback
                     | Inr reply \<Rightarrow>
                         (let text = (case reply of Some r \<Rightarrow> js_trim r | None \<Rightarrow> [])
                          in if text \<noteq> [] then Inr text else fallback)))))"

end
