(* ===== verification/Context_Governor.thy ===== *)
theory Context_Governor
  imports Summarizer
begin

text \<open>
  The governor that keeps the message stream inside its token budget
  (\<open>packages/core/src/context/contextGovernor.ts\<close>): ageing of tool results, compaction of the oldest
  turns into a summary, and hard truncation of single messages.

  Parameters: \<open>est\<close> gives the tokens of a message, \<open>kilo\<close> is the text of \<open>(tokens / 1000).toFixed(1)\<close>,
  which depends on the binary rounding of the quotient, and \<open>summarize\<close> is the summarizer with
  the state of the signal after its call. The source iterates over entry objects it also mutates;
  here an entry is read at its position in the current thread, which no stage changes before it
  has been visited. Nothing else runs between the calls of one \<open>govern\<close>; the code awaits only the
  summarizer.
\<close>

section \<open>Results\<close>

datatype governance_stage = ToolAging | TurnCompaction | HardTruncation

datatype maintenance_reason = RToolAging | RTurnCompaction | RHardTruncation | RRestoreTruncation | RManual | RPreRequest

record maintenance =
  mt_compacted :: bool
  mt_stage :: "governance_stage option"
  mt_reason :: "maintenance_reason option"
  mt_dropped :: nat
  mt_preserved :: nat
  mt_tokens_before :: nat
  mt_tokens_after :: nat
  mt_chars_before :: nat
  mt_chars_after :: nat
  mt_summary_chars :: "nat option"
  mt_dropped_turns :: "nat option"

record govern_result =
  gr_maintenance :: "maintenance list"
  gr_tokens_after :: nat

definition estimate_thread_tokens :: "thread \<Rightarrow> nat" where
  "estimate_thread_tokens t = sum_list (map en_tokens (th_entries t))"

definition recalc_tool_tokens :: "thread \<Rightarrow> nat" where
  "recalc_tool_tokens t = sum_list (map en_tokens (filter (\<lambda>e. en_kind e = ToolResultEntry) (th_entries t)))"

definition empty_maintenance :: "thread \<Rightarrow> nat \<Rightarrow> nat \<Rightarrow> maintenance" where
  "empty_maintenance t before after =
     \<lparr>mt_compacted = False, mt_stage = None, mt_reason = None, mt_dropped = 0, mt_preserved = length (th_entries t),
      mt_tokens_before = before, mt_tokens_after = after, mt_chars_before = before * 4, mt_chars_after = after * 4,
      mt_summary_chars = None, mt_dropped_turns = None\<rparr>"

definition stage_maintenance :: "governance_stage \<Rightarrow> maintenance_reason \<Rightarrow> thread \<Rightarrow> nat \<Rightarrow> nat \<Rightarrow> maintenance" where
  "stage_maintenance stage reason t before after =
     (empty_maintenance t before after)\<lparr>mt_compacted := True, mt_stage := Some stage, mt_reason := Some reason\<rparr>"

section \<open>Shortened contents\<close>

definition omitted_middle :: jstr where
  "omitted_middle = [10, 8230, 91, 20013, 38388, 24050, 30465, 30053, 93, 8230, 10]"

definition truncate_head_tail :: "jstr \<Rightarrow> int \<Rightarrow> jstr" where
  "truncate_head_tail content max_tokens =
     (let max_chars = nat (max 32 (max_tokens * 4))
      in if length content \<le> max_chars then content
         else let half = (max_chars - 20) div 2
              in take half content @ omitted_middle @ js_slice_last half content)"

definition format_token_count :: "(nat \<Rightarrow> jstr) \<Rightarrow> nat \<Rightarrow> jstr" where
  "format_token_count kilo tokens = (if 1000 \<le> tokens then kilo tokens @ asc ''K'' else dec tokens)"

definition elided_frame :: "jstr \<Rightarrow> jstr \<Rightarrow> jstr \<Rightarrow> jstr" where
  "elided_frame name preview tokens =
     [91, 24050, 30465, 30053, 58, 32] @ name @ asc '' '' @ preview @ [44, 32, 21407, 22987, 32422, 32] @ tokens @ asc '' tokens]''"

definition build_elided_tool_content :: "(nat \<Rightarrow> jstr) \<Rightarrow> thread_entry \<Rightarrow> jstr" where
  "build_elided_tool_content kilo e = (case en_message e of
     ChatMsg r c tcs \<Rightarrow> c
   | ToolMsg i name c \<Rightarrow>
       elided_frame name (case en_summary e of Some s \<Rightarrow> take 80 s | None \<Rightarrow> clip_line 60 c)
         (format_token_count kilo (case en_original e of Some n \<Rightarrow> n | None \<Rightarrow> en_tokens e))
       @ (case en_summary e of Some s \<Rightarrow> if s \<noteq> [] then [10, 25688, 35201, 58, 32] @ clip_line 200 s else [] | None \<Rightarrow> []))"

definition build_elided_preview ::
  "(jnum \<Rightarrow> jstr) \<Rightarrow> (json \<Rightarrow> jstr) \<Rightarrow> (nat \<Rightarrow> jstr) \<Rightarrow> jstr \<Rightarrow> json \<Rightarrow> nat \<Rightarrow> jstr" where
  "build_elided_preview nt number_text kilo name input original =
     elided_frame name (format_tool_input_preview nt number_text (Some name) input 80) (format_token_count kilo original)"

section \<open>Stage 1: ageing of tool results\<close>

record ageing =
  ag_thread :: thread
  ag_tokens :: nat
  ag_changed :: bool

definition tool_positions :: "thread \<Rightarrow> nat list" where
  "tool_positions t = filter (\<lambda>i. en_kind (th_entries t ! i) = ToolResultEntry) [0..<length (th_entries t)]"

definition cap_result :: "estimate \<Rightarrow> context_policy \<Rightarrow> nat \<Rightarrow> ageing \<Rightarrow> ageing" where
  "cap_result est policy i s =
     (let e = th_entries (ag_thread s) ! i
      in if max_tool_result_tokens policy < int (en_tokens e) then
           let t = truncate_entry est (en_id e)
                     (truncate_head_tail (msg_content (en_message e)) (max_tool_result_tokens policy)) (ag_thread s)
           in \<lparr>ag_thread = t, ag_tokens = recalc_tool_tokens t, ag_changed = True\<rparr>
         else s)"

definition iteration_of :: "thread_entry \<Rightarrow> int" where
  "iteration_of e = (case en_iteration e of Some n \<Rightarrow> n | None \<Rightarrow> 0)"

fun age_results :: "estimate \<Rightarrow> (nat \<Rightarrow> jstr) \<Rightarrow> context_policy \<Rightarrow> int \<Rightarrow> nat list \<Rightarrow> ageing \<Rightarrow> ageing" where
  "age_results est kilo policy keep_from [] s = s"
| "age_results est kilo policy keep_from (i # is) s =
     (let e = th_entries (ag_thread s) ! i;
          should_age = (iteration_of e < keep_from \<or> tool_result_quota policy < int (ag_tokens s))
      in if \<not> should_age \<or> en_elided e = Some True then age_results est kilo policy keep_from is s
         else let t = elide_tool_result est (en_id e) (build_elided_tool_content kilo e) (ag_thread s);
                  tokens = recalc_tool_tokens t;
                  s = \<lparr>ag_thread = t, ag_tokens = tokens, ag_changed = True\<rparr>
              in if int tokens \<le> tool_result_quota policy then s else age_results est kilo policy keep_from is s)"

definition apply_tool_aging :: "estimate \<Rightarrow> (nat \<Rightarrow> jstr) \<Rightarrow> context_policy \<Rightarrow> thread \<Rightarrow> thread \<times> bool \<times> maintenance" where
  "apply_tool_aging est kilo policy t =
     (let before = estimate_thread_tokens t; positions = tool_positions t
      in if positions = [] then (t, False, empty_maintenance t before before)
         else let newest = Max (set (map (\<lambda>i. iteration_of (th_entries t ! i)) positions));
                  keep_from = newest - preserve_tool_iterations policy + 1;
                  start = \<lparr>ag_thread = t, ag_tokens = recalc_tool_tokens t, ag_changed = False\<rparr>;
                  capped = foldl (\<lambda>s i. cap_result est policy i s) start positions;
                  aged = age_results est kilo policy keep_from positions capped;
                  after = estimate_thread_tokens (ag_thread aged)
              in if ag_changed aged
                 then (ag_thread aged, True, stage_maintenance ToolAging RToolAging (ag_thread aged) before after)
                 else (ag_thread aged, False, empty_maintenance (ag_thread aged) before after))"

section \<open>Choosing the prefix to compact\<close>

record entry_range =
  er_turn :: jstr
  er_start :: nat
  er_end :: nat
  er_tokens :: nat

lemma length_dropWhile_less [termination_simp]: "length (dropWhile P xs) < Suc (length xs)"
  by (simp add: length_dropWhile_le le_imp_less_Suc)

fun ranges_from :: "thread \<Rightarrow> nat \<Rightarrow> thread_entry list \<Rightarrow> entry_range list" where
  "ranges_from t i [] = []"
| "ranges_from t i (e # es) =
     (let run = e # takeWhile (\<lambda>x. en_turn x = en_turn e) es;
          rest = dropWhile (\<lambda>x. en_turn x = en_turn e) es;
          more = ranges_from t (i + length run) rest;
          status = turn_status_of t (en_turn e)
      in if th_open t \<noteq> Some (en_turn e) \<and> \<not> list_all (\<lambda>x. en_kind x = CompactionEntry) run
            \<and> (status = Some TurnCommitted \<or> status = Some TurnAborted)
         then \<lparr>er_turn = en_turn e, er_start = i, er_end = i + length run, er_tokens = sum_list (map en_tokens run)\<rparr> # more
         else more)"

definition get_compactable_ranges :: "thread \<Rightarrow> entry_range list" where
  "get_compactable_ranges t = ranges_from t 0 (th_entries t)"

definition find_safe_suffix_start :: "thread_entry list \<Rightarrow> entry_range \<Rightarrow> int \<Rightarrow> nat option" where
  "find_safe_suffix_start entries r budget =
     List.find (\<lambda>i. en_kind (entries ! i) = AssistantEntry \<and> is_assistant_msg (en_message (entries ! i))
                 \<and> int (sum_list (map en_tokens (drop i (take (er_end r) entries)))) \<le> budget)
       [Suc (er_start r)..<er_end r]"

record compaction_selection =
  sel_count :: nat
  sel_turns :: "summarize_turn list"
  sel_previous :: jstr
  sel_dropped :: nat
  sel_dropped_turns :: nat

definition build_compaction_selection :: "thread_entry list \<Rightarrow> nat \<Rightarrow> compaction_selection option" where
  "build_compaction_selection entries entry_count =
     (if entry_count = 0 then None
      else let prefix = take entry_count entries;
               summaries = filter (\<lambda>s. s \<noteq> []) (map (\<lambda>e. extract_compaction_body (msg_content (en_message e)))
                             (filter (\<lambda>e. en_kind e = CompactionEntry) prefix));
               others = filter (\<lambda>e. en_kind e \<noteq> CompactionEntry) prefix;
               turns = map (\<lambda>x. \<lparr>st_turn = x, st_entries = filter (\<lambda>e. en_turn e = x) others\<rparr>) (uniq_first (map en_turn others))
           in if turns = [] \<and> summaries = [] then None
              else Some \<lparr>sel_count = entry_count, sel_turns = turns, sel_previous = js_join [10, 10] summaries,
                         sel_dropped = length others, sel_dropped_turns = length turns\<rparr>)"

text \<open>The policy never asks to preserve a negative number of turns, for which the source would fail on no ranges.\<close>

definition select_manual_prefix :: "thread \<Rightarrow> int \<Rightarrow> compaction_selection option" where
  "select_manual_prefix t preserve =
     (let ranges = get_compactable_ranges t
      in if int (length ranges) \<le> preserve then None
         else build_compaction_selection (th_entries t)
                (if preserve \<le> 0 then er_end (last ranges) else er_start (ranges ! (length ranges - nat preserve))))"

text \<open>The loop from the newest range to the oldest; the list of ranges is reversed.\<close>

fun automatic_boundary :: "thread_entry list \<Rightarrow> int \<Rightarrow> nat \<Rightarrow> nat \<Rightarrow> entry_range list \<Rightarrow> nat" where
  "automatic_boundary entries budget retained boundary [] = boundary"
| "automatic_boundary entries budget retained boundary (r # rs) =
     (if int (retained + er_tokens r) \<le> budget
      then automatic_boundary entries budget (retained + er_tokens r) (er_start r) rs
      else if retained = 0
           then (case find_safe_suffix_start entries r budget of Some i \<Rightarrow> i | None \<Rightarrow> er_start r)
           else er_end r)"

definition select_automatic_prefix :: "thread \<Rightarrow> int \<Rightarrow> compaction_selection option" where
  "select_automatic_prefix t preserve =
     (let ranges = get_compactable_ranges t
      in if ranges = [] then None
         else build_compaction_selection (th_entries t)
                (automatic_boundary (th_entries t) (max 1 preserve) 0 (er_end (last ranges)) (rev ranges)))"

section \<open>Stage 2: compaction of turns\<close>

definition compact_prefix ::
  "estimate \<Rightarrow> summarizer \<Rightarrow> abort_state \<Rightarrow> maintenance_reason \<Rightarrow> jstr option \<Rightarrow> compaction_selection \<Rightarrow> thread \<Rightarrow>
   (thread, js_error, maintenance) outcome" where
  "compact_prefix est summarize signal_after reason instructions sel t =
     (let before = estimate_thread_tokens t
      in (case summarize (sel_turns sel) \<lparr>so_previous = Some (sel_previous sel), so_instructions = instructions\<rparr> of
            Inl e \<Rightarrow> (t, Inl e)
          | Inr summary \<Rightarrow>
              (case throw_if_aborted signal_after of
                 Inl e \<Rightarrow> (t, Inl e)
               | Inr _ \<Rightarrow>
                   (let t = replace_prefix_with_compaction est (int (sel_count sel)) summary t
                    in (t, Inr ((stage_maintenance TurnCompaction reason t before (estimate_thread_tokens t))
                             \<lparr>mt_dropped := sel_dropped sel, mt_dropped_turns := Some (sel_dropped_turns sel),
                              mt_summary_chars := Some (length summary)\<rparr>))))))"

definition apply_turn_compaction ::
  "estimate \<Rightarrow> summarizer \<Rightarrow> abort_state \<Rightarrow> context_policy \<Rightarrow> int \<Rightarrow> thread \<Rightarrow> (thread, js_error, bool \<times> maintenance) outcome" where
  "apply_turn_compaction est summarize signal_after policy budget t =
     (let before = estimate_thread_tokens t
      in if int before \<le> budget then (t, Inr (False, empty_maintenance t before before))
         else (case select_automatic_prefix t (min (preserve_recent_tokens policy) (max 0 budget)) of
                 None \<Rightarrow> (t, Inr (False, empty_maintenance t before before))
               | Some sel \<Rightarrow>
                   (case compact_prefix est summarize signal_after RTurnCompaction None sel t of
                      (t, Inl e) \<Rightarrow> (t, Inl e)
                    | (t, Inr r) \<Rightarrow> (t, Inr (mt_compacted r, r)))))"

definition compact_turns_now ::
  "estimate \<Rightarrow> summarizer \<Rightarrow> abort_state \<Rightarrow> abort_state \<Rightarrow> context_policy \<Rightarrow> jstr option \<Rightarrow> thread \<Rightarrow>
   (thread, js_error, maintenance) outcome" where
  "compact_turns_now est summarize signal signal_after policy instructions t =
     (case throw_if_aborted signal of
        Inl e \<Rightarrow> (t, Inl e)
      | Inr _ \<Rightarrow>
          (case select_manual_prefix t (preserve_full_turns policy) of
             None \<Rightarrow> (t, Inr ((empty_maintenance t (estimate_thread_tokens t) (estimate_thread_tokens t))\<lparr>mt_reason := Some RManual\<rparr>))
           | Some sel \<Rightarrow> compact_prefix est summarize signal_after RManual instructions sel t))"

section \<open>Stage 3: hard truncation\<close>

definition truncation_notice :: "thread_entry \<Rightarrow> jstr" where
  "truncation_notice e =
     [10, 10, 91, 24050, 25130, 26029, 58, 32, 21333, 26465, 28040, 24687, 36229, 20986, 39044, 31639, 65292, 21407, 25991, 32422, 32] @ dec (case en_original e of Some n \<Rightarrow> n | None \<Rightarrow> en_tokens e) @ asc '' tokens]''"

definition truncated_notice :: "thread_entry_kind \<Rightarrow> jstr" where
  "truncated_notice k = [21333, 26465, 28040, 24687, 24050, 30828, 25130, 26029, 32, 40] @ kind_text_of k @ [41]"

definition hard_truncate_entry :: "estimate \<Rightarrow> int \<Rightarrow> thread_entry \<Rightarrow> thread \<Rightarrow> thread" where
  "hard_truncate_entry est cap e t =
     add_notice est (truncated_notice (en_kind e))
       (truncate_entry est (en_id e) (truncate_head_tail (msg_content (en_message e)) cap @ truncation_notice e) t)"

text \<open>
  The loop runs over the live array: the notices it appends are visited as well. \<open>None\<close> stands
  for a loop that does not end.
\<close>

partial_function (option) hard_truncate_from ::
  "estimate \<Rightarrow> int \<Rightarrow> nat \<Rightarrow> thread \<Rightarrow> bool \<Rightarrow> (thread \<times> bool) option" where
  "hard_truncate_from est cap i t changed =
     (if length (th_entries t) \<le> i then Some (t, changed)
      else let e = th_entries t ! i
           in if int (en_tokens e) \<le> cap then hard_truncate_from est cap (Suc i) t changed
              else hard_truncate_from est cap (Suc i) (hard_truncate_entry est cap e t) True)"

definition per_message_cap :: "int \<Rightarrow> thread \<Rightarrow> int" where
  "per_message_cap budget t = max 256 (budget div int (max 1 (length (th_entries t))))"

definition apply_hard_truncation :: "estimate \<Rightarrow> int \<Rightarrow> thread \<Rightarrow> (thread \<times> bool \<times> maintenance) option" where
  "apply_hard_truncation est budget t =
     (let before = estimate_thread_tokens t
      in if int before \<le> budget then Some (t, False, empty_maintenance t before before)
         else map_option (\<lambda>(t, changed).
                let after = estimate_thread_tokens t
                in if changed then (t, True, stage_maintenance HardTruncation RHardTruncation t before after)
                   else (t, False, empty_maintenance t before after))
              (hard_truncate_from est (per_message_cap budget t) 0 t False))"

section \<open>The pipeline\<close>

definition govern ::
  "estimate \<Rightarrow> (nat \<Rightarrow> jstr) \<Rightarrow> summarizer \<Rightarrow> abort_state \<Rightarrow> abort_state \<Rightarrow> context_policy \<Rightarrow> int \<Rightarrow> thread \<Rightarrow>
   (thread, js_error, govern_result) outcome option" where
  "govern est kilo summarize signal signal_after policy budget t =
     (case throw_if_aborted signal of
        Inl e \<Rightarrow> Some (t, Inl e)
      | Inr _ \<Rightarrow>
          if int (estimate_thread_tokens t) \<le> budget
          then Some (t, Inr \<lparr>gr_maintenance = [], gr_tokens_after = estimate_thread_tokens t\<rparr>)
          else
            (let (t1, changed1, m1) = apply_tool_aging est kilo policy t;
                 ms1 = (if changed1 then [m1] else []);
                 done = (\<lambda>ms t. Some (t, Inr \<lparr>gr_maintenance = ms, gr_tokens_after = estimate_thread_tokens t\<rparr>))
             in if changed1 \<and> int (estimate_thread_tokens t1) \<le> budget then done ms1 t1
                else (case apply_turn_compaction est summarize signal_after policy budget t1 of
                        (t2, Inl e) \<Rightarrow> Some (t2, Inl e)
                      | (t2, Inr (changed2, m2)) \<Rightarrow>
                          (case throw_if_aborted signal_after of
                             Inl e \<Rightarrow> Some (t2, Inl e)
                           | Inr _ \<Rightarrow>
                               (let ms2 = ms1 @ (if changed2 then [m2] else [])
                                in if changed2 \<and> int (estimate_thread_tokens t2) \<le> budget then done ms2 t2
                                   else (case apply_hard_truncation est budget t2 of
                                           None \<Rightarrow> None
                                         | Some (t3, changed3, m3) \<Rightarrow>
                                             done (ms2 @ (if changed3 then [m3] else [])) t3))))))"

end
