(* ===== verification/Governor_Safety.thy ===== *)
theory Governor_Safety
  imports Context_Governor
begin

text \<open>
  What the governor may and may not do to a conversation: it terminates, it is a sequence of thread
  operations, it keeps the pairing of tool calls and results that the model protocol demands, and
  it never touches the open turn except to shorten its texts and append notices.
\<close>

section \<open>The pairing of tool calls and results\<close>

text \<open>
  A tool result answers a call of the latest assistant message of its own turn. \<open>turn\<close> is the turn
  of the previous entry and \<open>ids\<close> are the calls its assistant message made.
\<close>

fun protocol_from :: "jstr option \<Rightarrow> jstr list \<Rightarrow> thread_entry list \<Rightarrow> bool" where
  "protocol_from turn ids [] = True"
| "protocol_from turn ids (e # es) =
     (let ids = (if turn = Some (en_turn e) then ids else [])
      in set (answered_ids (en_message e)) \<subseteq> set ids
         \<and> protocol_from (Some (en_turn e)) (if is_assistant_msg (en_message e) then requested_ids (en_message e) else ids) es)"

definition protocol_ok :: "thread_entry list \<Rightarrow> bool" where
  "protocol_ok es = protocol_from None [] es"

lemma assistant_answers_nothing: "is_assistant_msg m \<Longrightarrow> answered_ids m = []"
  by (cases m) auto

lemma protocol_snoc:
  "protocol_from turn ids es \<Longrightarrow> answered_ids (en_message e) = [] \<Longrightarrow> protocol_from turn ids (es @ [e])"
  by (induction es arbitrary: turn ids) (auto simp: Let_def)

lemma protocol_suffix:
  "protocol_from turn ids (xs @ ys) \<Longrightarrow> \<exists>ids'. protocol_from (if xs = [] then turn else Some (en_turn (last xs))) ids' ys"
proof (induction xs arbitrary: turn ids)
  case (Cons x xs)
  then show ?case by (cases "xs = []") (auto simp: Let_def)
qed auto

text \<open>A place where the entries may be cut: between two turns, or before an assistant message.\<close>

definition cut_ok :: "thread_entry list \<Rightarrow> nat \<Rightarrow> bool" where
  "cut_ok es b \<longleftrightarrow> b \<le> length es \<and>
     (b = length es \<or> (0 < b \<and> en_turn (es ! b) \<noteq> en_turn (es ! (b - 1))) \<or> b = 0 \<or> is_assistant_msg (en_message (es ! b)))"

lemma protocol_cut:
  assumes "protocol_ok es" and "cut_ok es b"
  shows "protocol_from turn [] (drop b es)"
proof (cases "drop b es")
  case Nil
  then show ?thesis by simp
next
  case (Cons e rest)
  then have b: "b < length es" "es ! b = e"
    by (metis drop_all leI list.distinct(1), metis drop_all hd_drop_conv_nth leI list.distinct(1) list.sel(1))
  have "protocol_from None [] (take b es @ drop b es)" using assms(1) by (simp only: protocol_ok_def append_take_drop_id)
  from protocol_suffix [OF this, unfolded Cons]
  obtain ids where "protocol_from (if take b es = [] then None else Some (en_turn (last (take b es)))) ids (e # rest)" by blast
  moreover have "protocol_from None [] (e # rest)" if "b = 0" using that assms(1) Cons by (simp add: protocol_ok_def)
  moreover have "last (take b es) = es ! (b - 1)" if "0 < b" using that b by (cases b) (simp_all add: take_Suc_conv_app_nth)
  ultimately show ?thesis
    using assms(2) b unfolding Cons cut_ok_def by (auto simp: Let_def assistant_answers_nothing split: if_splits)
qed

section \<open>Rewrites that keep the protocol\<close>

text \<open>
  The contract of a rewrite of one entry: it may change the text, the estimate and the marks, and
  nothing the protocol or the thread looks at.
\<close>

definition skeleton :: "thread_entry \<Rightarrow> jstr \<times> jstr \<times> thread_entry_kind \<times> bool \<times> jstr list \<times> jstr list" where
  "skeleton e = (en_id e, en_turn e, en_kind e, is_assistant_msg (en_message e),
     requested_ids (en_message e), answered_ids (en_message e))"

lemma protocol_of_skeleton:
  "map skeleton es = map skeleton es' \<Longrightarrow> protocol_from turn ids es = protocol_from turn ids es'"
proof (induction es arbitrary: es' turn ids)
  case (Cons e es)
  then obtain e' es'' where es': "es' = e' # es''" "skeleton e = skeleton e'" "map skeleton es = map skeleton es''" by auto
  have "protocol_from turn ids es = protocol_from turn ids es''" for turn ids by (rule Cons.IH [OF es'(3)])
  with es'(2) show ?case unfolding es'(1) by (simp add: skeleton_def Let_def)
qed auto

locale text_rewrite =
  fixes f :: "thread_entry \<Rightarrow> thread_entry"
  assumes keeps_skeleton: "skeleton (f e) = skeleton e"
begin

lemma skeletons_update: "map skeleton (update_first p f es) = map skeleton es"
  by (induction es) (simp_all add: keeps_skeleton)

lemma protocol_update: "protocol_ok (update_first p f es) = protocol_ok es"
  unfolding protocol_ok_def by (rule protocol_of_skeleton [OF skeletons_update])

end

interpretation elision: text_rewrite "elide_entry est c" for est c
  by unfold_locales (auto simp: skeleton_def elide_entry_def split: message.split)

lemma requested_ids_text: "requested_ids (ChatMsg r c tcs) = requested_ids (ChatMsg r c' tcs)"
  by (cases r; cases tcs) simp_all

interpretation truncation: text_rewrite "truncate_to est c" for est c
  by unfold_locales
    (auto simp: skeleton_def truncate_to_def truncate_message_def split: message.split chat_role.split intro: requested_ids_text)

interpretation reestimation: text_rewrite "reestimate_entry est" for est
  by unfold_locales (simp add: skeleton_def reestimate_entry_def Let_def)

lemma skeletons_elide: "map skeleton (th_entries (elide_tool_result est i c t)) = map skeleton (th_entries t)"
  by (simp add: elide_tool_result_def elision.skeletons_update)

lemma skeletons_truncate: "map skeleton (th_entries (truncate_entry est i c t)) = map skeleton (th_entries t)"
  by (simp add: truncate_entry_def truncation.skeletons_update)

section \<open>Stage 1\<close>

text \<open>One run of operations that leaves the skeleton, the turns and the open turn alone.\<close>

definition reshaped :: "thread \<Rightarrow> thread \<Rightarrow> bool" where
  "reshaped t t' \<longleftrightarrow> thread_step\<^sup>*\<^sup>* t t' \<and> map skeleton (th_entries t') = map skeleton (th_entries t) \<and> th_open t' = th_open t"

lemma reshaped_refl [simp]: "reshaped t t"
  by (simp add: reshaped_def)

lemma reshaped_trans: "reshaped a b \<Longrightarrow> reshaped b c \<Longrightarrow> reshaped a c"
  by (auto simp: reshaped_def)

lemma reshaped_elide: "reshaped t (elide_tool_result est i c t)"
  unfolding reshaped_def using skeletons_elide elides
  by (auto simp: elide_tool_result_def)

lemma reshaped_truncate: "reshaped t (truncate_entry est i c t)"
  unfolding reshaped_def using skeletons_truncate truncates
  by (auto simp: truncate_entry_def)

lemma cap_result_reshapes: "reshaped (ag_thread s) (ag_thread (cap_result est policy i s))"
  by (simp add: cap_result_def Let_def reshaped_truncate)

lemma cap_results_reshape: "reshaped (ag_thread s) (ag_thread (foldl (\<lambda>s i. cap_result est policy i s) s is))"
  by (induction "is" arbitrary: s) (auto intro: reshaped_trans cap_result_reshapes)

lemma age_results_reshape: "reshaped (ag_thread s) (ag_thread (age_results est kilo policy k is s))"
proof (induction "is" arbitrary: s)
  case (Cons i "is")
  define s' where "s' = \<lparr>ag_thread = elide_tool_result est (en_id (th_entries (ag_thread s) ! i))
      (build_elided_tool_content kilo (th_entries (ag_thread s) ! i)) (ag_thread s),
    ag_tokens = recalc_tool_tokens (elide_tool_result est (en_id (th_entries (ag_thread s) ! i))
      (build_elided_tool_content kilo (th_entries (ag_thread s) ! i)) (ag_thread s)), ag_changed = True\<rparr>"
  have "reshaped (ag_thread s) (ag_thread s')" by (simp add: s'_def reshaped_elide)
  moreover have "reshaped (ag_thread s') (ag_thread (age_results est kilo policy k is s'))" by (rule Cons.IH)
  ultimately show ?case
    using Cons.IH [of s] by (auto simp: Let_def s'_def intro: reshaped_trans)
qed simp

lemma tool_aging_reshapes: "reshaped t (fst (apply_tool_aging est kilo policy t))"
proof -
  have "reshaped t (ag_thread (age_results est kilo policy k is (foldl (\<lambda>s i. cap_result est policy i s)
      \<lparr>ag_thread = t, ag_tokens = n, ag_changed = False\<rparr> js)))" for k "is" n js
    using reshaped_trans [OF cap_results_reshape age_results_reshape, of "\<lparr>ag_thread = t, ag_tokens = n, ag_changed = False\<rparr>"] by simp
  then show ?thesis by (simp add: apply_tool_aging_def Let_def)
qed

section \<open>Stage 2\<close>

text \<open>What a compactable range guarantees about its place in the entries.\<close>

definition range_ok :: "thread_entry list \<Rightarrow> jstr option \<Rightarrow> entry_range \<Rightarrow> bool" where
  "range_ok es opened r \<longleftrightarrow> er_start r < er_end r \<and> er_end r \<le> length es \<and> opened \<noteq> Some (er_turn r)
     \<and> (\<forall>i. er_start r \<le> i \<and> i < er_end r \<longrightarrow> en_turn (es ! i) = er_turn r)
     \<and> cut_ok es (er_start r) \<and> cut_ok es (er_end r)
     \<and> er_tokens r = sum_list (map en_tokens (drop (er_start r) (take (er_end r) es)))"

lemma run_split:
  "(e # es) = (e # takeWhile (\<lambda>x. en_turn x = en_turn e) es) @ dropWhile (\<lambda>x. en_turn x = en_turn e) es"
  by simp

lemma cut_between:
  assumes "xs = [] \<or> ys = [] \<or> en_turn (last xs) \<noteq> en_turn (hd ys)"
  shows "cut_ok (xs @ ys) (length xs)"
  using assms by (cases xs rule: rev_cases; cases ys) (auto simp: cut_ok_def nth_append)

lemma ranges_from_ok:
  assumes "xs = [] \<or> es = [] \<or> en_turn (last xs) \<noteq> en_turn (hd es)" and "r \<in> set (ranges_from t (length xs) es)"
  shows "range_ok (xs @ es) (th_open t) r"
  using assms
proof (induction "length es" arbitrary: xs es rule: less_induct)
  case less
  then obtain e tl where es: "es = e # tl" by (cases es) auto
  define run where "run = e # takeWhile (\<lambda>x. en_turn x = en_turn e) tl"
  define rest where "rest = dropWhile (\<lambda>x. en_turn x = en_turn e) tl"
  have split: "es = run @ rest" by (simp add: run_def rest_def es)
  have same: "\<forall>x \<in> set run. en_turn x = en_turn e" by (auto simp: run_def dest: set_takeWhileD)
  have "rest = [] \<or> en_turn (hd rest) \<noteq> en_turn e"
    using hd_dropWhile [of "\<lambda>x. en_turn x = en_turn e" tl] by (auto simp: rest_def)
  moreover have run_ne: "run \<noteq> []" by (simp add: run_def)
  moreover have "en_turn (last run) = en_turn e" using same last_in_set [OF run_ne] by blast
  ultimately have gap: "xs @ run = [] \<or> rest = [] \<or> en_turn (last (xs @ run)) \<noteq> en_turn (hd rest)"
    by auto
  have whole: "xs @ es = (xs @ run) @ rest" unfolding split by (rule append_assoc [symmetric])
  consider "r \<in> set (ranges_from t (length (xs @ run)) rest)"
    | "r = \<lparr>er_turn = en_turn e, er_start = length xs, er_end = length xs + length run, er_tokens = sum_list (map en_tokens run)\<rparr>"
      "th_open t \<noteq> Some (en_turn e)"
    using less.prems(2) by (auto simp: es Let_def run_def rest_def split: if_splits)
  then show ?case
  proof cases
    case 1
    have "length rest < length es" using run_ne by (simp add: split)
    from less.hyps [OF this gap 1] show ?thesis unfolding whole .
  next
    case 2
    have "cut_ok (xs @ es) (length xs)" using cut_between [of xs es] less.prems(1) by auto
    moreover have "cut_ok (xs @ es) (length xs + length run)"
      using cut_between [OF gap] unfolding whole by (simp only: length_append)
    moreover have "en_turn ((xs @ es) ! i) = en_turn e" if "length xs \<le> i" "i < length xs + length run" for i
    proof -
      have "(xs @ es) ! i = run ! (i - length xs)" using that unfolding whole by (simp add: nth_append)
      then show ?thesis using same that by (simp add: nth_mem)
    qed
    moreover have "drop (length xs) (take (length xs + length run) (xs @ es)) = run" unfolding whole by simp
    moreover have "0 < length run" "length run \<le> length es" using run_ne unfolding split by simp_all
    ultimately show ?thesis
      using 2 unfolding range_ok_def by simp
  qed
qed

lemma compactable_range_ok: "r \<in> set (get_compactable_ranges t) \<Longrightarrow> range_ok (th_entries t) (th_open t) r"
  using ranges_from_ok [of "[]" "th_entries t" r t] by (simp add: get_compactable_ranges_def)

lemma contiguous:
  "distinct (remdups_adj xs) \<Longrightarrow> i \<le> j \<Longrightarrow> j \<le> k \<Longrightarrow> k < length xs \<Longrightarrow> xs ! i = xs ! k \<Longrightarrow> xs ! j = xs ! k"
proof (induction xs arbitrary: i j k rule: remdups_adj.induct)
  case (3 a b xs)
  show ?case
  proof (cases i)
    case 0
    show ?thesis
    proof (cases "j = 0")
      case False
      then obtain j' k' where jk: "j = Suc j'" "k = Suc k'" using "3.prems" by (metis Suc_le_D not0_implies_Suc)
      show ?thesis
      proof (cases "a = b")
        case True
        with "3.IH"(1) [OF True, of 0 j' k'] "3.prems" 0 jk show ?thesis by simp
      next
        case False
        then have "a \<notin> set (b # xs)" using "3.prems"(1) by simp
        moreover have "(b # xs) ! k' \<in> set (b # xs)" using "3.prems"(4) jk by (intro nth_mem) simp
        ultimately show ?thesis using "3.prems"(5) 0 jk by auto
      qed
    qed (use "3.prems" 0 in simp)
  next
    case (Suc i')
    then obtain j' k' where jk: "j = Suc j'" "k = Suc k'" using "3.prems" by (metis Suc_le_D)
    have d: "distinct (remdups_adj (b # xs))" using "3.prems"(1) by (cases "a = b") simp_all
    show ?thesis
      using "3.IH" d "3.prems"(2-5) Suc jk by (cases "a = b") fastforce+
  qed
qed auto

definition compactable_cut :: "thread \<Rightarrow> nat \<Rightarrow> bool" where
  "compactable_cut t b \<longleftrightarrow> cut_ok (th_entries t) b \<and> (\<exists>r. range_ok (th_entries t) (th_open t) r \<and> b \<le> er_end r)"

lemma cut_spares_open_turn:
  assumes "thread_inv t" and "compactable_cut t b"
  shows "spares_open_turn (int b) t"
  unfolding spares_open_turn_def
proof (intro allI impI notI)
  fix x assume opened: "th_open t = Some x" and "x \<in> en_turn ` set (take (nat (int b)) (th_entries t))"
  then obtain i where i: "i < b" "i < length (th_entries t)" "en_turn (th_entries t ! i) = x"
    by (auto simp: in_set_conv_nth)
  obtain r where r: "range_ok (th_entries t) (Some x) r" "b \<le> er_end r"
    using assms(2) opened by (auto simp: compactable_cut_def)
  let ?turns = "map en_turn (th_entries t)" and ?n = "length (th_entries t) - 1" and ?j = "er_end r - 1"
  have lin: "distinct (remdups_adj ?turns)" "th_entries t \<noteq> []" "en_turn (last (th_entries t)) = x"
    using thread_invD(3) [OF assms(1)] opened by (simp_all add: turn_linear_def)
  have j: "er_start r \<le> ?j" "?j < er_end r" "er_end r \<le> length (th_entries t)" using r(1) by (auto simp: range_ok_def)
  have last: "?turns ! ?n = x" using lin(2,3) by (simp add: last_conv_nth)
  have "?turns ! ?j = ?turns ! ?n"
  proof (rule contiguous [OF lin(1)])
    show "i \<le> ?j" "?j \<le> ?n" "?n < length ?turns" using i(1) r(2) j lin(2) by auto
    show "?turns ! i = ?turns ! ?n" using i last by simp
  qed
  moreover have "?turns ! ?j = er_turn r" using r(1) j by (simp add: range_ok_def)
  ultimately show False using r(1) last by (simp add: range_ok_def)
qed

lemma safe_suffix_cut:
  assumes "find_safe_suffix_start es r budget = Some i" and "er_end r \<le> length es"
  shows "cut_ok es i \<and> i < er_end r"
proof -
  from assms(1) obtain k where "k < length [Suc (er_start r)..<er_end r]" "i = [Suc (er_start r)..<er_end r] ! k"
    and "is_assistant_msg (en_message (es ! i))"
    unfolding find_safe_suffix_start_def find_Some_iff by blast
  then show ?thesis using assms(2) by (auto simp: cut_ok_def simp del: upt_Suc)
qed

lemma automatic_boundary_cut:
  assumes "\<forall>r \<in> set rs. range_ok (th_entries t) (th_open t) r" and "compactable_cut t boundary"
  shows "compactable_cut t (automatic_boundary (th_entries t) budget retained boundary rs)"
  using assms
proof (induction rs arbitrary: retained boundary)
  case (Cons r rs)
  have r: "range_ok (th_entries t) (th_open t) r" using Cons.prems by simp
  have "compactable_cut t (er_start r)" "compactable_cut t (er_end r)"
    using r by (auto simp: compactable_cut_def range_ok_def intro!: exI [of _ r])
  moreover have "compactable_cut t i" if "find_safe_suffix_start (th_entries t) r budget = Some i" for i
    using safe_suffix_cut [OF that] r by (auto simp: compactable_cut_def range_ok_def intro!: exI [of _ r])
  ultimately show ?case
    using Cons by (auto split: option.split)
qed simp

lemma automatic_selection_cut:
  assumes "select_automatic_prefix t preserve = Some sel"
  shows "compactable_cut t (sel_count sel)" and "0 < sel_count sel"
proof -
  let ?rs = "get_compactable_ranges t"
  define b where "b = automatic_boundary (th_entries t) (max 1 preserve) 0 (er_end (last ?rs)) (rev ?rs)"
  have ne: "?rs \<noteq> []" and "build_compaction_selection (th_entries t) b = Some sel"
    using assms by (simp_all add: select_automatic_prefix_def Let_def b_def split: if_splits)
  then have "sel_count sel = b" "0 < b" by (auto simp: build_compaction_selection_def Let_def split: if_splits)
  moreover have all: "\<forall>r \<in> set (rev ?rs). range_ok (th_entries t) (th_open t) r" using compactable_range_ok by simp
  moreover have "range_ok (th_entries t) (th_open t) (last ?rs)" using ne compactable_range_ok last_in_set by blast
  then have "compactable_cut t (er_end (last ?rs))" by (auto simp: compactable_cut_def range_ok_def)
  ultimately show "compactable_cut t (sel_count sel)" "0 < sel_count sel"
    using automatic_boundary_cut [OF all] by (simp_all add: b_def)
qed

lemma manual_selection_cut:
  assumes "select_manual_prefix t preserve = Some sel" and "0 \<le> preserve"
  shows "compactable_cut t (sel_count sel)" and "0 < sel_count sel"
proof -
  let ?rs = "get_compactable_ranges t"
  define b where "b = (if preserve \<le> 0 then er_end (last ?rs) else er_start (?rs ! (length ?rs - nat preserve)))"
  have len: "preserve < int (length ?rs)" and "build_compaction_selection (th_entries t) b = Some sel"
    using assms by (simp_all add: select_manual_prefix_def Let_def b_def split: if_splits)
  then have "sel_count sel = b" "0 < b" by (auto simp: build_compaction_selection_def Let_def split: if_splits)
  moreover have "\<exists>r. range_ok (th_entries t) (th_open t) r \<and> (b = er_end r \<or> b = er_start r)" if "0 < b"
  proof (cases "preserve \<le> 0")
    case True
    have "?rs \<noteq> []" using len assms(2) by auto
    from compactable_range_ok [OF last_in_set [OF this]] show ?thesis using True by (auto simp: b_def)
  next
    case False
    then have "?rs ! (length ?rs - nat preserve) \<in> set ?rs" using len by (intro nth_mem) auto
    then show ?thesis using False compactable_range_ok by (auto simp: b_def)
  qed
  ultimately show "compactable_cut t (sel_count sel)" "0 < sel_count sel"
    by (auto simp: compactable_cut_def range_ok_def)
qed

definition cut_replaced :: "thread \<Rightarrow> thread \<Rightarrow> bool" where
  "cut_replaced t t' \<longleftrightarrow> thread_step\<^sup>*\<^sup>* t t' \<and> th_open t' = th_open t
     \<and> (\<exists>b e. compactable_cut t b \<and> spares_open_turn (int b) t \<and> en_kind e = CompactionEntry \<and> answered_ids (en_message e) = []
          \<and> requested_ids (en_message e) = [] \<and> \<not> is_assistant_msg (en_message e)
          \<and> th_entries t' = e # drop b (th_entries t))"

lemma replace_prefix_cut:
  assumes "thread_inv t" and "compactable_cut t b" and "0 < b"
  shows "cut_replaced t (replace_prefix_with_compaction est (int b) s t)"
proof -
  note spare = cut_spares_open_turn [OF assms(1,2)]
  have len: "b \<le> length (th_entries t)" using assms(2) by (simp add: compactable_cut_def cut_ok_def)
  have "thread_step\<^sup>*\<^sup>* t (replace_prefix_with_compaction est (int b) s t)" using replaces [OF spare] by blast
  moreover have "th_open (replace_prefix_with_compaction est (int b) s t) = th_open t"
    by (simp add: replace_prefix_with_compaction_def next_turn_id_def Let_def)
  moreover obtain e where "th_entries (replace_prefix_with_compaction est (int b) s t) = e # drop b (th_entries t)"
    "en_kind e = CompactionEntry" "en_message e = compaction_message s"
    using assms(3) len by (simp add: replace_prefix_with_compaction_def next_turn_id_def Let_def new_entry_def min_absorb1)
  ultimately show ?thesis
    using spare assms(2) unfolding cut_replaced_def by (auto simp: compaction_message_def)
qed

lemma compact_prefix_cut:
  assumes "thread_inv t" and "compactable_cut t (sel_count sel)" and "0 < sel_count sel"
  shows "(case compact_prefix est summarize signal reason instructions sel t of
      (t', Inl e) \<Rightarrow> t' = t | (t', Inr r) \<Rightarrow> cut_replaced t t' \<and> mt_compacted r)"
  using replace_prefix_cut [OF assms] by (simp add: compact_prefix_def Let_def stage_maintenance_def split: sum.split)

lemma turn_compaction_cut:
  assumes "thread_inv t"
  shows "(case apply_turn_compaction est summarize signal policy budget t of
      (t', Inl e) \<Rightarrow> t' = t | (t', Inr (changed, r)) \<Rightarrow> if changed then cut_replaced t t' else t' = t)"
proof (cases "select_automatic_prefix t (min (preserve_recent_tokens policy) (max 0 budget))")
  case None
  then show ?thesis by (simp add: apply_turn_compaction_def Let_def)
next
  case (Some sel)
  note cut = compact_prefix_cut [OF assms automatic_selection_cut [OF Some], of est summarize signal RTurnCompaction None]
  show ?thesis
  proof (cases "int (estimate_thread_tokens t) \<le> budget")
    case False
    obtain t' res where "compact_prefix est summarize signal RTurnCompaction None sel t = (t', res)" by fastforce
    with cut Some False show ?thesis by (simp add: apply_turn_compaction_def Let_def split: sum.split_asm)
  qed (simp add: apply_turn_compaction_def Let_def)
qed

section \<open>Stage 3\<close>

definition extended :: "thread \<Rightarrow> thread \<Rightarrow> bool" where
  "extended t t' \<longleftrightarrow> thread_step\<^sup>*\<^sup>* t t' \<and> th_open t' = th_open t
     \<and> (\<exists>ns. map skeleton (th_entries t') = map skeleton (th_entries t @ ns)
          \<and> (\<forall>e \<in> set ns. en_kind e = NoticeEntry \<and> answered_ids (en_message e) = []))"

lemma extended_refl [simp]: "extended t t"
  unfolding extended_def by (auto intro: exI [of _ "[]"])

lemma extended_trans:
  assumes "extended a b" and "extended b c"
  shows "extended a c"
proof -
  obtain ns where ns: "map skeleton (th_entries b) = map skeleton (th_entries a @ ns)"
    "\<forall>e \<in> set ns. en_kind e = NoticeEntry \<and> answered_ids (en_message e) = []"
    using assms(1) unfolding extended_def by blast
  obtain ms where ms: "map skeleton (th_entries c) = map skeleton (th_entries b @ ms)"
    "\<forall>e \<in> set ms. en_kind e = NoticeEntry \<and> answered_ids (en_message e) = []"
    using assms(2) unfolding extended_def by blast
  have "map skeleton (th_entries c) = map skeleton (th_entries a @ (ns @ ms))" using ns(1) ms(1) by simp
  moreover have "\<forall>e \<in> set (ns @ ms). en_kind e = NoticeEntry \<and> answered_ids (en_message e) = []"
    using ns(2) ms(2) by auto
  moreover have "thread_step\<^sup>*\<^sup>* a c" "th_open c = th_open a" using assms by (auto simp: extended_def)
  ultimately show ?thesis unfolding extended_def by blast
qed

lemma add_notice_entries:
  "\<exists>e. th_entries (add_notice est c t) = th_entries t @ [e] \<and> en_kind e = NoticeEntry \<and> en_message e = notice_message c
     \<and> en_tokens e = est (notice_message c)" "th_open (add_notice est c t) = th_open t"
  by (auto simp: add_notice_def next_turn_id_def ensure_turn_def append_entry_def new_entry_def split: option.split)

lemma hard_truncate_entry_extends: "extended t (hard_truncate_entry est cap e t)"
proof -
  let ?t = "truncate_entry est (en_id e) (truncate_head_tail (msg_content (en_message e)) cap @ truncation_notice e) t"
  obtain n where n: "th_entries (add_notice est (truncated_notice (en_kind e)) ?t) = th_entries ?t @ [n]"
    "en_kind n = NoticeEntry" "en_message n = notice_message (truncated_notice (en_kind e))"
    using add_notice_entries by blast
  have "thread_step\<^sup>*\<^sup>* t (hard_truncate_entry est cap e t)"
    unfolding hard_truncate_entry_def by (meson notice r_into_rtranclp rtranclp.rtrancl_into_rtrancl truncates)
  moreover have "map skeleton (th_entries (hard_truncate_entry est cap e t)) = map skeleton (th_entries t @ [n])"
    unfolding hard_truncate_entry_def n(1) by (simp add: skeletons_truncate)
  moreover have "th_open (hard_truncate_entry est cap e t) = th_open t"
    unfolding hard_truncate_entry_def by (simp add: add_notice_entries(2) truncate_entry_def)
  ultimately show ?thesis
    using n unfolding extended_def by (intro conjI exI [of _ "[n]"]) (auto simp: notice_message_def)
qed

lemma update_first_nth:
  "distinct (map en_id es) \<Longrightarrow> i < length es \<Longrightarrow> update_first (\<lambda>e. en_id e = en_id (es ! i)) f es = es[i := f (es ! i)]"
proof (induction es arbitrary: i)
  case (Cons e es)
  then show ?case by (cases i) auto
qed simp

lemma hard_truncate_from_returns:
  assumes cheap: "\<And>k. int (est (notice_message (truncated_notice k))) \<le> cap"
  shows "thread_inv t \<Longrightarrow> \<exists>t' changed'. hard_truncate_from est cap i t changed = Some (t', changed') \<and> extended t t'"
proof (induction "length (th_entries t) - i + length (filter (\<lambda>e. cap < int (en_tokens e)) (drop i (th_entries t)))"
    arbitrary: i t changed rule: less_induct)
  case less
  show ?case
  proof (cases "length (th_entries t) \<le> i")
    case True
    then show ?thesis by (subst hard_truncate_from.simps) simp
  next
    case False
    let ?e = "th_entries t ! i"
    have split: "drop i (th_entries t) = ?e # drop (Suc i) (th_entries t)" using False by (simp add: Cons_nth_drop_Suc)
    show ?thesis
    proof (cases "int (en_tokens ?e) \<le> cap")
      case True
      have "length (th_entries t) - Suc i + length (filter (\<lambda>e. cap < int (en_tokens e)) (drop (Suc i) (th_entries t)))
          < length (th_entries t) - i + length (filter (\<lambda>e. cap < int (en_tokens e)) (drop i (th_entries t)))"
        using False split True by simp
      from less.hyps [OF this less.prems, of changed] show ?thesis
        using False True by (subst hard_truncate_from.simps) (simp add: Let_def)
    next
      case big: False
      define t1 where "t1 = hard_truncate_entry est cap ?e t"
      have inv: "thread_inv t1"
        unfolding t1_def hard_truncate_entry_def by (intro add_notice_inv truncate_inv less.prems)
      let ?t = "truncate_entry est (en_id ?e) (truncate_head_tail (msg_content (en_message ?e)) cap @ truncation_notice ?e) t"
      have "distinct (map en_id (th_entries t))" using thread_invD(2) [OF less.prems] by (simp add: entries_wf_def)
      then have entries: "th_entries ?t = (th_entries t)[i := truncate_to est
            (truncate_head_tail (msg_content (en_message ?e)) cap @ truncation_notice ?e) ?e]"
        using False by (simp add: truncate_entry_def update_first_nth)
      obtain n where "th_entries t1 = th_entries ?t @ [n]" and cheap_n: "en_tokens n = est (notice_message (truncated_notice (en_kind ?e)))"
        unfolding t1_def hard_truncate_entry_def using add_notice_entries(1) by blast
      with entries have n: "th_entries t1 = (th_entries t)[i := truncate_to est
            (truncate_head_tail (msg_content (en_message ?e)) cap @ truncation_notice ?e) ?e] @ [n]" "int (en_tokens n) \<le> cap"
        using cheap by simp_all
      have "length (th_entries t1) - Suc i + length (filter (\<lambda>e. cap < int (en_tokens e)) (drop (Suc i) (th_entries t1)))
          < length (th_entries t) - i + length (filter (\<lambda>e. cap < int (en_tokens e)) (drop i (th_entries t)))"
        using False split n(2) big by (simp add: n(1))
      from less.hyps [OF this inv, of True] obtain t' changed'
        where "hard_truncate_from est cap (Suc i) t1 True = Some (t', changed')" "extended t1 t'" by blast
      moreover have "extended t t1" unfolding t1_def by (rule hard_truncate_entry_extends)
      ultimately show ?thesis
        using False big extended_trans by (subst hard_truncate_from.simps) (auto simp: Let_def t1_def)
    qed
  qed
qed

section \<open>The pipeline\<close>

text \<open>
  The specification of governance: thread operations only, the open turn stays open, the protocol is
  kept, and the entries are those from before with a prefix of closed turns replaced by one
  compaction entry and with notices appended; of the entries that stay, only texts, estimates and marks
  may differ.
\<close>

definition governed :: "thread \<Rightarrow> thread \<Rightarrow> bool" where
  "governed t t' \<longleftrightarrow> thread_step\<^sup>*\<^sup>* t t' \<and> th_open t' = th_open t
     \<and> (protocol_ok (th_entries t) \<longrightarrow> protocol_ok (th_entries t'))
     \<and> (\<exists>b top ns. map skeleton (th_entries t') = map skeleton (top @ drop b (th_entries t) @ ns)
          \<and> (top = [] \<and> b = 0 \<or> (\<exists>e. top = [e] \<and> en_kind e = CompactionEntry))
          \<and> (\<forall>e \<in> set ns. en_kind e = NoticeEntry)
          \<and> (\<forall>e \<in> set (take b (th_entries t)). th_open t \<noteq> Some (en_turn e)))"

lemma protocol_appends:
  "protocol_ok es \<Longrightarrow> \<forall>e \<in> set ns. answered_ids (en_message e) = [] \<Longrightarrow> protocol_ok (es @ ns)"
proof (induction ns rule: rev_induct)
  case (snoc n ns)
  then show ?case using protocol_snoc [of None "[]" "es @ ns" n] by (simp add: protocol_ok_def)
qed simp

lemma turns_of_skeletons: "map skeleton es = map skeleton es' \<Longrightarrow> map en_turn es = map en_turn es'"
proof -
  assume "map skeleton es = map skeleton es'"
  then have "map (fst \<circ> snd) (map skeleton es) = map (fst \<circ> snd) (map skeleton es')" by simp
  then show ?thesis by (simp add: skeleton_def comp_def)
qed

lemma governedI:
  assumes aged: "reshaped t t1" and cut: "t2 = t1 \<or> cut_replaced t1 t2" and tail: "extended t2 t3"
  shows "governed t t3"
proof -
  obtain ns where ns: "map skeleton (th_entries t3) = map skeleton (th_entries t2 @ ns)"
    "\<forall>e \<in> set ns. en_kind e = NoticeEntry \<and> answered_ids (en_message e) = []" using tail by (auto simp: extended_def)
  have sk: "map skeleton (th_entries t1) = map skeleton (th_entries t)" using aged by (simp add: reshaped_def)
  have steps: "thread_step\<^sup>*\<^sup>* t t3" "th_open t3 = th_open t"
    using assms unfolding reshaped_def cut_replaced_def extended_def by (auto intro: rtranclp_trans)
  have "protocol_ok (th_entries t3)" if "protocol_ok (th_entries t2)"
    using protocol_appends [OF that, of ns] ns protocol_of_skeleton [OF ns(1)] by (auto simp: protocol_ok_def)
  moreover have "protocol_ok (th_entries t1)" if "protocol_ok (th_entries t)"
    using that protocol_of_skeleton [OF sk] by (simp add: protocol_ok_def)
  ultimately have keeps: "protocol_ok (th_entries t) \<Longrightarrow> (protocol_ok (th_entries t1) \<Longrightarrow> protocol_ok (th_entries t2)) \<Longrightarrow> protocol_ok (th_entries t3)"
    by blast
  show ?thesis
  proof (cases "t2 = t1")
    case True
    have "map skeleton (th_entries t3) = map skeleton ([] @ drop 0 (th_entries t) @ ns)" using ns(1) sk True by simp
    then show ?thesis
      using steps keeps True ns(2) unfolding governed_def by (intro conjI exI [of _ 0] exI [of _ "[]"] exI [of _ ns]) auto
  next
    case False
    then obtain b e where b: "compactable_cut t1 b" "spares_open_turn (int b) t1" "en_kind e = CompactionEntry"
      "answered_ids (en_message e) = []" "requested_ids (en_message e) = []" "\<not> is_assistant_msg (en_message e)"
      "th_entries t2 = e # drop b (th_entries t1)"
      using cut unfolding cut_replaced_def by blast
    have "protocol_ok (th_entries t2)" if "protocol_ok (th_entries t1)"
      using protocol_cut [OF that, of b "Some (en_turn e)"] b by (simp add: protocol_ok_def compactable_cut_def)
    moreover have "map skeleton (th_entries t3) = map skeleton ([e] @ drop b (th_entries t) @ ns)"
      using ns(1) sk by (simp add: b(7) flip: drop_map)
    moreover have "\<forall>e \<in> set (take b (th_entries t)). th_open t \<noteq> Some (en_turn e)"
    proof -
      have "en_turn ` set (take b (th_entries t)) = en_turn ` set (take b (th_entries t1))"
        using turns_of_skeletons [OF sk] by (metis list.set_map take_map)
      moreover have "th_open t1 = th_open t" using aged by (simp add: reshaped_def)
      ultimately show ?thesis using b(2) unfolding spares_open_turn_def by (metis image_eqI nat_int)
    qed
    ultimately show ?thesis
      using steps keeps ns(2) b(3) unfolding governed_def
      by (intro conjI exI [of _ b] exI [of _ "[e]"] exI [of _ ns]) auto
  qed
qed

lemma governed_same: "reshaped t t1 \<Longrightarrow> governed t t1"
  using governedI [of t t1 t1 t1] by simp

lemma governed_cut: "reshaped t t1 \<Longrightarrow> cut_replaced t1 t2 \<Longrightarrow> governed t t2"
  using governedI [of t t1 t2 t2] by simp

lemma hard_truncation_extends:
  assumes "\<And>k. int (est (notice_message (truncated_notice k))) \<le> 256" and "thread_inv t"
  shows "\<exists>t' changed m. apply_hard_truncation est budget t = Some (t', changed, m) \<and> extended t t'"
proof -
  have "int (est (notice_message (truncated_notice k))) \<le> per_message_cap budget t" for k
    using assms(1) [of k] by (simp add: per_message_cap_def)
  with hard_truncate_from_returns [of est "per_message_cap budget t" t 0 False] assms(2)
  obtain t' changed' where "hard_truncate_from est (per_message_cap budget t) 0 t False = Some (t', changed')" "extended t t'" by blast
  then show ?thesis by (auto simp: apply_hard_truncation_def Let_def)
qed

lemma govern_returns:
  assumes cheap: "\<And>k. int (est (notice_message (truncated_notice k))) \<le> 256" and inv: "thread_inv t"
  shows "\<exists>t' res. govern est kilo summarize signal signal_after policy budget t = Some (t', res) \<and> governed t t'"
proof -
  have self: "governed t t" by (rule governed_same) simp
  obtain t1 changed1 m1 where s1: "apply_tool_aging est kilo policy t = (t1, changed1, m1)" by (metis prod_cases3)
  have r1: "reshaped t t1" using tool_aging_reshapes [of t est kilo policy] by (simp add: s1)
  have inv1: "thread_inv t1"
  proof -
    have "thread_step\<^sup>*\<^sup>* t t1" using r1 by (simp add: reshaped_def)
    then show ?thesis using inv by (induction rule: rtranclp_induct) (auto intro: thread_step_inv)
  qed
  obtain t2 res2 where s2: "apply_turn_compaction est summarize signal_after policy budget t1 = (t2, res2)" by fastforce
  note cut = turn_compaction_cut [OF inv1, of est summarize signal_after policy budget, unfolded s2]
  have step2: "(t2 = t1 \<or> cut_replaced t1 t2)" using cut by (cases res2) (auto split: if_splits)
  have inv2: "thread_inv t2"
    using step2
  proof
    assume "cut_replaced t1 t2"
    then have "thread_step\<^sup>*\<^sup>* t1 t2" by (simp add: cut_replaced_def)
    then show ?thesis using inv1 by (induction rule: rtranclp_induct) (auto intro: thread_step_inv)
  qed (use inv1 in simp)
  obtain t3 changed3 m3 where s3: "apply_hard_truncation est budget t2 = Some (t3, changed3, m3)" "extended t2 t3"
    using hard_truncation_extends [where est = est and t = t2 and budget = budget] cheap inv2 by blast
  have all: "governed t t1" "governed t t2" "governed t t3"
    using governedI [OF r1 step2, of t2] governed_same [OF r1] governedI [OF r1 step2 s3(2)] by simp_all
  show ?thesis
    using self all s3(1) by (auto simp: govern_def Let_def s1 s2 split: sum.split)
qed

lemma truncated_notice_tokens: "estimate_message_tokens nt (notice_message (truncated_notice k)) \<le> 32"
proof -
  have "estimate_message_tokens nt (notice_message (truncated_notice k)) = message_overhead_tokens
      + estimate_text_tokens (system_notice_prefix @ truncated_notice k)" by (simp add: estimate_message_tokens_def notice_message_def)
  moreover have "estimate_text_tokens (system_notice_prefix @ truncated_notice k) \<le> 28" by (cases k; hypsubst; code_simp)
  ultimately show ?thesis by (simp add: message_overhead_tokens_def)
qed

lemma scaled_bound:
  assumes "raw \<le> 32" and "calibration_factor e \<le> 8"
  shows "int (scaled e raw) \<le> 256"
proof -
  have "of_nat raw * calibration_factor e \<le> 32 * 8"
  proof (cases "0 \<le> calibration_factor e")
    case True
    then show ?thesis using assms by (intro mult_mono) auto
  next
    case False
    then have "of_nat raw * calibration_factor e \<le> 0" by (intro mult_nonneg_nonpos) auto
    then show ?thesis by simp
  qed
  then have "js_round (of_nat raw * calibration_factor e) \<le> 256" unfolding js_round_def by (simp add: floor_le_iff)
  then show ?thesis by (simp add: scaled_def)
qed

text \<open>
  C26. Governing a reachable conversation always returns, whether the summarizer succeeds, fails or
  is aborted, and does no more than the specification allows; within the budget it changes nothing. Asking for a
  compaction by hand is held to the same specification. The estimator is the one of the program
  with a calibration factor of at most 8 (its bound is 2 by default), which is what makes the
  notices the truncation loop appends to the array it walks small enough for it to end.
\<close>

theorem govern_meets_its_specification:
  fixes e :: token_estimator and t :: thread and summarize :: summarizer
  assumes "thread_step\<^sup>*\<^sup>* (new_thread ec tc) t" and "calibration_factor e \<le> 8" and "0 \<le> preserve_full_turns policy"
  shows "(\<exists>t' res. govern (te_estimate_message nt e) kilo summarize signal signal_after policy budget t = Some (t', res)
             \<and> governed t t' \<and> (int (estimate_thread_tokens t) \<le> budget \<longrightarrow> t' = t))
    \<and> governed t (fst (compact_turns_now (te_estimate_message nt e) summarize signal signal_after policy instructions t))"
proof -
  let ?est = "te_estimate_message nt e"
  note inv = reachable_inv [OF assms(1)]
  have cheap: "int (?est (notice_message (truncated_notice k))) \<le> 256" for k
    unfolding te_estimate_message_def by (rule scaled_bound [OF truncated_notice_tokens assms(2)])
  have "govern ?est kilo summarize signal signal_after policy budget t = Some (t, res)"
    if "int (estimate_thread_tokens t) \<le> budget"
      "res = (case throw_if_aborted signal of Inl e \<Rightarrow> Inl e
         | Inr _ \<Rightarrow> Inr \<lparr>gr_maintenance = [], gr_tokens_after = estimate_thread_tokens t\<rparr>)" for res
    using that by (simp add: govern_def split: sum.split)
  then have "\<exists>t' res. govern ?est kilo summarize signal signal_after policy budget t = Some (t', res)
      \<and> governed t t' \<and> (int (estimate_thread_tokens t) \<le> budget \<longrightarrow> t' = t)"
    using govern_returns [where est = ?est and t = t, OF cheap inv] governed_same [OF reshaped_refl [of t]]
    by (cases "int (estimate_thread_tokens t) \<le> budget") blast+
  moreover have "governed t (fst (compact_turns_now ?est summarize signal signal_after policy instructions t))"
  proof (cases "select_manual_prefix t (preserve_full_turns policy)")
    case None
    then show ?thesis using governed_same [of t t] by (auto simp: compact_turns_now_def split: sum.split)
  next
    case (Some sel)
    obtain t' res where "compact_prefix ?est summarize signal_after RManual instructions sel t = (t', res)" by fastforce
    with compact_prefix_cut [OF inv manual_selection_cut [OF Some assms(3)], of ?est summarize signal_after RManual instructions]
    have "t' = t \<or> cut_replaced t t'" by (auto split: sum.split_asm)
    then have "governed t t'" using governed_same [of t t] governed_cut [of t t t'] by auto
    then show ?thesis
      using governed_same [of t t] Some \<open>compact_prefix _ _ _ _ _ _ _ = _\<close>
      by (auto simp: compact_turns_now_def split: sum.split)
  qed
  ultimately show ?thesis by blast
qed

theorem govern_meets_its_specification_witness:
  "\<exists>t' res. govern (te_estimate_message (\<lambda>n. []) (new_token_estimator None None None)) (\<lambda>n. []) (\<lambda>ts opt. Inr (asc ''s''))
      None None (create_context_policy plain_options) 0 sample_thread = Some (t', res) \<and> governed sample_thread t'"
proof -
  have "calibration_factor (new_token_estimator None None None) \<le> 8" by (simp add: new_token_estimator_def)
  moreover have "0 \<le> preserve_full_turns (create_context_policy plain_options)"
    by (simp add: create_context_policy_def plain_options_def normalize_non_negative_int_def Let_def)
  ultimately show ?thesis
    using govern_meets_its_specification [OF sample_thread_reachable] by blast
qed

section \<open>Where truncation lengthens\<close>

lemma token_quarters_ideographs: "token_quarters (replicate n 20013 @ s) = 4 * n + token_quarters s"
proof (induction n)
  case (Suc n)
  have "token_quarters (20013 # u) = 4 + token_quarters u" for u
    by (cases u) (simp_all add: is_cjk_def is_high_surrogate_def)
  with Suc show ?case by simp
qed simp

lemma token_quarters_positive: "0 < token_quarters (c # s)"
  by (cases s) (auto simp: is_cjk_def)

lemma plain_scaled [simp]: "scaled (new_token_estimator None None None) n = n"
proof -
  have "js_round (of_nat n) = int n" unfolding js_round_def by (simp add: floor_eq_iff)
  then show ?thesis by (simp add: scaled_def new_token_estimator_def)
qed

definition ideograph_thread :: "(jnum \<Rightarrow> jstr) \<Rightarrow> nat \<Rightarrow> thread" where
  "ideograph_thread nt n =
     fst (begin_turn (te_estimate_message nt (new_token_estimator None None None)) (replicate n 20013) (new_thread 0 0))"

text \<open>
  C27. Hard truncation counts four characters a token, the estimator counts one token an ideograph:
  a message of 253 to 1024 ideographs is over the smallest cap of 256 tokens but short enough to be
  left alone by the cut. The stage then only appends its mark and a notice, so the conversation is
  larger than before, and the result reports a compaction.
\<close>

theorem hard_truncation_grows_ideographs:
  assumes "253 \<le> n" and "n \<le> 1024" and "budget \<le> 256"
  shows "case apply_hard_truncation (te_estimate_message nt (new_token_estimator None None None)) budget (ideograph_thread nt n) of
      None \<Rightarrow> False
    | Some (t', changed, m) \<Rightarrow> changed \<and> mt_compacted m \<and> mt_tokens_before m = n + 4 \<and> mt_tokens_before m < mt_tokens_after m
        \<and> (\<exists>mark. mark \<noteq> [] \<and> msg_content (en_message (hd (th_entries t'))) = replicate n 20013 @ mark)"
proof -
  let ?est = "te_estimate_message nt (new_token_estimator None None None)"
  define t where "t = ideograph_thread nt n"
  define e where "e = new_entry ?est 1 (turn_id 1) UserEntry (ChatMsg RUser (replicate n 20013) None)"
  have entries: "th_entries t = [e]"
    by (simp add: t_def ideograph_thread_def begin_turn_def new_thread_def next_turn_id_def append_entry_def e_def)
  have tokens: "en_tokens e = n + 4"
    using token_quarters_ideographs [of n "[]"]
    by (simp add: e_def new_entry_def te_estimate_message_def estimate_message_tokens_def message_overhead_tokens_def estimate_text_tokens_def)
  have content: "msg_content (en_message e) = replicate n 20013" by (simp add: e_def new_entry_def)
  have cap: "per_message_cap budget t = 256" using assms(3) by (simp add: per_message_cap_def entries)
  have cut: "truncate_head_tail (replicate n 20013) 256 = replicate n 20013"
    using assms(2) by (simp add: truncate_head_tail_def Let_def)
  define t1 where "t1 = hard_truncate_entry ?est 256 e t"
  define e1 where "e1 = truncate_to ?est (replicate n 20013 @ truncation_notice e) e"
  obtain k where k: "th_entries t1 = [e1, k]" "en_tokens k = ?est (notice_message (truncated_notice (en_kind e)))"
    using add_notice_entries(1) [of ?est "truncated_notice (en_kind e)"
        "truncate_entry ?est (en_id e) (replicate n 20013 @ truncation_notice e) t"]
    by (auto simp: t1_def hard_truncate_entry_def content cut truncate_entry_def entries e1_def)
  have small: "int (en_tokens k) \<le> 256"
    unfolding k(2) te_estimate_message_def by (rule scaled_bound [OF truncated_notice_tokens]) (simp add: new_token_estimator_def)
  have run: "hard_truncate_from ?est 256 0 t False = Some (t1, True)"
    using assms(1) small tokens
    by (simp add: hard_truncate_from.simps [of _ _ 0] hard_truncate_from.simps [of _ _ "Suc 0"] hard_truncate_from.simps [of _ _ "Suc (Suc 0)"]
        entries k(1) t1_def [symmetric] Let_def)
  have mark: "msg_content (en_message e1) = replicate n 20013 @ truncation_notice e"
    by (simp add: e1_def truncate_to_def truncate_message_def e_def new_entry_def)
  have ne: "truncation_notice e \<noteq> []" by (simp add: truncation_notice_def)
  have "n + 4 < en_tokens e1"
  proof -
    obtain c s where "truncation_notice e = c # s" using ne by (cases "truncation_notice e") auto
    then have "0 < token_quarters (truncation_notice e)" using token_quarters_positive by simp
    then show ?thesis
      by (simp add: e1_def truncate_to_def truncate_message_def e_def new_entry_def te_estimate_message_def estimate_message_tokens_def
          message_overhead_tokens_def estimate_text_tokens_def token_quarters_ideographs)
  qed
  then have "n + 4 < estimate_thread_tokens t1" by (simp add: estimate_thread_tokens_def k(1))
  moreover have before: "estimate_thread_tokens t = n + 4" by (simp add: estimate_thread_tokens_def entries tokens)
  ultimately show ?thesis
    unfolding t_def [symmetric] apply_hard_truncation_def
    using assms mark ne by (auto simp: cap run k(1) stage_maintenance_def empty_maintenance_def Let_def)
qed

theorem hard_truncation_grows_ideographs_witness:
  "\<exists>t' changed m. apply_hard_truncation (te_estimate_message (\<lambda>n. []) (new_token_estimator None None None)) 200
      (ideograph_thread (\<lambda>n. []) 300) = Some (t', changed, m) \<and> mt_tokens_before m = 304 \<and> 304 < mt_tokens_after m"
  using hard_truncation_grows_ideographs [of 300 200 "\<lambda>n. []"] by (auto split: option.splits)

end
