(* ===== verification/Thread_Restore.thy ===== *)
theory Thread_Restore
  imports Conversation_Thread
begin

text \<open>
  What a saved conversation is worth: exporting a thread and reading it back
  (\<open>exportState\<close>, \<open>restoreState\<close> of packages/core/src/context/conversationThread.ts) renames its
  turns and nothing else; reading it back after a crash closes the turn that was open and repairs
  its tool calls; the text of a compaction survives \<open>formatCompactionContent\<close> and
  \<open>extractCompactionBody\<close> only up to one line the latter meant to drop.
\<close>

section \<open>Renaming the turns of a saved state\<close>

definition rename_turns :: "(jstr \<Rightarrow> jstr) \<Rightarrow> thread_state \<Rightarrow> thread_state" where
  "rename_turns \<rho> s =
     s\<lparr>ts_entries := map (\<lambda>e. e\<lparr>se_turn := \<rho> (se_turn e)\<rparr>) (ts_entries s), ts_turns := map (apfst \<rho>) (ts_turns s),
       ts_open := map_option \<rho> (ts_open s)\<rparr>"

lemma filter_one_key:
  assumes "distinct (map fst xs)" and "\<And>y. map_of xs y = Some v \<longleftrightarrow> opened = Some y"
  shows "filter (\<lambda>(y, w). w = v) xs = (case opened of None \<Rightarrow> [] | Some y \<Rightarrow> [(y, v)])"
proof -
  have mem: "p \<in> set (filter (\<lambda>(y, w). w = v) xs) \<longleftrightarrow> snd p = v \<and> opened = Some (fst p)" for p
    using assms(2) [of "fst p"] map_of_eq_Some_iff [OF assms(1)] by (cases p) auto
  have d: "distinct (filter (\<lambda>(y, w). w = v) xs)" using assms(1) by (simp add: distinct_map)
  show ?thesis
  proof (cases opened)
    case None
    then show ?thesis using mem by (auto simp: filter_empty_conv)
  next
    case (Some y)
    then have "set (filter (\<lambda>(y, w). w = v) xs) = {(y, v)}" using mem by (auto simp del: set_filter)
    with d have "length (filter (\<lambda>(y, w). w = v) xs) = 1" by (metis One_nat_def card.empty card_insert_disjoint distinct_card empty_iff finite.emptyI)
    with \<open>set (filter (\<lambda>(y, w). w = v) xs) = {(y, v)}\<close> show ?thesis
      unfolding Some by (cases "filter (\<lambda>(y, w). w = v) xs") (auto simp del: set_filter)
  qed
qed

lemma exported_state_valid:
  assumes "thread_inv t"
  shows "is_conversation_thread_state (export_state t)"
    and "distinct (map fst (ts_turns (export_state t)))" and "state_linear preserve (export_state t)"
proof -
  note inv = thread_invD [OF assms]
  have wf: "distinct (map fst (th_turns t))" and opened: "\<And>x. map_of (th_turns t) x = Some TurnOpen \<longleftrightarrow> th_open t = Some x"
    using inv(1) by (simp_all add: turns_wf_def)
  then have key: "x \<in> fst ` set (th_turns t)" if "th_open t = Some x" for x
    using that by (metis map_of_eq_None_iff not_Some_eq)
  show "is_conversation_thread_state (export_state t)"
    using inv(2) key filter_one_key [OF wf opened]
    by (auto simp: is_conversation_thread_state_def export_state_def serialize_entry_def jnum_finite_def entries_wf_def
        list_all_iff Let_def split: option.split)
  show "distinct (map fst (ts_turns (export_state t)))" using wf by (simp add: export_state_def)
  show "state_linear preserve (export_state t)"
    using wf inv(3) by (auto simp: state_linear_def export_state_def turn_linear_def serialize_entry_def comp_def last_map)
qed

lemma map_map2_right: "length ns = length es \<Longrightarrow> (\<And>n e. g (f n e) = h e) \<Longrightarrow> map g (map2 f ns es) = map h es"
  by (induction ns es rule: list_induct2) auto

lemma map_om_get_renaming:
  assumes "distinct (map fst turns)"
  shows "map (\<lambda>p. the (om_get (renaming c turns) (fst p))) turns = map snd (renaming c turns)"
proof (rule nth_equalityI)
  show len: "length (map (\<lambda>p. the (om_get (renaming c turns) (fst p))) turns) = length (map snd (renaming c turns))"
    by (simp add: renaming_def del: upt_Suc)
  fix i assume "i < length (map (\<lambda>p. the (om_get (renaming c turns) (fst p))) turns)"
  then have i: "i < length turns" "i < length (renaming c turns)" using len by simp_all
  then have "renaming c turns ! i = (fst (turns ! i), snd (renaming c turns ! i))"
    using renaming_keys [of c turns] by (metis nth_map prod.collapse)
  then have "(fst (turns ! i), snd (renaming c turns ! i)) \<in> set (renaming c turns)" using i by (metis nth_mem)
  then have "om_get (renaming c turns) (fst (turns ! i)) = Some (snd (renaming c turns ! i))"
    using assms by (simp add: renaming_keys)
  then show "map (\<lambda>p. the (om_get (renaming c turns) (fst p))) turns ! i = map snd (renaming c turns) ! i"
    using i by simp
qed

section \<open>The round trip\<close>

lemma restored_core_state:
  fixes est :: estimate and t :: thread
  assumes "distinct (map fst (ts_turns s))"
  defines "\<rho> \<equiv> \<lambda>x. the (om_get (renaming (turn_counter t) (ts_turns s)) x)"
  shows "map serialize_entry (th_entries (restored_core est preserve s t)) = map (\<lambda>e. e\<lparr>se_turn := \<rho> (se_turn e)\<rparr>) (ts_entries s)"
    and "map en_message (th_entries (restored_core est preserve s t)) = map se_message (ts_entries s)"
    and "th_turns (restored_core est True s t) = map (apfst \<rho>) (ts_turns s)"
proof -
  have len: "length [Suc (entry_counter t)..<Suc (entry_counter t) + length (ts_entries s)] = length (ts_entries s)"
    by (simp del: upt_Suc)
  have entries: "th_entries (restored_core est preserve s t)
      = map2 (restored_entry est (renaming (turn_counter t) (ts_turns s)))
          [Suc (entry_counter t)..<Suc (entry_counter t) + length (ts_entries s)] (ts_entries s)"
    by (simp add: restored_core_def Let_def del: upt_Suc)
  show "map serialize_entry (th_entries (restored_core est preserve s t)) = map (\<lambda>e. e\<lparr>se_turn := \<rho> (se_turn e)\<rparr>) (ts_entries s)"
    unfolding entries by (rule map_map2_right [OF len]) (simp add: serialize_entry_def restored_entry_def new_entry_def \<rho>_def)
  show "map en_message (th_entries (restored_core est preserve s t)) = map se_message (ts_entries s)"
    unfolding entries by (rule map_map2_right [OF len]) (simp add: restored_entry_def new_entry_def)
  have "zip (map \<rho> (map fst (ts_turns s))) (map (restored_status True \<circ> snd) (ts_turns s)) = map (apfst \<rho>) (ts_turns s)"
    by (induction "ts_turns s" arbitrary: s) (auto simp: restored_status_def zip_map1 zip_map2 zip_same_conv_map)
  then show "th_turns (restored_core est True s t) = map (apfst \<rho>) (ts_turns s)"
    using map_om_get_renaming [OF assms(1), of "turn_counter t"]
    by (simp add: restored_core_def Let_def \<rho>_def comp_def del: upt_Suc)
qed

text \<open>
  C22. Saving a conversation and reading it back loses nothing: whatever thread \<open>t0\<close> the state is
  read into, and however \<open>t\<close> was reached, the state is accepted, the messages for the model are
  the same, and exporting again gives the same state with its turns renamed by a one-to-one map.
  A negative iteration count, which the code never sets, would come back as zero.
\<close>

theorem export_restore_roundtrip:
  fixes est :: estimate and t t0 :: thread
  assumes "thread_step\<^sup>*\<^sup>* (new_thread ec tc) t"
  defines "t' \<equiv> fst (restore_state est True (export_state t) t0)"
  shows "snd (restore_state est True (export_state t) t0)
    \<and> build_messages t' = build_messages t
    \<and> (\<exists>\<rho>. inj_on \<rho> (fst ` set (th_turns t))
         \<and> export_state t' = rename_turns \<rho> ((export_state t)\<lparr>ts_iteration := Num (of_int (max 0 (th_iteration t)))\<rparr>))"
proof -
  let ?s = "export_state t"
  define \<rho> where "\<rho> x = the (om_get (renaming (turn_counter t0) (ts_turns ?s)) x)" for x
  note valid = exported_state_valid [OF reachable_inv [OF assms(1)]]
  note restored = restore_state_eq(1) [OF valid(1,2), of est t0, folded \<rho>_def]
  note core = restored_core_state(1,2) [OF valid(2), where est = est and preserve = True and t = t0, folded \<rho>_def]
    restored_core_state(3) [OF valid(2), where est = est and t = t0, folded \<rho>_def]
  have t': "t' = (restored_core est True ?s t0)\<lparr>th_open := map_option \<rho> (th_open t), th_iteration := max 0 (th_iteration t)\<rparr>"
    unfolding t'_def restored by (simp add: export_state_def jnum_int_def)
  have "inj_on \<rho> (fst ` set (th_turns t))"
    using renaming_inj [OF valid(2), of "turn_counter t0", folded \<rho>_def] by (simp add: export_state_def)
  moreover have "export_state t' = rename_turns \<rho> (?s\<lparr>ts_iteration := Num (of_int (max 0 (th_iteration t)))\<rparr>)"
    unfolding t' using core(1,3) by (simp add: export_state_def rename_turns_def)
  moreover have "build_messages t' = build_messages t"
    unfolding t' build_messages_def using core(2) by (simp add: export_state_def serialize_entry_def comp_def)
  ultimately show ?thesis using restored by auto
qed

theorem export_restore_roundtrip_witness:
  "build_messages (fst (restore_state (\<lambda>m. 1) True (export_state sample_thread) sample_thread)) = build_messages sample_thread"
  using export_restore_roundtrip [OF sample_thread_reachable, of "\<lambda>m. 1" sample_thread] by blast

section \<open>Reading a state back after a crash\<close>

lemma om_has_get: "om_has m k \<longleftrightarrow> om_get m k \<noteq> None"
  by (simp add: om_has_def map_of_eq_None_iff)

lemma add_notice_closed:
  assumes "th_open t = None"
  shows "\<exists>e. th_entries (add_notice est c t) = th_entries t @ [e] \<and> en_message e = notice_message c"
    and "th_open (add_notice est c t) = None"
    and "turn_status_of t y = Some v \<Longrightarrow> turn_status_of (add_notice est c t) y = Some v"
    and "turn_status_of (add_notice est c t) y = Some TurnOpen \<Longrightarrow> turn_status_of t y = Some TurnOpen"
  using assms
  by (auto simp: add_notice_def next_turn_id_def ensure_turn_def append_entry_def new_entry_def turn_status_of_def om_has_get
      map_of_om_set split: if_splits)

text \<open>
  C23. Reading a state back after a crash (without keeping its open turn): no turn is open
  afterwards, every turn that was closed keeps its status, and if a turn was open it is now
  aborted, each tool call still requested in it has its result there, and the last message tells the
  model that the turn was interrupted.
\<close>

theorem crash_restore_closes_the_turn:
  fixes est :: estimate and t :: thread and s :: thread_state
  assumes "is_conversation_thread_state s" and "distinct (map fst (ts_turns s))"
  defines "t' \<equiv> fst (restore_state est False s t)"
  shows "th_open t' = None \<and> (\<forall>y. turn_status_of t' y \<noteq> Some TurnOpen)
    \<and> (\<exists>\<rho>. inj_on \<rho> (fst ` set (ts_turns s))
         \<and> (\<forall>x st. (x, st) \<in> set (ts_turns s) \<longrightarrow>
               turn_status_of t' (\<rho> x) = Some (if st = TurnOpen then TurnAborted else st))
         \<and> (\<forall>x. ts_open s = Some x \<longrightarrow> no_dangling_calls (\<rho> x) (th_entries t')
               \<and> build_messages t' \<noteq> [] \<and> last (build_messages t') = notice_message interrupted_notice))"
proof -
  let ?core = "restored_core est False s t"
  define \<rho> where "\<rho> x = the (om_get (renaming (turn_counter t) (ts_turns s)) x)" for x
  note restored = restore_state_eq(2) [OF assms(1,2), of est t, folded \<rho>_def]
  have turns: "turn_status_of ?core y = Some v \<longleftrightarrow> (\<exists>p \<in> set (ts_turns s). y = \<rho> (fst p) \<and> v = restored_status False (snd p))" for y v
    using map_of_renaming [OF assms(2), where c = "turn_counter t" and f = "restored_status False \<circ> snd" and y = y and v = v, folded \<rho>_def]
    by (simp add: turn_status_of_def restored_core_def Let_def comp_def del: upt_Suc)
  have inj: "inj_on \<rho> (fst ` set (ts_turns s))"
    using renaming_inj [OF assms(2), of "turn_counter t", folded \<rho>_def] .
  have closed: "turn_status_of ?core y \<noteq> Some TurnOpen" for y
    by (auto simp: turns restored_status_def split: if_splits)
  have kept: "turn_status_of ?core (\<rho> x) = Some (if st = TurnOpen then TurnAborted else st)" if "(x, st) \<in> set (ts_turns s)" for x st
    unfolding turns using that by (intro bexI [of _ "(x, st)"]) (simp_all add: restored_status_def)
  have core_open: "th_open ?core = None" by (rule restored_core_open)
  show ?thesis
  proof (cases "ts_open s")
    case None
    then have t': "t' = ?core\<lparr>th_iteration := max 0 (jnum_int (ts_iteration s))\<rparr>" by (simp add: t'_def restored)
    show ?thesis unfolding t' using None inj closed kept core_open by (auto simp: turn_status_of_def)
  next
    case (Some x)
    let ?pruned = "?core\<lparr>th_entries := remove_unmatched_tool_calls est (\<rho> x) (th_entries ?core)\<rparr>"
    have t': "t' = (add_notice est interrupted_notice ?pruned)\<lparr>th_iteration := max 0 (jnum_int (ts_iteration s))\<rparr>"
      using Some by (simp add: t'_def restored)
    have pruned_open: "th_open ?pruned = None" using core_open by simp
    note notice = add_notice_closed [OF pruned_open, where est = est and c = interrupted_notice]
    have pruned: "turn_status_of ?pruned y = turn_status_of ?core y" for y by (simp add: turn_status_of_def)
    have status: "turn_status_of t' y = turn_status_of (add_notice est interrupted_notice ?pruned) y" for y
      by (simp add: t' turn_status_of_def)
    obtain e where e: "th_entries t' = remove_unmatched_tool_calls est (\<rho> x) (th_entries ?core) @ [e]"
      "en_message e = notice_message interrupted_notice" using notice(1) unfolding t' by auto
    have "no_dangling_calls (\<rho> x) (th_entries t')"
      unfolding e(1) by (intro no_dangling_append_notice prune_no_dangling) (simp add: e(2) notice_message_def)
    moreover have "build_messages t' \<noteq> []" "last (build_messages t') = notice_message interrupted_notice"
      using e by (simp_all add: build_messages_def)
    moreover have "th_open t' = None" using notice(2) by (simp add: t')
    moreover have "turn_status_of t' y \<noteq> Some TurnOpen" for y
      using notice(4) closed unfolding status pruned by blast
    moreover have "turn_status_of t' (\<rho> z) = Some (if st = TurnOpen then TurnAborted else st)" if "(z, st) \<in> set (ts_turns s)" for z st
      using notice(3) kept [OF that] unfolding status pruned by blast
    ultimately show ?thesis using inj Some by (intro conjI exI [of _ \<rho>]) auto
  qed
qed

text \<open>A state saved in the middle of a turn whose tool call had no answer yet.\<close>

theorem crash_restore_closes_the_turn_witness:
  "is_conversation_thread_state (export_state sample_thread)
   \<and> th_open (fst (restore_state (\<lambda>m. 1) False (export_state sample_thread) sample_thread)) = None"
  using exported_state_valid [OF reachable_inv [OF sample_thread_reachable]] crash_restore_closes_the_turn by blast

section \<open>Compaction texts\<close>

text \<open>
  Taking the body back out of a compaction text does not undo the formatting: the sentence
  that tells the model the summary is no instruction, which the extraction means to drop, stays in
  front of the summary, because its pattern only matches a line that has nothing but full stops
  after the first clause. A summary that is compacted again therefore carries the sentence twice.
\<close>

theorem compaction_body_keeps_disclaimer:
  "extract_compaction_body (format_compaction_content (asc ''Done.'')) = compaction_second_line @ [10] @ asc ''Done.''
   \<and> extract_compaction_body (format_compaction_content (extract_compaction_body (format_compaction_content (asc ''Done.''))))
       = compaction_second_line @ [10] @ compaction_second_line @ [10] @ asc ''Done.''
   \<and> drop_marker_line True (marker_text @ [12290, 10] @ asc ''Done.'') = [10] @ asc ''Done.''"
  by code_simp

end
