(* ===== verification/Workspace_Paths.thy ===== *)
theory Workspace_Paths
  imports Text_Preview
begin

text \<open>
  Where a tool may read and write (\<open>packages/core/src/tools/builtin/paths.ts\<close>): the lexical check that a path
  lies in the workspace, and the checks against the real paths behind symbolic links. The path
  functions of Node are those of POSIX, with \<open>cwd\<close> the working directory of the process. The
  parameter \<open>realpath\<close> is \<open>fs.realpath\<close> on the file system as it is while one path is resolved: the
  canonical path, or the error thrown.
\<close>

section \<open>POSIX paths\<close>

definition slash :: nat where "slash = 47"

definition is_absolute_path :: "jstr \<Rightarrow> bool" where
  "is_absolute_path p \<longleftrightarrow> js_starts_with [slash] p"

text \<open>\<open>normalizeString\<close>: the segments so far are kept in reverse.\<close>

fun normalize_segments :: "bool \<Rightarrow> jstr list \<Rightarrow> jstr list \<Rightarrow> jstr list" where
  "normalize_segments up acc [] = rev acc"
| "normalize_segments up acc (s # ss) =
     (if s = [] \<or> s = asc ''.'' then normalize_segments up acc ss
      else if s = asc ''..'' then
        normalize_segments up
          (case acc of
             a # as \<Rightarrow> if a \<noteq> asc ''..'' then as else if up then s # acc else acc
           | [] \<Rightarrow> if up then [s] else []) ss
      else normalize_segments up (s # acc) ss)"

definition normalize_string :: "bool \<Rightarrow> jstr \<Rightarrow> jstr" where
  "normalize_string up p = js_join [slash] (normalize_segments up [] (split_units (\<lambda>c. c = slash) p))"

definition path_normalize :: "jstr \<Rightarrow> jstr" where
  "path_normalize p =
     (if p = [] then asc ''.''
      else let body = normalize_string (\<not> is_absolute_path p) p; trailing = (last p = slash)
           in if body = [] then
                (if is_absolute_path p then [slash] else if trailing then asc ''./'' else asc ''.'')
              else (if is_absolute_path p then [slash] else []) @ body @ (if trailing then [slash] else []))"

text \<open>\<open>path.resolve(base, p)\<close>: from the right until the path is absolute.\<close>

definition path_resolve :: "jstr \<Rightarrow> jstr list \<Rightarrow> jstr" where
  "path_resolve cwd parts =
     (let full = foldr (\<lambda>p acc. if p = [] \<or> is_absolute_path acc then acc else p @ [slash] @ acc) (cwd # parts) [];
          body = normalize_string (\<not> is_absolute_path full) full
      in if is_absolute_path full then [slash] @ body else if body = [] then asc ''.'' else body)"

definition path_dirname :: "jstr \<Rightarrow> jstr" where
  "path_dirname p =
     (if p = [] then asc ''.''
      else let rest = dropWhile (\<lambda>c. c \<noteq> slash) (dropWhile (\<lambda>c. c = slash) (rev (tl p)))
           in if rest = [] then (if is_absolute_path p then [slash] else asc ''.'')
              else if is_absolute_path p \<and> length rest = 1 then [slash, slash]
              else take (length rest) p)"

section \<open>Resolving tool paths\<close>

definition tool_boundary_error :: "jstr \<Rightarrow> js_error" where
  "tool_boundary_error attempted =
     (named_error ''ToolBoundaryError'' ([36335, 24452, 36229, 20986, 32, 119, 111, 114, 107, 115, 112, 97, 99, 101, 32, 33539, 22260, 65292, 24050, 25298, 32477, 65306] @ attempted))\<lparr>is_boundary := True\<rparr>"

definition path_inside :: "jstr \<Rightarrow> jstr \<Rightarrow> bool" where
  "path_inside base target \<longleftrightarrow> target = base \<or> js_starts_with (base @ [slash]) target"

definition resolve_within_workspace :: "jstr \<Rightarrow> jstr \<Rightarrow> jstr \<Rightarrow> js_error + jstr" where
  "resolve_within_workspace cwd ws_root input =
     (let base = path_normalize ws_root;
          target = (if is_absolute_path input then path_normalize input
                    else path_normalize (path_resolve cwd [base, input]))
      in if path_inside base target then Inr target else Inl (tool_boundary_error input))"

definition resolve_tool_path :: "jstr \<Rightarrow> jstr \<Rightarrow> jstr \<Rightarrow> access_scope \<Rightarrow> js_error + jstr" where
  "resolve_tool_path cwd ws_root input scope =
     (if scope = WorkspaceScope then resolve_within_workspace cwd ws_root input
      else Inr (if is_absolute_path input then path_normalize input
                else path_normalize (path_resolve cwd [ws_root, input])))"

definition is_missing_path :: "js_error \<Rightarrow> bool" where
  "is_missing_path e \<longleftrightarrow> err_code e = Some (asc ''ENOENT'')"

definition assert_real_path_within :: "jstr \<Rightarrow> jstr \<Rightarrow> jstr \<Rightarrow> js_error + unit" where
  "assert_real_path_within real_base real_target attempted =
     (if path_inside (path_normalize real_base) (path_normalize real_target) then Inr ()
      else Inl (tool_boundary_error attempted))"

type_synonym real_path = "jstr \<Rightarrow> js_error + jstr"

text \<open>The two lookups of \<open>Promise.all\<close> run side by side; whichever fails, the call fails.\<close>

definition resolve_existing_path :: "real_path \<Rightarrow> jstr \<Rightarrow> jstr \<Rightarrow> jstr \<Rightarrow> access_scope \<Rightarrow> js_error + jstr" where
  "resolve_existing_path realpath cwd ws_root input scope =
     (case resolve_tool_path cwd ws_root input scope of
        Inl e \<Rightarrow> Inl e
      | Inr target \<Rightarrow>
          if scope = SystemScope then (case realpath target of Inl e \<Rightarrow> Inl e | Inr _ \<Rightarrow> Inr target)
          else (case (realpath ws_root, realpath target) of
                  (Inl e, _) \<Rightarrow> Inl e
                | (_, Inl e) \<Rightarrow> Inl e
                | (Inr real_base, Inr real_target) \<Rightarrow>
                    (case assert_real_path_within real_base real_target input of Inl e \<Rightarrow> Inl e | Inr _ \<Rightarrow> Inr target)))"

text \<open>A path is nearer to the root than another by its length, except for the two relative stops.\<close>

definition path_size :: "jstr \<Rightarrow> nat" where
  "path_size p = (if p = [] then 4 else if p = asc ''.'' then 0 else length p)"

lemma path_dirname_smaller: "path_dirname p \<noteq> p \<Longrightarrow> path_size (path_dirname p) < path_size p"
proof -
  assume ne: "path_dirname p \<noteq> p"
  define rest where "rest = dropWhile (\<lambda>c. c \<noteq> slash) (dropWhile (\<lambda>c. c = slash) (rev (tl p)))"
  have len: "length rest \<le> length p - 1"
    unfolding rest_def by (metis length_dropWhile_le length_rev length_tl order_trans)
  have two: "rest \<noteq> [] \<Longrightarrow> 2 < length p"
  proof -
    assume "rest \<noteq> []"
    define mid where "mid = dropWhile (\<lambda>c. c = slash) (rev (tl p))"
    have rest: "rest = dropWhile (\<lambda>c. c \<noteq> slash) mid" by (simp only: rest_def mid_def)
    then have "mid \<noteq> []" using \<open>rest \<noteq> []\<close> by auto
    moreover from this have "hd mid \<noteq> slash"
      using hd_dropWhile [of "\<lambda>c. c = slash" "rev (tl p)", folded mid_def] by blast
    ultimately obtain c cs where c: "mid = c # cs" "c \<noteq> slash" by (cases mid) auto
    with rest c \<open>rest \<noteq> []\<close> have "cs \<noteq> []" by auto
    then have "2 \<le> length (c # cs)" by (cases cs) auto
    also have "\<dots> \<le> length (rev (tl p))" unfolding c(1) [symmetric] mid_def by (rule length_dropWhile_le)
    finally show "2 < length p" by simp
  qed
  show ?thesis
  proof (cases "p = []")
    case False
    have dot: "path_size (asc ''.'') = 0" "length (asc ''.'') = 1" by (simp_all add: path_size_def)
    have dn: "path_dirname p = (if rest = [] then (if is_absolute_path p then [slash] else asc ''.'')
        else if is_absolute_path p \<and> length rest = 1 then [slash, slash] else take (length rest) p)"
      using False by (simp only: path_dirname_def rest_def Let_def if_False)
    consider "rest = []" "is_absolute_path p" "path_dirname p = [slash]" | "rest = []" "path_dirname p = asc ''.''"
      | "rest \<noteq> []" "length rest = 1" "path_dirname p = [slash, slash]" | "rest \<noteq> []" "path_dirname p = take (length rest) p"
      using dn by presburger
    then show ?thesis
    proof cases
      case 1
      then have "length p \<noteq> 1" using ne by (cases p) (auto simp: is_absolute_path_def js_starts_with_def)
      moreover have "p \<noteq> asc ''.''" using 1 by (auto simp: is_absolute_path_def js_starts_with_def asc_def slash_def)
      ultimately show ?thesis using 1 False by (cases p) (auto simp: path_size_def asc_def slash_def)
    next
      case 2
      then show ?thesis using ne False by (auto simp: path_size_def)
    next
      case 3
      then have "p \<noteq> asc ''.''" using two by auto
      then show ?thesis using 3 two False by (simp add: path_size_def slash_def asc_def)
    next
      case 4
      then have "p \<noteq> asc ''.''" using two by auto
      moreover have "path_size (take (length rest) p) \<le> length rest"
        using 4 False two by (auto simp: path_size_def min_def)
      ultimately show ?thesis using 4 len two False by (simp add: path_size_def)
    qed
  qed (simp add: path_dirname_def path_size_def)
qed

function existing_ancestor :: "real_path \<Rightarrow> jstr \<Rightarrow> jstr \<Rightarrow> jstr \<Rightarrow> js_error + jstr" where
  "existing_ancestor realpath lexical_root path current =
     (case realpath current of
        Inr r \<Rightarrow> Inr r
      | Inl e \<Rightarrow>
          if \<not> is_missing_path e then Inl e
          else if current = lexical_root then realpath lexical_root
          else if path_dirname current = current then Inl (tool_boundary_error path)
          else existing_ancestor realpath lexical_root path (path_dirname current))"
  by pat_completeness auto
termination by (relation "measure (\<lambda>(realpath, ws_root, path, current). path_size current)") (auto intro: path_dirname_smaller)

declare existing_ancestor.simps [simp del]

definition realpath_existing_ancestor :: "real_path \<Rightarrow> jstr \<Rightarrow> jstr \<Rightarrow> js_error + jstr" where
  "realpath_existing_ancestor realpath path ws_root = existing_ancestor realpath (path_normalize ws_root) path path"

definition resolve_writable_path :: "real_path \<Rightarrow> jstr \<Rightarrow> jstr \<Rightarrow> jstr \<Rightarrow> access_scope \<Rightarrow> js_error + jstr" where
  "resolve_writable_path realpath cwd ws_root input scope =
     (case resolve_tool_path cwd ws_root input scope of
        Inl e \<Rightarrow> Inl e
      | Inr target \<Rightarrow>
          if scope = SystemScope then Inr target
          else (case realpath ws_root of
                  Inl e \<Rightarrow> Inl e
                | Inr real_base \<Rightarrow>
                    (let parent_check = (case realpath_existing_ancestor realpath (path_dirname target) ws_root of
                           Inl e \<Rightarrow> Inl e
                         | Inr real_parent \<Rightarrow>
                             (case assert_real_path_within real_base real_parent input of Inl e \<Rightarrow> Inl e | Inr _ \<Rightarrow> Inr target))
                     in (case realpath target of
                           Inr real_target \<Rightarrow>
                             (case assert_real_path_within real_base real_target input of
                                Inl e \<Rightarrow> if is_missing_path e then parent_check else Inl e
                              | Inr _ \<Rightarrow> Inr target)
                         | Inl e \<Rightarrow> if is_missing_path e then parent_check else Inl e))))"

section \<open>Normal paths\<close>

lemma split_units_free: "s \<in> set (split_units p t) \<Longrightarrow> c \<in> set s \<Longrightarrow> \<not> p c"
proof (induction t arbitrary: s)
  case (Cons d t)
  then show ?case by (cases "split_units p t") (fastforce split: if_splits)+
qed simp

lemma js_join_Cons: "js_join d (x # xs) = x @ (if xs = [] then [] else d @ js_join d xs)"
  by (cases xs) simp_all

lemma split_units_join:
  "ss \<noteq> [] \<Longrightarrow> \<forall>s \<in> set ss. \<forall>c \<in> set s. \<not> p c \<Longrightarrow> p d \<Longrightarrow> split_units p (js_join [d] ss) = ss"
proof (induction "[d]" ss rule: js_join.induct)
  case (2 x)
  have "split_units p y = [y]" if "\<forall>c \<in> set y. \<not> p c" for y using that by (induction y) auto
  then show ?case using 2 by simp
next
  case (3 x y xs)
  have "split_units p (z @ d # rest) = z # split_units p rest" if "\<forall>c \<in> set z. \<not> p c" for z rest
    using that 3 by (induction z) auto
  then show ?case using 3 by simp
qed simp

text \<open>A segment that names an entry.\<close>

definition plain_segment :: "jstr \<Rightarrow> bool" where
  "plain_segment s \<longleftrightarrow> s \<noteq> [] \<and> s \<noteq> asc ''.'' \<and> s \<noteq> asc ''..'' \<and> (\<forall>c \<in> set s. c \<noteq> slash)"

lemma normalize_segments_plain:
  "\<forall>s \<in> set acc. plain_segment s \<Longrightarrow> \<forall>s \<in> set ss. \<forall>c \<in> set s. c \<noteq> slash \<Longrightarrow>
   \<forall>s \<in> set (normalize_segments False acc ss). plain_segment s"
proof (induction False acc ss rule: normalize_segments.induct)
  case (2 acc s ss)
  have ss: "\<forall>s \<in> set ss. \<forall>c \<in> set s. c \<noteq> slash" using "2.prems"(2) by simp
  consider (skip) "s = [] \<or> s = asc ''.''" | (up) "\<not> (s = [] \<or> s = asc ''.'')" "s = asc ''..''"
    | (plain) "\<not> (s = [] \<or> s = asc ''.'')" "s \<noteq> asc ''..''" by blast
  then show ?case
  proof cases
    case skip
    then show ?thesis using "2.hyps"(1) [OF skip "2.prems"(1) ss] by auto
  next
    case up
    let ?acc = "case acc of a # as \<Rightarrow> if a \<noteq> asc ''..'' then as else if False then s # acc else acc | [] \<Rightarrow> if False then [s] else []"
    have "\<forall>x \<in> set ?acc. plain_segment x" using "2.prems"(1) by (cases acc) auto
    from "2.hyps"(2) [OF up this ss] show ?thesis using up by simp
  next
    case plain
    then have "\<forall>x \<in> set (s # acc). plain_segment x" using "2.prems" by (simp add: plain_segment_def)
    from "2.hyps"(3) [OF plain this ss] show ?thesis using plain by simp
  qed
qed simp

definition abs_segments :: "jstr \<Rightarrow> jstr list" where
  "abs_segments p = normalize_segments False [] (split_units (\<lambda>c. c = slash) p)"

lemma abs_segments_plain: "s \<in> set (abs_segments p) \<Longrightarrow> plain_segment s"
  using normalize_segments_plain [of "[]" "split_units (\<lambda>c. c = slash) p"] split_units_free
  by (fastforce simp: abs_segments_def)

lemma normalize_absolute:
  assumes "is_absolute_path p"
  shows "path_normalize p = [slash] @ js_join [slash] (abs_segments p) @ (if abs_segments p \<noteq> [] \<and> last p = slash then [slash] else [])"
proof -
  have "p \<noteq> []" using assms by (auto simp: is_absolute_path_def js_starts_with_def)
  moreover have "js_join [slash] (abs_segments p) = [] \<longleftrightarrow> abs_segments p = []"
    using abs_segments_plain [of _ p] by (cases "abs_segments p") (auto simp: js_join_Cons plain_segment_def)
  ultimately show ?thesis
    using assms by (simp add: path_normalize_def normalize_string_def abs_segments_def Let_def)
qed

lemma join_starts_plain: "\<forall>s \<in> set ss. plain_segment s \<Longrightarrow> ss \<noteq> [] \<Longrightarrow> js_join d ss \<noteq> [] \<and> hd (js_join d ss) \<noteq> slash"
  by (cases ss) (auto simp: js_join_Cons plain_segment_def)

lemma resolve_absolute: "is_absolute_path base \<Longrightarrow> is_absolute_path (path_resolve cwd [base, p])"
  by (auto simp: path_resolve_def Let_def is_absolute_path_def js_starts_with_def)

lemma root_is_normal: "path_normalize [slash] = [slash]"
  by (simp add: path_normalize_def normalize_string_def is_absolute_path_def js_starts_with_def Let_def)

lemma only_root_inside_root:
  assumes "is_absolute_path p" and "path_inside [slash] (path_normalize p)"
  shows "path_normalize p = [slash]"
proof (rule ccontr)
  assume ne: "path_normalize p \<noteq> [slash]"
  with assms(2) have "js_starts_with [slash, slash] (path_normalize p)" by (simp add: path_inside_def)
  moreover have "abs_segments p \<noteq> []" using ne by (auto simp: normalize_absolute [OF assms(1)])
  ultimately show False
    using join_starts_plain [of "abs_segments p" "[slash]"] abs_segments_plain
    by (cases "js_join [slash] (abs_segments p)") (auto simp: normalize_absolute [OF assms(1)] js_starts_with_def)
qed

section \<open>Containment\<close>

text \<open>The ancestors of a path, as \<open>dirname\<close> steps through them.\<close>

inductive ancestor :: "jstr \<Rightarrow> jstr \<Rightarrow> bool" where
  itself: "ancestor p p"
| parent: "ancestor p q \<Longrightarrow> ancestor p (path_dirname q)"

lemma ancestor_trans: "ancestor q r \<Longrightarrow> ancestor p q \<Longrightarrow> ancestor p r"
  by (induction rule: ancestor.induct) (auto intro: ancestor.intros)

lemma existing_ancestor_found:
  "existing_ancestor realpath lexical_root path current = Inr r \<Longrightarrow>
   \<exists>a. (ancestor current a \<or> a = lexical_root) \<and> realpath a = Inr r"
proof (induction realpath lexical_root path current rule: existing_ancestor.induct)
  case (1 realpath lexical_root path current)
  show ?case
  proof (cases "realpath current")
    case (Inr r')
    then show ?thesis using "1.prems" by (subst (asm) existing_ancestor.simps) (auto intro: itself)
  next
    case (Inl e)
    consider "current = lexical_root" "realpath lexical_root = Inr r"
      | "is_missing_path e" "current \<noteq> lexical_root" "path_dirname current \<noteq> current"
        "existing_ancestor realpath lexical_root path (path_dirname current) = Inr r"
      using "1.prems" Inl by (subst (asm) existing_ancestor.simps) (auto split: if_splits)
    then show ?thesis
    proof cases
      case 1
      then show ?thesis by blast
    next
      case 2
      then obtain a where "ancestor (path_dirname current) a \<or> a = lexical_root" "realpath a = Inr r"
        using "1.IH" [OF Inl] by auto
      moreover have "ancestor current (path_dirname current)" by (rule parent [OF itself])
      ultimately show ?thesis using ancestor_trans by blast
    qed
  qed
qed

text \<open>A target that names an entry below the base by plain segments, however the input was spelt.\<close>

definition plainly_inside :: "jstr \<Rightarrow> jstr \<Rightarrow> bool" where
  "plainly_inside base target \<longleftrightarrow> path_inside base target \<and> (\<forall>s \<in> set (split_units (\<lambda>c. c = slash) target). s = [] \<or> plain_segment s)"

lemma normalized_segments:
  assumes "is_absolute_path p" and "s \<in> set (split_units (\<lambda>c. c = slash) (path_normalize p))"
  shows "s = [] \<or> plain_segment s"
proof (cases "abs_segments p = []")
  case True
  then show ?thesis using assms(2) by (simp add: normalize_absolute [OF assms(1)])
next
  case False
  let ?split = "split_units (\<lambda>c. c = slash)"
  have join: "?split (js_join [slash] ss) = ss" if "ss \<noteq> []" "\<forall>s \<in> set ss. \<forall>c \<in> set s. c \<noteq> slash" for ss
    by (rule split_units_join) (use that in auto)
  have "js_join [slash] ss @ [slash] = js_join [slash] (ss @ [[]])" if "ss \<noteq> []" for ss
    using that by (induction "[slash]" ss rule: js_join.induct) auto
  then have tail: "?split (js_join [slash] (abs_segments p) @ [slash]) = abs_segments p @ [[]]"
    using join [of "abs_segments p @ [[]]"] abs_segments_plain [of _ p] False by (auto simp: plain_segment_def)
  have "set (?split (path_normalize p)) \<subseteq> insert [] (set (abs_segments p))"
    using join [of "abs_segments p"] tail abs_segments_plain [of _ p] False
    by (auto simp: normalize_absolute [OF assms(1)] plain_segment_def)
  then show ?thesis using assms(2) abs_segments_plain by blast
qed

lemma resolve_within_plain:
  assumes "is_absolute_path ws_root" and "resolve_within_workspace cwd ws_root input = Inr target"
  shows "plainly_inside (path_normalize ws_root) target"
proof -
  have base: "is_absolute_path (path_normalize ws_root)"
    by (simp add: normalize_absolute [OF assms(1)] is_absolute_path_def js_starts_with_def)
  obtain p where p: "is_absolute_path p" "target = path_normalize p"
    using assms(2) resolve_absolute [OF base, of cwd input]
    by (auto simp: resolve_within_workspace_def Let_def split: if_splits)
  then show ?thesis
    using assms(2) normalized_segments [OF p(1)] unfolding plainly_inside_def
    by (auto simp: resolve_within_workspace_def Let_def split: if_splits)
qed



text \<open>
  C32. Two gaps of these checks. A path that is a link to a file that does not exist yet looks like a
  missing file: it is accepted, and writing it follows the link out of the workspace. And when
  the workspace is the root of the file system, every path but the root itself is refused, because
  the prefix asked for is then two slashes.
\<close>

theorem path_checks_miss_links_and_root:
  "(\<exists>realpath lands.
      (\<forall>p. case realpath p of Inr r \<Rightarrow> lands p = r | Inl e \<Rightarrow> is_missing_path e)
      \<and> resolve_writable_path realpath (asc ''/'') (asc ''/w'') (asc ''out'') WorkspaceScope = Inr (asc ''/w/out'')
      \<and> \<not> path_inside (asc ''/w'') (lands (asc ''/w/out'')))
   \<and> resolve_within_workspace cwd (asc ''/'') input \<in> {Inr (asc ''/''), Inl (tool_boundary_error input)}
   \<and> resolve_within_workspace (asc ''/'') (asc ''/'') (asc ''etc/hosts'') = Inl (tool_boundary_error (asc ''etc/hosts''))"
proof (intro conjI)
  define rp :: real_path where
    "rp p = (if p = asc ''/w'' then Inr p else Inl ((named_error ''Error'' [])\<lparr>err_code := Some (asc ''ENOENT'')\<rparr>))" for p
  define lands where "lands p = (if p = asc ''/w/out'' then asc ''/etc/new'' else p)" for p
  have "case rp p of Inr r \<Rightarrow> lands p = r | Inl e \<Rightarrow> is_missing_path e" for p
    by (simp add: rp_def lands_def is_missing_path_def)
  moreover have "resolve_writable_path rp (asc ''/'') (asc ''/w'') (asc ''out'') WorkspaceScope = Inr (asc ''/w/out'')"
  proof -
    have "resolve_tool_path (asc ''/'') (asc ''/w'') (asc ''out'') WorkspaceScope = Inr (asc ''/w/out'')" by code_simp
    moreover have "path_dirname (asc ''/w/out'') = asc ''/w''" by code_simp
    moreover have "assert_real_path_within (asc ''/w'') (asc ''/w'') (asc ''out'') = Inr ()" by code_simp
    ultimately show ?thesis
      by (simp add: resolve_writable_path_def Let_def rp_def realpath_existing_ancestor_def existing_ancestor.simps is_missing_path_def)
  qed
  moreover have "\<not> path_inside (asc ''/w'') (lands (asc ''/w/out''))"
    unfolding lands_def by (simp add: path_inside_def js_starts_with_def asc_def slash_def)
  ultimately show "\<exists>realpath lands.
      (\<forall>p. case realpath p of Inr r \<Rightarrow> lands p = r | Inl e \<Rightarrow> is_missing_path e)
      \<and> resolve_writable_path realpath (asc ''/'') (asc ''/w'') (asc ''out'') WorkspaceScope = Inr (asc ''/w/out'')
      \<and> \<not> path_inside (asc ''/w'') (lands (asc ''/w/out''))" by blast
  have slash: "asc ''/'' = [slash]" by (simp add: asc_def slash_def)
  have "is_absolute_path (path_resolve cwd [[slash], input])" by (rule resolve_absolute) (simp add: is_absolute_path_def js_starts_with_def)
  then show "resolve_within_workspace cwd (asc ''/'') input \<in> {Inr (asc ''/''), Inl (tool_boundary_error input)}"
    using only_root_inside_root by (auto simp: slash resolve_within_workspace_def Let_def root_is_normal)
  show "resolve_within_workspace (asc ''/'') (asc ''/'') (asc ''etc/hosts'') = Inl (tool_boundary_error (asc ''etc/hosts''))" by code_simp
qed

end
