(* ===== verification/File_Tree.thy ===== *)
theory File_Tree
  imports Workspace_Paths "HOL-Library.List_Lexorder" "HOL-Library.Sublist"
begin

text \<open>
  The file system below the calls the program makes of \<open>node:fs\<close>: which entries exist, symbolic
  links followed as the kernel follows them, recursive creation and removal. An entry is keyed by
  the segments of its real path from the root, so \<open>[]\<close> is \<open>/\<close>. Permissions, modes and times are
  not kept, and an error carries its code in place of the host's message.
\<close>

section \<open>Entries and lookup\<close>

type_synonym bytes = "nat list"
type_synonym segs = "jstr list"

datatype fnode = FileNode bytes | DirNode | LinkNode jstr

type_synonym file_tree = "(segs, fnode) omap"

definition errno :: "string \<Rightarrow> js_error" where
  "errno c = (plain_error (asc c))\<lparr>err_code := Some (asc c)\<rparr>"

text \<open>\<open>resolve(base, p)\<close> with the segments of a base that is absolute.\<close>

definition resolve_segs :: "segs \<Rightarrow> jstr \<Rightarrow> segs" where
  "resolve_segs base p =
     normalize_segments False (if is_absolute_path p then [] else rev base) (split_units (\<lambda>c. c = slash) p)"

text \<open>
  The walk from an entry along segments. A link in the middle is always followed, the last one
  only on request; after \<open>n\<close> links the kernel gives up with \<open>ELOOP\<close>. An absent last entry is a place
  at which one could be created.
\<close>

fun walk :: "nat \<Rightarrow> bool \<Rightarrow> file_tree \<Rightarrow> segs \<Rightarrow> segs \<Rightarrow> js_error + segs" where
  "walk n follow fs loc [] = Inr loc"
| "walk n follow fs loc (s # ss) =
     (if s = [] \<or> s = asc ''.'' then walk n follow fs loc ss
      else if s = asc ''..'' then walk n follow fs (butlast loc) ss
      else (case om_get fs (loc @ [s]) of
              None \<Rightarrow> if ss = [] then Inr (loc @ [s]) else Inl (errno ''ENOENT'')
            | Some (FileNode b) \<Rightarrow> if ss = [] then Inr (loc @ [s]) else Inl (errno ''ENOTDIR'')
            | Some DirNode \<Rightarrow> walk n follow fs (loc @ [s]) ss
            | Some (LinkNode t) \<Rightarrow>
                if ss = [] \<and> \<not> follow then Inr (loc @ [s])
                else (case n of
                        0 \<Rightarrow> Inl (errno ''ELOOP'')
                      | Suc m \<Rightarrow> walk m follow fs (if is_absolute_path t then [] else loc)
                                   (split_units (\<lambda>c. c = slash) t @ ss))))"

definition max_links :: nat where "max_links = 40"

definition locate :: "bool \<Rightarrow> file_tree \<Rightarrow> segs \<Rightarrow> js_error + segs" where
  "locate follow fs k = walk max_links follow fs [] k"

definition fs_exists :: "file_tree \<Rightarrow> segs \<Rightarrow> bool" where
  "fs_exists fs k = (case locate True fs k of Inl e \<Rightarrow> False | Inr c \<Rightarrow> om_get fs c \<noteq> None)"

definition fs_lstat :: "file_tree \<Rightarrow> segs \<Rightarrow> js_error + segs \<times> fnode" where
  "fs_lstat fs k = (case locate False fs k of Inl e \<Rightarrow> Inl e
     | Inr c \<Rightarrow> (case om_get fs c of None \<Rightarrow> Inl (errno ''ENOENT'') | Some x \<Rightarrow> Inr (c, x)))"

definition fs_realpath :: "file_tree \<Rightarrow> segs \<Rightarrow> js_error + segs" where
  "fs_realpath fs k = (case locate True fs k of Inl e \<Rightarrow> Inl e
     | Inr c \<Rightarrow> if om_get fs c = None then Inl (errno ''ENOENT'') else Inr c)"

text \<open>\<open>readdirSync(dir).sort()\<close>: by UTF-16 units, the order \<open>HOL-Library.List_Lexorder\<close> gives lists.\<close>

definition fs_children :: "file_tree \<Rightarrow> segs \<Rightarrow> jstr list" where
  "fs_children fs c =
     sort_key (\<lambda>x. x) (remdups (map last (filter (\<lambda>q. q \<noteq> [] \<and> butlast q = c) (om_keys fs))))"

section \<open>Changes\<close>

text \<open>\<open>rmSync(path, { recursive: true, force: true })\<close>.\<close>

definition fs_rm_rf :: "segs \<Rightarrow> file_tree \<Rightarrow> file_tree \<times> (js_error + unit)" where
  "fs_rm_rf k fs = (case locate False fs k of
      Inl e \<Rightarrow> (fs, if is_missing_path e then Inr () else Inl e)
    | Inr c \<Rightarrow> (filter (\<lambda>p. \<not> prefix c (fst p)) fs, Inr ()))"

text \<open>\<open>mkdirSync(path, { recursive: true })\<close>, from the top; a link counts when it leads to a directory.\<close>

fun mkdir_from :: "segs \<Rightarrow> segs \<Rightarrow> file_tree \<Rightarrow> file_tree \<times> (js_error + unit)" where
  "mkdir_from done [] fs = (fs, Inr ())"
| "mkdir_from done (s # ss) fs =
     (case locate False fs (done @ [s]) of
        Inl e \<Rightarrow> (fs, Inl e)
      | Inr c \<Rightarrow>
          (case om_get fs c of
             None \<Rightarrow> mkdir_from (done @ [s]) ss (om_set c DirNode fs)
           | Some DirNode \<Rightarrow> mkdir_from (done @ [s]) ss fs
           | Some (FileNode b) \<Rightarrow> (fs, Inl (errno (if ss = [] then ''EEXIST'' else ''ENOTDIR'')))
           | Some (LinkNode t) \<Rightarrow>
               (case locate True fs c of
                  Inl e \<Rightarrow> (fs, Inl e)
                | Inr d \<Rightarrow> if om_get fs d = Some DirNode then mkdir_from (done @ [s]) ss fs
                           else (fs, Inl (errno (if om_get fs d = None then ''ENOENT'' else if ss = [] then ''EEXIST'' else ''ENOTDIR''))))))"

definition fs_mkdir_p :: "segs \<Rightarrow> file_tree \<Rightarrow> file_tree \<times> (js_error + unit)" where
  "fs_mkdir_p k fs = mkdir_from [] k fs"

text \<open>\<open>writeFileSync\<close> follows a link; where the target is missing the file is created there.\<close>

definition fs_write :: "segs \<Rightarrow> bytes \<Rightarrow> file_tree \<Rightarrow> file_tree \<times> (js_error + unit)" where
  "fs_write k b fs = (case locate True fs k of
      Inl e \<Rightarrow> (fs, Inl e)
    | Inr c \<Rightarrow> if om_get fs c = Some DirNode then (fs, Inl (errno ''EISDIR''))
               else (om_set c (FileNode b) fs, Inr ()))"

definition fs_symlink :: "jstr \<Rightarrow> segs \<Rightarrow> file_tree \<Rightarrow> file_tree \<times> (js_error + unit)" where
  "fs_symlink t k fs = (case locate False fs k of
      Inl e \<Rightarrow> (fs, Inl e)
    | Inr c \<Rightarrow> if om_get fs c = None then (om_set c (LinkNode t) fs, Inr ()) else (fs, Inl (errno ''EEXIST'')))"

text \<open>Running a step for each element until one throws; what was changed before stays changed.\<close>

fun for_each :: "('a \<Rightarrow> 's \<Rightarrow> 's \<times> ('e + unit)) \<Rightarrow> 'a list \<Rightarrow> 's \<Rightarrow> 's \<times> ('e + unit)" where
  "for_each f [] s = (s, Inr ())"
| "for_each f (x # xs) s = (case f x s of (s', Inl e) \<Rightarrow> (s', Inl e) | (s', Inr _) \<Rightarrow> for_each f xs s')"

lemma for_each_append:
  "for_each f (xs @ ys) s = (case for_each f xs s of (s', Inl e) \<Rightarrow> (s', Inl e) | (s', Inr _) \<Rightarrow> for_each f ys s')"
  by (induction xs arbitrary: s) (auto split: prod.splits sum.splits)

lemma for_each_induct:
  assumes "P 0 s" and "\<And>i s. i < length xs \<Longrightarrow> P i s \<Longrightarrow> \<exists>s'. f (xs ! i) s = (s', Inr ()) \<and> P (Suc i) s'"
  shows "\<exists>s'. for_each f xs s = (s', Inr ()) \<and> P (length xs) s'"
  using assms
proof (induction xs arbitrary: s P)
  case (Cons x xs)
  obtain s1 where s1: "f x s = (s1, Inr ())" "P 1 s1" using Cons.prems(2) [of 0 s] Cons.prems(1) by auto
  have "\<exists>s'. for_each f xs s1 = (s', Inr ()) \<and> P (Suc (length xs)) s'"
  proof (rule Cons.IH [of "\<lambda>i. P (Suc i)"])
    show "P (Suc 0) s1" using s1 by simp
    fix i s assume "i < length xs" "P (Suc i) s"
    then show "\<exists>s'. f (xs ! i) s = (s', Inr ()) \<and> P (Suc (Suc i)) s'" using Cons.prems(2) [of "Suc i" s] by auto
  qed
  then show ?case using s1 by simp
qed simp

section \<open>Well-formed trees\<close>

text \<open>Every entry but the root is named by a plain segment in a directory.\<close>

definition tree_wf :: "file_tree \<Rightarrow> bool" where
  "tree_wf fs \<longleftrightarrow> om_wf fs \<and> om_get fs [] = Some DirNode \<and>
     (\<forall>(k, x) \<in> set fs. k = [] \<or> plain_segment (last k) \<and> om_get fs (butlast k) = Some DirNode)"

lemma tree_wf_D:
  assumes "tree_wf fs"
  shows "om_wf fs" "om_get fs [] = Some DirNode"
    "om_get fs (k @ [s]) = Some x \<Longrightarrow> plain_segment s"
    "om_get fs (k @ [s]) = Some x \<Longrightarrow> om_get fs k = Some DirNode"
  using assms by (auto simp: tree_wf_def dest!: map_of_SomeD)

lemma tree_wf_I:
  assumes "om_wf fs" "om_get fs [] = Some DirNode"
    and "\<And>k s x. om_get fs (k @ [s]) = Some x \<Longrightarrow> plain_segment s \<and> om_get fs k = Some DirNode"
  shows "tree_wf fs"
proof -
  have "plain_segment (last k) \<and> om_get fs (butlast k) = Some DirNode" if "(k, x) \<in> set fs" "k \<noteq> []" for k x
    using assms(3) [of "butlast k" "last k" x] map_of_is_SomeI [OF assms(1) that(1)] that(2) by simp
  then show ?thesis using assms(1,2) by (auto simp: tree_wf_def)
qed

lemma tree_above:
  assumes "tree_wf fs" and "om_get fs (k @ d) = Some x" and "d \<noteq> []"
  shows "om_get fs k = Some DirNode"
  using assms(2,3)
proof (induction d arbitrary: x rule: rev_induct)
  case (snoc s d)
  have "om_get fs (k @ d) = Some DirNode"
    using tree_wf_D(4) [OF assms(1), of "k @ d" s x] snoc.prems by simp
  then show ?case using snoc.IH [of DirNode] by (cases "d = []") auto
qed simp

lemma tree_plain:
  assumes "tree_wf fs" and "om_get fs k = Some x"
  shows "\<forall>s \<in> set k. plain_segment s"
  using assms(2)
proof (induction k arbitrary: x rule: rev_induct)
  case (snoc s k)
  then show ?case using tree_wf_D(3,4) [OF assms(1), of k s x] by auto
qed simp

lemma walk_solid:
  "\<forall>s \<in> set ss. plain_segment s \<Longrightarrow> \<forall>q. strict_prefix q ss \<longrightarrow> om_get fs (loc @ q) = Some DirNode \<Longrightarrow>
   (follow \<longrightarrow> (\<forall>t. om_get fs (loc @ ss) \<noteq> Some (LinkNode t))) \<Longrightarrow>
   walk n follow fs loc ss = Inr (loc @ ss)"
proof (induction ss arbitrary: loc)
  case (Cons s ss)
  have s: "s \<noteq> []" "s \<noteq> asc ''.''" "s \<noteq> asc ''..''" using Cons.prems(1) by (auto simp: plain_segment_def)
  show ?case
  proof (cases "ss = []")
    case True
    then show ?thesis using Cons.prems(3) s by (auto split: option.splits fnode.splits)
  next
    case False
    have "om_get fs (loc @ [s]) = Some DirNode"
      using Cons.prems(2) [rule_format, of "[s]"] False by (auto simp: strict_prefix_def)
    moreover have "walk n follow fs (loc @ [s]) ss = Inr ((loc @ [s]) @ ss)"
    proof (rule Cons.IH)
      show "\<forall>q. strict_prefix q ss \<longrightarrow> om_get fs ((loc @ [s]) @ q) = Some DirNode"
        using Cons.prems(2) [rule_format, of "s # _"] by simp
    qed (use Cons.prems in auto)
    ultimately show ?thesis using s by simp
  qed
qed simp

text \<open>A path is solid when what lies above it are directories, not links.\<close>

definition solid :: "file_tree \<Rightarrow> segs \<Rightarrow> bool" where
  "solid fs k \<longleftrightarrow> (\<forall>s \<in> set k. plain_segment s) \<and> (\<forall>q. strict_prefix q k \<longrightarrow> om_get fs q = Some DirNode)"

lemma solid_entry: "tree_wf fs \<Longrightarrow> om_get fs k = Some x \<Longrightarrow> solid fs k"
  unfolding solid_def by (metis tree_plain tree_above strict_prefixE' append_Cons append_Nil list.distinct(1))

lemma locate_solid [simp]: "solid fs k \<Longrightarrow> locate False fs k = Inr k"
  using walk_solid [of k fs "[]" False] by (simp add: locate_def solid_def)

lemma locate_follow_solid: "solid fs k \<Longrightarrow> \<forall>t. om_get fs k \<noteq> Some (LinkNode t) \<Longrightarrow> locate True fs k = Inr k"
  using walk_solid [of k fs "[]" True] by (simp add: locate_def solid_def)

lemma tree_wf_set:
  assumes "tree_wf fs" and "solid fs k" and "k \<noteq> []" and "om_get fs k = Some DirNode \<Longrightarrow> x = DirNode"
  shows "tree_wf (om_set k x fs)"
proof (rule tree_wf_I)
  have get: "om_get (om_set k x fs) = (om_get fs)(k \<mapsto> x)" by (simp add: om_laws)
  show "om_wf (om_set k x fs)" using tree_wf_D(1) [OF assms(1)] by simp
  show "om_get (om_set k x fs) [] = Some DirNode" using tree_wf_D(2) [OF assms(1)] assms(3) by (simp add: get)
  fix q s y assume q: "om_get (om_set k x fs) (q @ [s]) = Some y"
  have "plain_segment s \<and> om_get fs q = Some DirNode"
  proof (cases "q @ [s] = k")
    case True
    then show ?thesis using assms(2) by (auto simp: solid_def strict_prefix_def)
  next
    case False
    then show ?thesis using q tree_wf_D(3,4) [OF assms(1), of q s y] by (simp add: get)
  qed
  then show "plain_segment s \<and> om_get (om_set k x fs) q = Some DirNode" using assms(4) by (auto simp: get)
qed

lemma tree_wf_prune:
  assumes "tree_wf fs" and "k \<noteq> []"
  shows "tree_wf (filter (\<lambda>p. \<not> prefix k (fst p)) fs)"
proof (rule tree_wf_I)
  have get: "om_get (filter (\<lambda>p. \<not> prefix k (fst p)) fs) q = (if prefix k q then None else om_get fs q)" for q
    by (induction fs) auto
  show "om_wf (filter (\<lambda>p. \<not> prefix k (fst p)) fs)"
    using tree_wf_D(1) [OF assms(1)] by (rule distinct_map_filter)
  show "om_get (filter (\<lambda>p. \<not> prefix k (fst p)) fs) [] = Some DirNode"
    using tree_wf_D(2) [OF assms(1)] assms(2) by (simp add: get)
  fix q s y assume "om_get (filter (\<lambda>p. \<not> prefix k (fst p)) fs) (q @ [s]) = Some y"
  then show "plain_segment s \<and> om_get (filter (\<lambda>p. \<not> prefix k (fst p)) fs) q = Some DirNode"
    using tree_wf_D(3,4) [OF assms(1), of q s y] by (auto simp: get prefix_append split: if_splits)
qed

lemma get_prune: "om_get (filter (\<lambda>p. \<not> prefix k (fst p)) fs) q = (if prefix k q then None else om_get fs q)"
  by (induction fs) auto

lemma mkdir_from_works:
  "tree_wf fs \<Longrightarrow> \<forall>s \<in> set (done @ ss). plain_segment s \<Longrightarrow> \<forall>q. prefix q done \<longrightarrow> om_get fs q = Some DirNode \<Longrightarrow>
   \<forall>q. prefix q (done @ ss) \<longrightarrow> om_get fs q = None \<or> om_get fs q = Some DirNode \<Longrightarrow>
   \<exists>fs'. mkdir_from done ss fs = (fs', Inr ()) \<and> tree_wf fs' \<and>
     (\<forall>q. om_get fs' q = (if prefix q (done @ ss) then Some DirNode else om_get fs q))"
proof (induction ss arbitrary: "done" fs)
  case Nil
  then show ?case by auto
next
  case (Cons s ss)
  have solid: "solid fs (done @ [s])" using Cons.prems by (auto simp: solid_def strict_prefix_def prefix_snoc)
  have now: "om_get fs (done @ [s]) = None \<or> om_get fs (done @ [s]) = Some DirNode"
    using Cons.prems(4) by (metis append.assoc append_Cons append_Nil prefixI)
  define fs1 where "fs1 = (if om_get fs (done @ [s]) = None then om_set (done @ [s]) DirNode fs else fs)"
  have get1: "om_get fs1 q = (if q = done @ [s] then Some DirNode else om_get fs q)" for q
    using now by (auto simp: fs1_def om_laws)
  have wf1: "tree_wf fs1" using tree_wf_set [OF Cons.prems(1) solid] Cons.prems(1) by (simp add: fs1_def)
  have step: "mkdir_from done (s # ss) fs = mkdir_from (done @ [s]) ss fs1"
    using now solid by (auto simp: fs1_def)
  have "\<exists>fs'. mkdir_from (done @ [s]) ss fs1 = (fs', Inr ()) \<and> tree_wf fs' \<and>
     (\<forall>q. om_get fs' q = (if prefix q ((done @ [s]) @ ss) then Some DirNode else om_get fs1 q))"
  proof (rule Cons.IH [OF wf1])
    show "\<forall>s \<in> set ((done @ [s]) @ ss). plain_segment s" using Cons.prems(2) by simp
    show "\<forall>q. prefix q (done @ [s]) \<longrightarrow> om_get fs1 q = Some DirNode"
      using Cons.prems(3) by (auto simp: get1 prefix_snoc)
    show "\<forall>q. prefix q ((done @ [s]) @ ss) \<longrightarrow> om_get fs1 q = None \<or> om_get fs1 q = Some DirNode"
      using Cons.prems(4) by (auto simp: get1)
  qed
  then show ?case unfolding step by (auto simp: get1)
qed

lemma mkdir_p_works:
  assumes "tree_wf fs" and "\<forall>s \<in> set k. plain_segment s"
    and "\<forall>q. prefix q k \<longrightarrow> om_get fs q = None \<or> om_get fs q = Some DirNode"
  shows "\<exists>fs'. fs_mkdir_p k fs = (fs', Inr ()) \<and> tree_wf fs' \<and>
     (\<forall>q. om_get fs' q = (if prefix q k then Some DirNode else om_get fs q))"
  using mkdir_from_works [of fs "[]" k] assms tree_wf_D(2) [OF assms(1)] by (simp add: fs_mkdir_p_def)

lemma write_works:
  assumes "tree_wf fs" and "solid fs k" and "om_get fs k = None" and "k \<noteq> []"
  shows "fs_write k b fs = (om_set k (FileNode b) fs, Inr ()) \<and> tree_wf (om_set k (FileNode b) fs)"
  using tree_wf_set [OF assms(1,2,4), of "FileNode b"] locate_follow_solid [OF assms(2)] assms(3)
  by (simp add: fs_write_def)

lemma symlink_works:
  assumes "tree_wf fs" and "solid fs k" and "om_get fs k = None" and "k \<noteq> []"
  shows "fs_symlink t k fs = (om_set k (LinkNode t) fs, Inr ()) \<and> tree_wf (om_set k (LinkNode t) fs)"
  using tree_wf_set [OF assms(1,2,4), of "LinkNode t"] assms(2,3) by (simp add: fs_symlink_def)

lemma walk_missing:
  "\<forall>s \<in> set ss. plain_segment s \<Longrightarrow>
   \<forall>q. strict_prefix q ss \<longrightarrow> om_get fs (loc @ q) = None \<or> om_get fs (loc @ q) = Some DirNode \<Longrightarrow>
   strict_prefix q ss \<Longrightarrow> q \<noteq> [] \<Longrightarrow> om_get fs (loc @ q) = None \<Longrightarrow>
   walk n follow fs loc ss = Inl (errno ''ENOENT'')"
proof (induction ss arbitrary: loc q)
  case (Cons s ss)
  have s: "s \<noteq> []" "s \<noteq> asc ''.''" "s \<noteq> asc ''..''" using Cons.prems(1) by (auto simp: plain_segment_def)
  obtain q' where q': "q = s # q'" "strict_prefix q' ss" using Cons.prems(3,4) by (cases q) auto
  then have ss: "ss \<noteq> []" by auto
  consider "om_get fs (loc @ [s]) = None" | "om_get fs (loc @ [s]) = Some DirNode"
    using Cons.prems(2) [rule_format, of "[s]"] ss by (auto simp: strict_prefix_def)
  then show ?case
  proof cases
    case 1
    then show ?thesis using s ss by simp
  next
    case 2
    then have "q' \<noteq> []" using Cons.prems(5) q'(1) by auto
    have "walk n follow fs (loc @ [s]) ss = Inl (errno ''ENOENT'')"
    proof (rule Cons.IH [OF _ _ q'(2) \<open>q' \<noteq> []\<close>])
      show "\<forall>q. strict_prefix q ss \<longrightarrow> om_get fs ((loc @ [s]) @ q) = None \<or> om_get fs ((loc @ [s]) @ q) = Some DirNode"
        using Cons.prems(2) [rule_format, of "s # _"] by simp
    qed (use Cons.prems q' in auto)
    then show ?thesis using 2 s by simp
  qed
qed simp

lemma rm_rf_works:
  assumes wf: "tree_wf fs" and plain: "\<forall>s \<in> set k. plain_segment s" and ne: "k \<noteq> []"
    and open_above: "\<forall>q. strict_prefix q k \<longrightarrow> om_get fs q = None \<or> om_get fs q = Some DirNode"
  shows "\<exists>fs'. fs_rm_rf k fs = (fs', Inr ()) \<and> tree_wf fs' \<and>
     (\<forall>q. om_get fs' q = (if prefix k q then None else om_get fs q))"
proof (cases "solid fs k")
  case True
  then have "fs_rm_rf k fs = (filter (\<lambda>p. \<not> prefix k (fst p)) fs, Inr ())" by (simp add: fs_rm_rf_def)
  then show ?thesis using tree_wf_prune [OF wf ne] get_prune [of k fs] by (intro exI conjI allI)
next
  case False
  then obtain q where q: "strict_prefix q k" "om_get fs q = None" using open_above plain by (auto simp: solid_def)
  then have "q \<noteq> []" using tree_wf_D(2) [OF wf] by auto
  then have "locate False fs k = Inl (errno ''ENOENT'')"
    using walk_missing [of k fs "[]" q] plain open_above q by (simp add: locate_def)
  moreover have "om_get fs r = None" if "prefix k r" for r
  proof (rule ccontr)
    assume "om_get fs r \<noteq> None"
    moreover have "strict_prefix q r" using q(1) that by (rule prefix_order.less_le_trans)
    ultimately show False using tree_above [OF wf, of q] q(2) by (metis append_Cons not_None_eq option.distinct(1) strict_prefixE' list.distinct(1))
  qed
  ultimately show ?thesis using wf by (auto simp: fs_rm_rf_def is_missing_path_def errno_def)
qed

lemma rm_rf_absent: "fs_rm_rf k fs = (fs', r) \<Longrightarrow> om_get fs' q = om_get fs q \<or> om_get fs' q = None"
  by (auto simp: fs_rm_rf_def get_prune split: sum.splits if_splits)

text \<open>The names in a directory, in one order whatever the order of the entries.\<close>

lemma set_fs_children: "set (fs_children fs c) = {s. om_get fs (c @ [s]) \<noteq> None}"
proof -
  have "s \<in> set (fs_children fs c) \<longleftrightarrow> c @ [s] \<in> set (om_keys fs)" for s
    by (force simp: fs_children_def image_iff)
  then show ?thesis by (auto simp: map_of_eq_None_iff)
qed

lemma children_sorted: "sorted_wrt (\<le>) (fs_children fs c)" "distinct (fs_children fs c)"
  by (simp_all add: fs_children_def)

lemma children_cong:
  assumes "\<And>s. om_get fs (c @ [s]) = None \<longleftrightarrow> om_get fs' (c @ [s]) = None"
  shows "fs_children fs c = fs_children fs' c"
  by (rule sorted_distinct_set_unique [OF children_sorted children_sorted]) (simp add: set_fs_children assms)

end
