(* ===== verification/Mutation_Journal.thy ===== *)
theory Mutation_Journal
  imports File_Tree
begin

text \<open>
  The journal of file changes (\<open>mutations/mutationJournal.ts\<close>) and the version check of stored data
  (\<open>persistence/version.ts\<close>): the maps kept in memory, the log file they are rebuilt from, and the
  contents stored by hash.

  A line of the log is kept as what a reader makes of it: text that does not parse, or a value with
  the event \<open>parseMutationEvent\<close> recognises in it. A file ends with complete lines and perhaps a rest
  without a newline, left by a process that stopped while writing. What is appended after such a rest
  continues its line, and the two together never parse.

  Parameters: SHA-256 in hexadecimal, the UTF-8 encoding and \<open>localeCompare\<close> (record \<open>host\<close>); the
  identifiers and times drawn at each operation are arguments.
\<close>

section \<open>Data\<close>

record host =
  sha :: "bytes \<Rightarrow> jstr"
  utf8 :: "jstr \<Rightarrow> bytes"
  collate :: "jstr comparator"

datatype mutation_tool = ApplyPatchTool | WriteTool | EditTool | DeleteTool | MoveTool

datatype entry_kind = KFile | KDirectory | KSymlink

record entry_snapshot =
  se_path :: jstr
  se_kind :: entry_kind
  se_hash :: jstr
  content_ref :: "jstr option"
  link_target :: "jstr option"

record root_snapshot =
  rs_path :: jstr
  rs_hash :: jstr
  rs_entries :: "entry_snapshot list"

record prepared_mutation =
  transaction_id :: jstr
  mut_run_id :: jstr
  mut_tool :: mutation_tool
  mut_root :: jstr
  created_at :: jstr
  pre_roots :: "root_snapshot list"

record mutation_record = prepared_mutation +
  post_roots :: "root_snapshot list"

datatype mutation_event =
    Prepared prepared_mutation
  | Committed jstr "root_snapshot list"
  | RolledBack jstr jstr
  | Undone jstr jstr

section \<open>The version of stored data\<close>

text \<open>\<open>str\<close> is \<open>String(...)\<close> on the value found.\<close>

definition is_json_record :: "json \<Rightarrow> bool" where
  "is_json_record v = (case v of JObj es \<Rightarrow> True | _ \<Rightarrow> False)"

definition unsupported_version :: "(json \<Rightarrow> jstr) \<Rightarrow> jstr \<Rightarrow> json \<Rightarrow> nat \<Rightarrow> js_error" where
  "unsupported_version str fmt actual supported =
     named_error ''UnsupportedDataVersionError''
       (fmt @ [32, 20351, 29992, 19981, 21463, 25903, 25345, 30340, 25968, 25454, 29256, 26412, 32] @ str actual @ [65307, 24403, 21069, 20165, 25903, 25345, 29256, 26412, 32] @ dec supported)"

definition assert_supported_version :: "(json \<Rightarrow> jstr) \<Rightarrow> json \<Rightarrow> jstr \<Rightarrow> jstr \<Rightarrow> nat \<Rightarrow> bool \<Rightarrow> js_error + unit" where
  "assert_supported_version str v fmt field supported allow_missing =
     (if \<not> is_json_record v then Inr ()
      else let actual = obj_field field v
           in if actual = JUndefined \<and> allow_missing then Inr ()
              else if actual \<noteq> JNum (Num (of_nat supported)) then Inl (unsupported_version str fmt actual supported)
              else Inr ())"

section \<open>Log files\<close>

datatype 'ev log_line = Malformed | Line json "'ev option"

record 'ev log_file =
  full_lines :: "'ev log_line list"
  open_line :: "'ev log_line option"

definition empty_log :: "'ev log_file" where
  "empty_log = \<lparr>full_lines = [], open_line = None\<rparr>"

definition log_lines :: "'ev log_file \<Rightarrow> 'ev log_line list" where
  "log_lines f = full_lines f @ (case open_line f of None \<Rightarrow> [] | Some l \<Rightarrow> [l])"

definition append_line :: "'ev log_line \<Rightarrow> 'ev log_file \<Rightarrow> 'ev log_file" where
  "append_line l f =
     \<lparr>full_lines = full_lines f @ [case open_line f of None \<Rightarrow> l | Some _ \<Rightarrow> Malformed], open_line = None\<rparr>"

text \<open>The process stops in the middle of the write, or just before the newline.\<close>

definition torn_append :: "'ev log_line \<Rightarrow> 'ev log_file \<Rightarrow> 'ev log_file" where
  "torn_append l f = f\<lparr>open_line := Some Malformed\<rparr>"

definition unterminated_append :: "'ev log_line \<Rightarrow> 'ev log_file \<Rightarrow> 'ev log_file" where
  "unterminated_append l f = f\<lparr>open_line := Some (case open_line f of None \<Rightarrow> l | Some _ \<Rightarrow> Malformed)\<rparr>"

fun fold_err :: "('s \<Rightarrow> 'l \<Rightarrow> 'e + 's) \<Rightarrow> 's \<Rightarrow> 'l list \<Rightarrow> 'e + 's" where
  "fold_err f s [] = Inr s"
| "fold_err f s (l # ls) = (case f s l of Inl e \<Rightarrow> Inl e | Inr s' \<Rightarrow> fold_err f s' ls)"

lemma fold_err_append:
  "fold_err f s (xs @ ys) = (case fold_err f s xs of Inl e \<Rightarrow> Inl e | Inr s' \<Rightarrow> fold_err f s' ys)"
  by (induction xs arbitrary: s) (auto split: sum.splits)

text \<open>What a component that keeps its state by replaying a log relies on.\<close>

locale replayed_log =
  fixes line_of :: "'ev \<Rightarrow> 'ev log_line"
    and change :: "'st \<Rightarrow> 'ev \<Rightarrow> 'st"
    and read_line :: "'st \<Rightarrow> 'ev log_line \<Rightarrow> 'e + 'st"
  assumes read_own: "read_line s (line_of e) = Inr (change s e)"
    and read_malformed: "read_line s Malformed = Inr s"
begin

lemma reads_after_append:
  assumes "fold_err read_line s0 (log_lines f) = Inr s" and "open_line f = None"
  shows "fold_err read_line s0 (log_lines (append_line (line_of e) f)) = Inr (change s e)"
    and "open_line (append_line (line_of e) f) = None"
  using assms by (simp_all add: log_lines_def append_line_def fold_err_append read_own)

lemma torn_append_is_ignored:
  assumes "fold_err read_line s0 (log_lines f) = Inr s" and "open_line f = None"
  shows "fold_err read_line s0 (log_lines (torn_append (line_of e) f)) = Inr s"
  using assms by (simp add: log_lines_def torn_append_def fold_err_append read_malformed)

lemma append_after_torn_is_lost:
  assumes "fold_err read_line s0 (log_lines f) = Inr s" and "open_line f = Some Malformed"
  shows "fold_err read_line s0 (log_lines (append_line (line_of e) f)) = Inr s"
  using assms by (simp add: log_lines_def append_line_def fold_err_append read_malformed split: sum.splits)

end

section \<open>The journal\<close>

record journal_maps =
  prepared_map :: "(jstr, prepared_mutation) omap"
  committed_map :: "(jstr, mutation_record) omap"
  inactive_ids :: "jstr set"

record journal =
  j_root :: jstr
  j_maps :: journal_maps
  j_file :: "mutation_event log_file"
  j_blobs :: "(jstr, bytes) omap"

definition empty_maps :: journal_maps where
  "empty_maps = \<lparr>prepared_map = [], committed_map = [], inactive_ids = {}\<rparr>"

definition mutation_version :: nat where "mutation_version = 1"

definition event_type :: "mutation_event \<Rightarrow> jstr" where
  "event_type e = (case e of Prepared m \<Rightarrow> asc ''mutation.prepared'' | Committed i p \<Rightarrow> asc ''mutation.committed''
     | RolledBack i r \<Rightarrow> asc ''mutation.rolled_back'' | Undone i t \<Rightarrow> asc ''mutation.undone'')"

text \<open>Of the value written, the line keeps the fields that are looked at before the event is.\<close>

definition event_line :: "mutation_event \<Rightarrow> mutation_event log_line" where
  "event_line e =
     Line (JObj [(asc ''schemaVersion'', JNum (Num (of_nat mutation_version))), (asc ''type'', JStr (event_type e))]) (Some e)"

definition with_post :: "prepared_mutation \<Rightarrow> root_snapshot list \<Rightarrow> mutation_record" where
  "with_post m post = prepared_mutation.extend m \<lparr>post_roots = post\<rparr>"

text \<open>The fold of \<open>load\<close>.\<close>

definition load_event :: "journal_maps \<Rightarrow> mutation_event \<Rightarrow> journal_maps" where
  "load_event s e = (case e of
     Prepared m \<Rightarrow> s\<lparr>prepared_map := om_set (transaction_id m) m (prepared_map s)\<rparr>
   | Committed i post \<Rightarrow>
       (case om_get (prepared_map s) i of
          None \<Rightarrow> s
        | Some m \<Rightarrow> s\<lparr>committed_map := om_set i (with_post m post) (committed_map s),
                     prepared_map := om_del i (prepared_map s)\<rparr>)
   | RolledBack i r \<Rightarrow> s\<lparr>prepared_map := om_del i (prepared_map s), inactive_ids := insert i (inactive_ids s)\<rparr>
   | Undone i t \<Rightarrow> s\<lparr>inactive_ids := insert i (inactive_ids s)\<rparr>)"

definition load_line :: "(json \<Rightarrow> jstr) \<Rightarrow> journal_maps \<Rightarrow> mutation_event log_line \<Rightarrow> js_error + journal_maps" where
  "load_line str s l = (case l of
     Malformed \<Rightarrow> Inr s
   | Line raw ev \<Rightarrow>
       (case assert_supported_version str raw (asc ''Mutation journal event'') (asc ''schemaVersion'') mutation_version True of
          Inl e \<Rightarrow> Inl e
        | Inr _ \<Rightarrow> Inr (case ev of None \<Rightarrow> s | Some e \<Rightarrow> load_event s e)))"

text \<open>The constructor, on the files it finds.\<close>

definition open_journal :: "(json \<Rightarrow> jstr) \<Rightarrow> jstr \<Rightarrow> mutation_event log_file \<Rightarrow> (jstr, bytes) omap \<Rightarrow> js_error + journal" where
  "open_journal str rt file blobs =
     (case fold_err (load_line str) empty_maps (log_lines file) of
        Inl e \<Rightarrow> Inl e
      | Inr s \<Rightarrow> Inr \<lparr>j_root = rt, j_maps = s, j_file = file, j_blobs = blobs\<rparr>)"

definition append_event :: "mutation_event \<Rightarrow> journal \<Rightarrow> journal" where
  "append_event e j = j\<lparr>j_file := append_line (event_line e) (j_file j)\<rparr>"

definition create_prepared :: "jstr \<Rightarrow> jstr \<Rightarrow> jstr \<Rightarrow> mutation_tool \<Rightarrow> root_snapshot list \<Rightarrow> journal \<Rightarrow> prepared_mutation" where
  "create_prepared uuid now run tool pre j =
     \<lparr>transaction_id = asc ''mutation-'' @ uuid, mut_run_id = run, mut_tool = tool, mut_root = j_root j,
      created_at = now, pre_roots = pre\<rparr>"

definition append_prepared :: "prepared_mutation \<Rightarrow> journal \<Rightarrow> journal" where
  "append_prepared m j =
     (let j1 = append_event (Prepared m) j; s = j_maps j1
      in j1\<lparr>j_maps := s\<lparr>prepared_map := om_set (transaction_id m) m (prepared_map s)\<rparr>\<rparr>)"

definition append_committed :: "jstr \<Rightarrow> root_snapshot list \<Rightarrow> journal \<Rightarrow> journal \<times> (js_error + mutation_record)" where
  "append_committed i post j =
     (case om_get (prepared_map (j_maps j)) i of
        None \<Rightarrow> (j, Inl (plain_error (asc ''Unknown prepared mutation: '' @ i)))
      | Some m \<Rightarrow>
          (let j1 = append_event (Committed i post) j; s = j_maps j1; record = with_post m post
           in (j1\<lparr>j_maps := s\<lparr>committed_map := om_set i record (committed_map s),
                              prepared_map := om_del i (prepared_map s)\<rparr>\<rparr>, Inr record)))"

definition append_rolled_back :: "jstr \<Rightarrow> jstr \<Rightarrow> journal \<Rightarrow> journal" where
  "append_rolled_back i reason j =
     (let j1 = append_event (RolledBack i reason) j; s = j_maps j1
      in j1\<lparr>j_maps := s\<lparr>prepared_map := om_del i (prepared_map s), inactive_ids := insert i (inactive_ids s)\<rparr>\<rparr>)"

definition append_undone :: "jstr \<Rightarrow> jstr \<Rightarrow> journal \<Rightarrow> journal" where
  "append_undone now i j =
     (let j1 = append_event (Undone i now) j; s = j_maps j1
      in j1\<lparr>j_maps := s\<lparr>inactive_ids := insert i (inactive_ids s)\<rparr>\<rparr>)"

definition created_cmp :: "host \<Rightarrow> mutation_record comparator" where
  "created_cmp h = key created_at (collate h)"

definition j_list_active :: "host \<Rightarrow> journal \<Rightarrow> mutation_record list" where
  "j_list_active h j =
     Sorting_Algorithms.sort (created_cmp h)
       (filter (\<lambda>m. transaction_id m \<notin> inactive_ids (j_maps j)) (map snd (committed_map (j_maps j))))"

definition j_list_incomplete :: "journal \<Rightarrow> prepared_mutation list" where
  "j_list_incomplete j = map snd (prepared_map (j_maps j))"

text \<open>Contents are stored once under their hash; a file that exists is not written again.\<close>

definition write_blob :: "host \<Rightarrow> bytes \<Rightarrow> (jstr, bytes) omap \<Rightarrow> (jstr, bytes) omap" where
  "write_blob h content blobs = (if om_has blobs (sha h content) then blobs else om_set (sha h content) content blobs)"

definition read_blob :: "(jstr, bytes) omap \<Rightarrow> jstr \<Rightarrow> js_error + bytes" where
  "read_blob blobs ref = (case om_get blobs ref of None \<Rightarrow> Inl (errno ''ENOENT'') | Some b \<Rightarrow> Inr b)"

section \<open>The journal is rebuilt from its log\<close>

interpretation mutation_log: replayed_log event_line load_event "load_line str" for str
  by unfold_locales
    (simp_all add: load_line_def event_line_def assert_supported_version_def is_json_record_def obj_field_def)

text \<open>What a service does to its journal.\<close>

inductive journal_step :: "journal \<Rightarrow> journal \<Rightarrow> bool" where
  prepare: "journal_step j (append_prepared m j)"
| commit: "append_committed i post j = (j', Inr r) \<Longrightarrow> journal_step j j'"
| roll_back: "journal_step j (append_rolled_back i reason j)"
| undo: "journal_step j (append_undone now i j)"
| store: "journal_step j (j\<lparr>j_blobs := write_blob h content (j_blobs j)\<rparr>)"

inductive_cases journal_stepE: "journal_step j j'"

lemma journal_step_keeps_log:
  assumes "journal_step j j'"
    and "fold_err (load_line str) empty_maps (log_lines (j_file j)) = Inr (j_maps j)" and "open_line (j_file j) = None"
  shows "fold_err (load_line str) empty_maps (log_lines (j_file j')) = Inr (j_maps j') \<and> open_line (j_file j') = None \<and> j_root j' = j_root j"
proof -
  have after: "fold_err (load_line str) empty_maps (log_lines (j_file (append_event e j))) = Inr (load_event (j_maps j) e)
      \<and> open_line (j_file (append_event e j)) = None \<and> j_root (append_event e j) = j_root j" for e
    using mutation_log.reads_after_append [OF assms(2,3)] by (simp add: append_event_def)
  have maps: "j_maps (append_event e j) = j_maps j" for e by (simp add: append_event_def)
  from assms(1) show ?thesis
  proof (cases rule: journal_step.cases)
    case (prepare m)
    then show ?thesis using after [of "Prepared m"] by (simp add: append_prepared_def Let_def load_event_def maps)
  next
    case (commit i post r)
    then show ?thesis using after [of "Committed i post"]
      by (auto simp: append_committed_def Let_def load_event_def maps split: option.splits)
  next
    case (roll_back i reason)
    then show ?thesis using after [of "RolledBack i reason"] by (simp add: append_rolled_back_def Let_def load_event_def maps)
  next
    case (undo now i)
    then show ?thesis using after [of "Undone i now"] by (simp add: append_undone_def Let_def load_event_def maps)
  next
    case (store h content)
    then show ?thesis using assms(2,3) by simp
  qed
qed

definition journal_runs :: "(json \<Rightarrow> jstr) \<Rightarrow> (journal \<times> journal) set" where
  "journal_runs str = {(j, j'). (\<exists>rt file blobs. open_line file = None \<and> open_journal str rt file blobs = Inr j) \<and> journal_step\<^sup>*\<^sup>* j j'}"

text \<open>
  C33. Opening a journal on the log another one has written gives the same journal: once opened on a
  log that ends with a complete line, what is prepared, committed and inactive after any sequence of
  operations is exactly what a new process reads back.
\<close>

theorem journal_reload_is_identity:
  "journal_runs str \<subseteq> {(j, j'). open_journal str (j_root j) (j_file j') (j_blobs j') = Inr j'}"
proof (clarsimp simp: journal_runs_def)
  fix j j' :: journal and rt :: jstr and lf :: "mutation_event log_file" and blobs
  assume start: "open_line lf = None" "open_journal str rt lf blobs = Inr j" and run: "journal_step\<^sup>*\<^sup>* j j'"
  from run have "fold_err (load_line str) empty_maps (log_lines (j_file j')) = Inr (j_maps j')
      \<and> open_line (j_file j') = None \<and> j_root j' = j_root j"
  proof induction
    case base
    then show ?case using start by (auto simp: open_journal_def split: sum.splits)
  next
    case (step y z)
    then show ?case using journal_step_keeps_log [OF step.hyps(2), of str] by simp
  qed
  then show "open_journal str (j_root j) (j_file j') (j_blobs j') = Inr j'" by (simp add: open_journal_def)
qed

end
