(* ===== verification/Mutation_Snapshot.thy ===== *)
theory Mutation_Snapshot
  imports Mutation_Journal
begin

text \<open>
  Snapshots of the paths a change touches (\<open>captureRoot\<close>, \<open>captureEntry\<close> and \<open>restoreRoots\<close> in
  \<open>mutations/mutationService.ts\<close>). The workspace root and the resolved absolute paths are kept as their
  segments; the paths inside a snapshot are the strings the journal stores.
\<close>

section \<open>Paths inside a workspace\<close>

text \<open>\<open>path.replace(/\\/g, '/')\<close>\<close>

definition forward_slashes :: "jstr \<Rightarrow> jstr" where
  "forward_slashes p = map (\<lambda>c. if c = 92 then slash else c) p"

definition path_string :: "segs \<Rightarrow> jstr" where
  "path_string k = slash # js_join [slash] k"

text \<open>The prefix test is on strings: below the root \<open>/\<close> it asks for \<open>//\<close>.\<close>

definition assert_lexical :: "segs \<Rightarrow> segs \<Rightarrow> js_error + unit" where
  "assert_lexical W k =
     (if k \<noteq> W \<and> \<not> (W \<noteq> [] \<and> prefix W k)
      then Inl (plain_error (asc ''Mutation path outside workspace: '' @ path_string k)) else Inr ())"

definition normalize_relative :: "segs \<Rightarrow> segs \<Rightarrow> js_error + jstr" where
  "normalize_relative W k =
     (case assert_lexical W k of
        Inl e \<Rightarrow> Inl e
      | Inr _ \<Rightarrow> let p = forward_slashes (js_join [slash] (drop (length W) k)) in Inr (if p = [] then asc ''.'' else p))"

section \<open>Capturing\<close>

lemma map_err_cong_list: "(\<And>x. x \<in> set ys \<Longrightarrow> f x = g x) \<Longrightarrow> map_err f ys = map_err g ys"
  by (induction ys) (simp_all split: sum.splits)

lemma map_err_cong [fundef_cong]:
  assumes "xs = ys" and "\<And>x. x \<in> set ys \<Longrightarrow> f x = g x"
  shows "map_err f xs = map_err g ys"
  unfolding assms(1) by (rule map_err_cong_list) (rule assms(2))

lemma children_below: "s \<in> set (fs_children fs c) \<Longrightarrow> c @ [s] \<in> set (om_keys fs)"
  by (simp add: set_fs_children map_of_eq_None_iff)

text \<open>
  \<open>captureEntry\<close>: \<open>k\<close> is the path by which an entry is reached and \<open>c\<close> its real place. The contents of
  files go with their entries; they are stored when the whole root has been read.
\<close>

function capture_entry :: "host \<Rightarrow> file_tree \<Rightarrow> segs \<Rightarrow> segs \<Rightarrow> segs \<Rightarrow> js_error + (entry_snapshot \<times> bytes option) list" where
  "capture_entry h fs W k c =
     (case om_get fs c of
        None \<Rightarrow> Inl (errno ''ENOENT'')
      | Some x \<Rightarrow>
          (case normalize_relative W k of
             Inl e \<Rightarrow> Inl e
           | Inr path \<Rightarrow>
               (case x of
                  LinkNode t \<Rightarrow> Inr [(\<lparr>se_path = path, se_kind = KSymlink, se_hash = sha h (utf8 h t),
                                       content_ref = None, link_target = Some t\<rparr>, None)]
                | DirNode \<Rightarrow>
                    (case map_err (\<lambda>s. capture_entry h fs W (k @ [s]) (c @ [s])) (fs_children fs c) of
                       Inl e \<Rightarrow> Inl e
                     | Inr ess \<Rightarrow> Inr ((\<lparr>se_path = path, se_kind = KDirectory, se_hash = asc ''directory'',
                                         content_ref = None, link_target = None\<rparr>, None) # concat ess))
                | FileNode b \<Rightarrow> Inr [(\<lparr>se_path = path, se_kind = KFile, se_hash = sha h b,
                                       content_ref = Some (sha h b), link_target = None\<rparr>, Some b)])))"
  by pat_completeness auto

lemma filter_length_less:
  assumes "\<And>x. P x \<Longrightarrow> Q x" and "x \<in> set xs" and "Q x" and "\<not> P x"
  shows "length (filter P xs) < length (filter Q xs)"
proof -
  have "length (filter P ys) \<le> length (filter Q ys)" for ys using assms(1) by (induction ys) auto
  note le = this
  obtain us vs where xs: "xs = us @ x # vs" using assms(2) by (metis split_list)
  show ?thesis using le [of us] le [of vs] assms(3,4) by (simp add: xs)
qed

termination capture_entry
proof (relation "measure (\<lambda>(h, fs, W, k, c). length (filter (\<lambda>q. strict_prefix c q) (om_keys fs)))")
  fix h fs W k c x x2 p s
  assume "s \<in> set (fs_children fs c)"
  then have "c @ [s] \<in> set (om_keys fs)" by (rule children_below)
  then have "length (filter (strict_prefix (c @ [s])) (om_keys fs)) < length (filter (strict_prefix c) (om_keys fs))"
    by (rule filter_length_less [rotated]) (auto simp: strict_prefix_def prefix_def)
  then show "((h, fs, W, k @ [s], c @ [s]), h, fs, W, k, c) \<in> measure (\<lambda>(h, fs, W, k, c). length (filter (\<lambda>q. strict_prefix c q) (om_keys fs)))"
    by simp
qed simp

declare capture_entry.simps [simp del]

text \<open>\<open>hashEntries\<close> writes the reference to the content last.\<close>

definition kind_text :: "entry_kind \<Rightarrow> jstr" where
  "kind_text k = (case k of KFile \<Rightarrow> asc ''file'' | KDirectory \<Rightarrow> asc ''directory'' | KSymlink \<Rightarrow> asc ''symlink'')"

definition opt_field :: "string \<Rightarrow> jstr option \<Rightarrow> (jstr \<times> json) list" where
  "opt_field k v = (case v of None \<Rightarrow> [] | Some s \<Rightarrow> [(asc k, JStr s)])"

definition entry_json :: "entry_snapshot \<Rightarrow> json" where
  "entry_json e = JObj ([(asc ''path'', JStr (se_path e)), (asc ''kind'', JStr (kind_text (se_kind e)))]
     @ opt_field ''linkTarget'' (link_target e) @ [(asc ''hash'', JStr (se_hash e))] @ opt_field ''contentRef'' (content_ref e))"

definition hash_entries :: "host \<Rightarrow> entry_snapshot list \<Rightarrow> jstr" where
  "hash_entries h es = sha h (utf8 h (the (stringify (\<lambda>n. []) (JArr (map entry_json es)))))"

definition capture_root :: "host \<Rightarrow> file_tree \<Rightarrow> segs \<Rightarrow> jstr \<Rightarrow> (jstr, bytes) omap \<Rightarrow> (jstr, bytes) omap \<times> (js_error + root_snapshot)" where
  "capture_root h fs W input blobs =
     (let k = resolve_segs W input
      in case normalize_relative W k of
           Inl e \<Rightarrow> (blobs, Inl e)
         | Inr path \<Rightarrow>
             if \<not> fs_exists fs k then (blobs, Inr \<lparr>rs_path = path, rs_hash = hash_entries h [], rs_entries = []\<rparr>)
             else (case fs_lstat fs k of
                     Inl e \<Rightarrow> (blobs, Inl e)
                   | Inr (c, x) \<Rightarrow>
                       (case capture_entry h fs W k c of
                          Inl e \<Rightarrow> (blobs, Inl e)
                        | Inr cs \<Rightarrow>
                            (foldl (\<lambda>bl b. write_blob h b bl) blobs (List.map_filter snd cs),
                             Inr \<lparr>rs_path = path, rs_hash = hash_entries h (map fst cs), rs_entries = map fst cs\<rparr>))))"

text \<open>\<open>paths.map((path) => this.captureRoot(path))\<close>\<close>

fun capture_roots :: "host \<Rightarrow> file_tree \<Rightarrow> segs \<Rightarrow> jstr list \<Rightarrow> (jstr, bytes) omap \<Rightarrow> (jstr, bytes) omap \<times> (js_error + root_snapshot list)" where
  "capture_roots h fs W [] blobs = (blobs, Inr [])"
| "capture_roots h fs W (p # ps) blobs =
     (case capture_root h fs W p blobs of
        (bl, Inl e) \<Rightarrow> (bl, Inl e)
      | (bl, Inr r) \<Rightarrow>
          (case capture_roots h fs W ps bl of
             (bl', Inl e) \<Rightarrow> (bl', Inl e)
           | (bl', Inr rs) \<Rightarrow> (bl', Inr (r # rs))))"

section \<open>Restoring\<close>

definition restore_directory :: "segs \<Rightarrow> entry_snapshot \<Rightarrow> file_tree \<Rightarrow> file_tree \<times> (js_error + unit)" where
  "restore_directory W e fs =
     (let k = resolve_segs W (se_path e)
      in case assert_lexical W k of Inl er \<Rightarrow> (fs, Inl er) | Inr _ \<Rightarrow> fs_mkdir_p k fs)"

definition restore_leaf :: "(jstr, bytes) omap \<Rightarrow> segs \<Rightarrow> entry_snapshot \<Rightarrow> file_tree \<Rightarrow> file_tree \<times> (js_error + unit)" where
  "restore_leaf blobs W e fs =
     (let k = resolve_segs W (se_path e)
      in case assert_lexical W k of
           Inl er \<Rightarrow> (fs, Inl er)
         | Inr _ \<Rightarrow>
             (case fs_mkdir_p (butlast k) fs of
                (fs1, Inl er) \<Rightarrow> (fs1, Inl er)
              | (fs1, Inr _) \<Rightarrow>
                  if se_kind e = KFile \<and> content_ref e \<noteq> None \<and> content_ref e \<noteq> Some [] then
                    (case read_blob blobs (the (content_ref e)) of Inl er \<Rightarrow> (fs1, Inl er) | Inr b \<Rightarrow> fs_write k b fs1)
                  else (case (se_kind e, link_target e) of
                          (KSymlink, Some t) \<Rightarrow> fs_symlink t k fs1
                        | _ \<Rightarrow> (fs1, Inr ()))))"

definition restore_root :: "(jstr, bytes) omap \<Rightarrow> segs \<Rightarrow> root_snapshot \<Rightarrow> file_tree \<Rightarrow> file_tree \<times> (js_error + unit)" where
  "restore_root blobs W r fs =
     (let k = resolve_segs W (rs_path r)
      in case assert_lexical W k of
           Inl er \<Rightarrow> (fs, Inl er)
         | Inr _ \<Rightarrow>
             (case fs_rm_rf k fs of
                (fs1, Inl er) \<Rightarrow> (fs1, Inl er)
              | (fs1, Inr _) \<Rightarrow>
                  (case for_each (restore_directory W) (filter (\<lambda>e. se_kind e = KDirectory) (rs_entries r)) fs1 of
                     (fs2, Inl er) \<Rightarrow> (fs2, Inl er)
                   | (fs2, Inr _) \<Rightarrow>
                       for_each (restore_leaf blobs W) (filter (\<lambda>e. se_kind e \<noteq> KDirectory) (rs_entries r)) fs2)))"

definition restore_roots :: "(jstr, bytes) omap \<Rightarrow> segs \<Rightarrow> root_snapshot list \<Rightarrow> file_tree \<Rightarrow> file_tree \<times> (js_error + unit)" where
  "restore_roots blobs W rs fs = for_each (restore_root blobs W) rs fs"

section \<open>What a capture holds\<close>

lemma normalize_plain: "\<forall>s \<in> set ss. plain_segment s \<Longrightarrow> normalize_segments up acc ss = rev acc @ ss"
  by (induction ss arbitrary: acc) (simp_all add: plain_segment_def)

text \<open>File names without a backslash; one with a backslash is stored as if it named a directory.\<close>

definition clean_path :: "segs \<Rightarrow> bool" where
  "clean_path k \<longleftrightarrow> (\<forall>s \<in> set k. plain_segment s \<and> 92 \<notin> set s)"

definition clean_tree :: "file_tree \<Rightarrow> bool" where
  "clean_tree fs \<longleftrightarrow> tree_wf fs \<and> (\<forall>(k, x) \<in> set fs. clean_path k)"

lemma clean_tree_D: "clean_tree fs \<Longrightarrow> tree_wf fs" "clean_tree fs \<Longrightarrow> om_get fs k = Some x \<Longrightarrow> clean_path k"
  by (auto simp: clean_tree_def dest!: map_of_SomeD)

definition rel_path :: "segs \<Rightarrow> segs \<Rightarrow> jstr" where
  "rel_path W k = (if k = W then asc ''.'' else js_join [slash] (drop (length W) k))"

lemma js_join_no: "c \<noteq> d \<Longrightarrow> \<forall>s \<in> set ss. c \<notin> set s \<Longrightarrow> c \<notin> set (js_join [d] ss)"
  by (induction "[d]" ss rule: js_join.induct) auto

lemma relative_roundtrip:
  assumes "prefix W k" and "W \<noteq> []" and "clean_path k"
  shows "normalize_relative W k = Inr (rel_path W k)" and "resolve_segs W (rel_path W k) = k"
    and "assert_lexical W k = Inr ()"
proof -
  show lex: "assert_lexical W k = Inr ()" using assms(1,2) by (simp add: assert_lexical_def)
  obtain d where k: "k = W @ d" using assms(1) by (auto simp: prefix_def)
  have plain: "\<forall>s \<in> set d. plain_segment s" "\<forall>s \<in> set d. 92 \<notin> set s" using assms(3) by (auto simp: k clean_path_def)
  have join: "js_join [slash] d = [] \<longleftrightarrow> d = []"
    using join_starts_plain [OF plain(1), of "[slash]"] by auto
  have "92 \<notin> set (js_join [slash] d)" using plain(2) by (intro js_join_no) (simp_all add: slash_def)
  then have "forward_slashes (js_join [slash] d) = js_join [slash] d"
    unfolding forward_slashes_def by (intro map_idI) auto
  then show "normalize_relative W k = Inr (rel_path W k)" using join using lex unfolding k by (simp add: normalize_relative_def rel_path_def Let_def)
  show "resolve_segs W (rel_path W k) = k"
  proof (cases "d = []")
    case True
    then show ?thesis by (simp add: k rel_path_def resolve_segs_def is_absolute_path_def js_starts_with_def asc_def slash_def)
  next
    case False
    have "\<not> is_absolute_path (js_join [slash] d)"
      using join_starts_plain [OF plain(1) False, of "[slash]"] by (cases "js_join [slash] d") (auto simp: is_absolute_path_def js_starts_with_def)
    moreover have "split_units (\<lambda>c. c = slash) (js_join [slash] d) = d"
      using split_units_join [of d "\<lambda>c. c = slash" slash] False plain(1) by (auto simp: plain_segment_def)
    ultimately show ?thesis using False normalize_plain [OF plain(1)] by (simp add: k rel_path_def resolve_segs_def)
  qed
qed

definition entry_of :: "host \<Rightarrow> segs \<Rightarrow> segs \<Rightarrow> fnode \<Rightarrow> entry_snapshot \<times> bytes option" where
  "entry_of h W k x = (case x of
     LinkNode t \<Rightarrow> (\<lparr>se_path = rel_path W k, se_kind = KSymlink, se_hash = sha h (utf8 h t), content_ref = None, link_target = Some t\<rparr>, None)
   | DirNode \<Rightarrow> (\<lparr>se_path = rel_path W k, se_kind = KDirectory, se_hash = asc ''directory'', content_ref = None, link_target = None\<rparr>, None)
   | FileNode b \<Rightarrow> (\<lparr>se_path = rel_path W k, se_kind = KFile, se_hash = sha h b, content_ref = Some (sha h b), link_target = None\<rparr>, Some b))"

text \<open>The entries at and below a path, in the order of their segments.\<close>

definition below :: "file_tree \<Rightarrow> segs \<Rightarrow> segs set" where
  "below fs k = {q. prefix k q \<and> om_get fs q \<noteq> None}"

lemma below_subset: "below fs k \<subseteq> set (om_keys fs)"
  by (auto simp: below_def dest!: map_of_SomeD simp: image_iff) force

lemma finite_below [simp]: "finite (below fs k)"
  by (rule finite_subset [OF below_subset]) simp

lemma append_less_append: "(a @ x < a @ y) = (x < (y :: 'a::linorder list))"
  by (induction a) simp_all

lemma sorted_concat:
  assumes "sorted_wrt R names" and "\<And>s. s \<in> set names \<Longrightarrow> sorted_wrt Q (f s)"
    and "\<And>s t x y. R s t \<Longrightarrow> x \<in> set (f s) \<Longrightarrow> y \<in> set (f t) \<Longrightarrow> Q x y"
  shows "sorted_wrt Q (concat (map f names))"
  using assms(1,2)
proof (induction names)
  case (Cons s names)
  then show ?case using assms(3) by (fastforce simp: sorted_wrt_append)
qed simp

lemma below_children:
  assumes "tree_wf fs" and "om_get fs k \<noteq> None"
  shows "below fs k = insert k (\<Union>s \<in> set (fs_children fs k). below fs (k @ [s]))"
proof (intro set_eqI iffI)
  fix q assume q: "q \<in> below fs k"
  then obtain d where d: "q = k @ d" "om_get fs (k @ d) \<noteq> None" by (auto simp: below_def prefix_def)
  show "q \<in> insert k (\<Union>s \<in> set (fs_children fs k). below fs (k @ [s]))"
  proof (cases d)
    case (Cons s r)
    have "om_get fs (k @ [s]) \<noteq> None"
      using tree_above [OF assms(1), of "k @ [s]" r] d Cons by (cases "r = []") auto
    then show ?thesis using d Cons by (auto simp: below_def set_fs_children)
  qed (simp add: d)
next
  fix q assume "q \<in> insert k (\<Union>s \<in> set (fs_children fs k). below fs (k @ [s]))"
  then show "q \<in> below fs k" using assms(2) by (auto simp: below_def dest: append_prefixD)
qed

lemma below_sorted:
  assumes "tree_wf fs" and "om_get fs k \<noteq> None"
  shows "sorted_list_of_set (below fs k) = k # concat (map (\<lambda>s. sorted_list_of_set (below fs (k @ [s]))) (fs_children fs k))"
proof (rule sym, rule strict_sorted_equal)
  show "sorted_wrt (<) (sorted_list_of_set (below fs k))" by simp
  have up: "prefix (k @ [s]) q" if "q \<in> set (sorted_list_of_set (below fs (k @ [s])))" for s q
    using that by (simp add: below_def [symmetric]) (simp add: below_def)
  have above_k: "k < q" if q: "q \<in> set (sorted_list_of_set (below fs (k @ [s])))" for s q
  proof -
    obtain d where "q = k @ s # d" using up [OF q] by (auto simp: prefix_def)
    then show ?thesis using append_less_append [of k "[]" "s # d"] by simp
  qed
  have "sorted_wrt (<) (concat (map (\<lambda>s. sorted_list_of_set (below fs (k @ [s]))) (fs_children fs k)))"
  proof (rule sorted_concat [where R = "(<)"])
    show "sorted_wrt (<) (fs_children fs k)" using children_sorted [of fs k] by (simp add: strict_sorted_iff)
    fix s t :: jstr and p q :: segs
    assume "s < t" "p \<in> set (sorted_list_of_set (below fs (k @ [s])))" "q \<in> set (sorted_list_of_set (below fs (k @ [t])))"
    then obtain x y where "s < t" "p = k @ s # x" "q = k @ t # y" using up [of p s] up [of q t] by (auto simp: prefix_def)
    then show "p < q" by (simp add: append_less_append)
  qed simp
  then show "sorted_wrt (<) (k # concat (map (\<lambda>s. sorted_list_of_set (below fs (k @ [s]))) (fs_children fs k)))"
    using above_k by auto
  show "set (k # concat (map (\<lambda>s. sorted_list_of_set (below fs (k @ [s]))) (fs_children fs k))) = set (sorted_list_of_set (below fs k))"
    by (simp flip: below_children [OF assms])
qed

lemma map_err_Inr: "(\<And>x. x \<in> set xs \<Longrightarrow> f x = Inr (g x)) \<Longrightarrow> map_err f xs = Inr (map g xs)"
  by (induction xs) simp_all

lemma capture_entry_complete:
  assumes clean: "clean_tree fs" and "W \<noteq> []" and "prefix W k" and "om_get fs k \<noteq> None"
  shows "capture_entry h fs W k k = Inr (map (\<lambda>q. entry_of h W q (the (om_get fs q))) (sorted_list_of_set (below fs k)))"
  using assms(2-4)
proof (induction "length (filter (strict_prefix k) (om_keys fs))" arbitrary: k rule: less_induct)
  case less
  then obtain x where x: "om_get fs k = Some x" by auto
  have rel: "normalize_relative W k = Inr (rel_path W k)"
    by (rule relative_roundtrip(1) [OF less.prems(2,1) clean_tree_D(2) [OF clean x]])
  have kids: "capture_entry h fs W (k @ [s]) (k @ [s]) = Inr (map (\<lambda>q. entry_of h W q (the (om_get fs q))) (sorted_list_of_set (below fs (k @ [s]))))"
    if s: "s \<in> set (fs_children fs k)" for s
  proof (rule less.hyps)
    show "length (filter (strict_prefix (k @ [s])) (om_keys fs)) < length (filter (strict_prefix k) (om_keys fs))"
      using children_below [OF s] by (rule filter_length_less [rotated]) (auto simp: strict_prefix_def prefix_def)
    show "om_get fs (k @ [s]) \<noteq> None" using s by (simp add: set_fs_children)
  qed (use less.prems in auto)
  have leaf: "below fs k = {k}" if "x \<noteq> DirNode"
    using tree_above [OF clean_tree_D(1) [OF clean], of k] that x by (auto simp: below_def prefix_def)
  show ?case
  proof (cases x)
    case DirNode
    have "map_err (\<lambda>s. capture_entry h fs W (k @ [s]) (k @ [s])) (fs_children fs k) =
        Inr (map (\<lambda>s. map (\<lambda>q. entry_of h W q (the (om_get fs q))) (sorted_list_of_set (below fs (k @ [s])))) (fs_children fs k))"
      by (rule map_err_Inr) (rule kids)
    then show ?thesis
      using DirNode x rel below_sorted [OF clean_tree_D(1) [OF clean], of k]
      by (subst capture_entry.simps) (simp add: entry_of_def map_concat comp_def)
  qed (use leaf x rel in \<open>subst capture_entry.simps; simp add: entry_of_def\<close>)+
qed


section \<open>Restoring what was captured\<close>

text \<open>The hash names contents apart, and no name is empty.\<close>

definition host_ok :: "host \<Rightarrow> bool" where
  "host_ok h \<longleftrightarrow> inj (sha h) \<and> (\<forall>b. sha h b \<noteq> [])"

definition stored_below :: "host \<Rightarrow> (jstr, bytes) omap \<Rightarrow> file_tree \<Rightarrow> segs \<Rightarrow> bool" where
  "stored_below h blobs fs k \<longleftrightarrow>
     (\<forall>q b. prefix k q \<longrightarrow> om_get fs q = Some (FileNode b) \<longrightarrow> om_get blobs (sha h b) = Some b)"

text \<open>Nothing but directories above a path, or nothing at all.\<close>

definition open_above :: "file_tree \<Rightarrow> segs \<Rightarrow> bool" where
  "open_above fs k \<longleftrightarrow> (\<forall>q. strict_prefix q k \<longrightarrow> om_get fs q = None \<or> om_get fs q = Some DirNode)"

text \<open>A tree on the way: of what was at and below \<open>k\<close> in \<open>fs0\<close> the entries \<open>S\<close> are back.\<close>

definition partly_restored :: "file_tree \<Rightarrow> file_tree \<Rightarrow> segs \<Rightarrow> segs set \<Rightarrow> file_tree \<Rightarrow> bool" where
  "partly_restored fs0 fs k S fs' \<longleftrightarrow> tree_wf fs' \<and> S \<subseteq> below fs0 k \<and>
     (\<forall>q. om_get fs' q = (if prefix k q then if q \<in> S then om_get fs0 q else None
                           else if strict_prefix q k \<and> S \<noteq> {} then Some DirNode else om_get fs q))"

definition upto_entries :: "segs \<Rightarrow> segs list \<Rightarrow> segs set" where
  "upto_entries k ls = {q. prefix k q \<and> (\<exists>l \<in> set ls. prefix q l)}"

lemma upto_snoc: "upto_entries k (ls @ [l]) = upto_entries k ls \<union> {q. prefix k q \<and> prefix q l}"
  by (auto simp: upto_entries_def)

lemma partly_restored_mkdir:
  assumes part: "partly_restored fs0 fs k S fs1" and clean: "clean_tree fs0" and open_k: "open_above fs k"
    and d: "clean_path d" "prefix k d \<or> d = butlast k" "\<And>q. prefix k q \<Longrightarrow> prefix q d \<Longrightarrow> om_get fs0 q = Some DirNode"
  shows "\<exists>fs2. fs_mkdir_p d fs1 = (fs2, Inr ()) \<and> tree_wf fs2 \<and>
    (\<forall>q. om_get fs2 q = (if prefix q d then Some DirNode else om_get fs1 q))"
proof (rule mkdir_p_works)
  show "tree_wf fs1" using part by (simp add: partly_restored_def)
  show "\<forall>s \<in> set d. plain_segment s" using d(1) by (simp add: clean_path_def)
  show "\<forall>q. prefix q d \<longrightarrow> om_get fs1 q = None \<or> om_get fs1 q = Some DirNode"
  proof (intro allI impI)
    fix q assume q: "prefix q d"
    show "om_get fs1 q = None \<or> om_get fs1 q = Some DirNode"
    proof (cases "prefix k q")
      case True
      then show ?thesis using d(3) [OF True q] part by (simp add: partly_restored_def)
    next
      case False
      have "prefix (butlast k) k" by (rule prefixeq_butlast)
      then have "prefix q k"
        using d(2) q False by (metis prefix_order.trans prefix_same_cases)
      then have "strict_prefix q k" using False by (auto simp: strict_prefix_def)
      then show ?thesis using part open_k False by (auto simp: partly_restored_def open_above_def)
    qed
  qed
qed

lemma dir_above:
  assumes "clean_tree fs0" and "om_get fs0 q0 = Some x" and "strict_prefix q q0"
  shows "om_get fs0 q = Some DirNode"
proof -
  obtain z zs where "q0 = q @ z # zs" using assms(3) by (rule strict_prefixE')
  then show ?thesis using tree_above [OF clean_tree_D(1) [OF assms(1)], of q "z # zs" x] assms(2) by simp
qed

lemma prefix_of_entry: "prefix q q0 \<Longrightarrow> prefix k q0 \<Longrightarrow> prefix k q \<or> strict_prefix q k"
  by (metis prefix_same_cases strict_prefix_def)

lemma directory_step:
  assumes part: "partly_restored fs0 fs k S fs1" and clean: "clean_tree fs0" and open_k: "open_above fs k"
    and W: "W \<noteq> []" "prefix W k" and q0: "prefix k q0" "om_get fs0 q0 = Some DirNode"
  shows "\<exists>fs2. restore_directory W (fst (entry_of h W q0 DirNode)) fs1 = (fs2, Inr ()) \<and>
    partly_restored fs0 fs k (S \<union> {q. prefix k q \<and> prefix q q0}) fs2"
proof -
  have cl: "clean_path q0" by (rule clean_tree_D(2) [OF clean q0(2)])
  have dirs: "om_get fs0 q = Some DirNode" if "prefix q q0" for q
    using dir_above [OF clean q0(2), of q] that q0(2) by (cases "q = q0") (auto simp: strict_prefix_def)
  obtain fs2 where fs2: "fs_mkdir_p q0 fs1 = (fs2, Inr ())" "tree_wf fs2"
      "\<And>q. om_get fs2 q = (if prefix q q0 then Some DirNode else om_get fs1 q)"
    using partly_restored_mkdir [OF part clean open_k cl] q0(1) dirs by blast
  have "restore_directory W (fst (entry_of h W q0 DirNode)) fs1 = (fs2, Inr ())"
    using relative_roundtrip [of W q0] W q0(1) cl fs2(1) prefix_order.trans
    by (auto simp: restore_directory_def entry_of_def Let_def)
  moreover have "S \<union> {q. prefix k q \<and> prefix q q0} \<subseteq> below fs0 k"
    using part dirs by (auto simp: partly_restored_def below_def)
  moreover have "om_get fs2 q = (if prefix k q then if q \<in> S \<union> {q. prefix k q \<and> prefix q q0} then om_get fs0 q else None
      else if strict_prefix q k \<and> S \<union> {q. prefix k q \<and> prefix q q0} \<noteq> {} then Some DirNode else om_get fs q)" for q
  proof (cases "prefix q q0")
    case True
    then show ?thesis using prefix_of_entry [OF True q0(1)] dirs [OF True] q0(1) by (auto simp: fs2(3))
  next
    case False
    then have "\<not> strict_prefix q k" using q0(1) by (meson prefix_order.less_le_trans prefix_order.less_imp_le)
    then show ?thesis using part False by (auto simp: fs2(3) partly_restored_def)
  qed
  ultimately show ?thesis using fs2(2) by (auto simp: partly_restored_def)
qed

lemma leaf_step:
  assumes part: "partly_restored fs0 fs k S fs1" and clean: "clean_tree fs0" and open_k: "open_above fs k"
    and W: "W \<noteq> []" "prefix W k" and q0: "prefix k q0" "om_get fs0 q0 = Some x" "x \<noteq> DirNode" "q0 \<notin> S"
    and host: "host_ok h" and stored: "stored_below h blobs fs0 k"
  shows "\<exists>fs2. restore_leaf blobs W (fst (entry_of h W q0 x)) fs1 = (fs2, Inr ()) \<and>
    partly_restored fs0 fs k (S \<union> {q. prefix k q \<and> prefix q q0}) fs2"
proof -
  let ?S = "S \<union> {q. prefix k q \<and> prefix q q0}"
  have cl: "clean_path q0" by (rule clean_tree_D(2) [OF clean q0(2)])
  have W0: "prefix W q0" using W(2) q0(1) by (rule prefix_order.trans)
  then have ne: "q0 \<noteq> []" using W(1) by auto
  have but: "prefix q (butlast q0) \<longleftrightarrow> strict_prefix q q0" for q
    using ne by (cases q0 rule: rev_cases) (auto simp: strict_prefix_def prefix_snoc dest: prefix_length_le)
  have clb: "clean_path (butlast q0)" using cl by (auto simp: clean_path_def dest: in_set_butlastD)
  have pk: "prefix k (butlast q0) \<or> butlast q0 = butlast k" using q0(1) but [of k] by (auto simp: strict_prefix_def)
  obtain fs2 where fs2: "fs_mkdir_p (butlast q0) fs1 = (fs2, Inr ())" "tree_wf fs2"
      "\<And>q. om_get fs2 q = (if strict_prefix q q0 then Some DirNode else om_get fs1 q)"
    using partly_restored_mkdir [OF part clean open_k clb pk] dir_above [OF clean q0(2)] but by auto
  have solid: "solid fs2 q0" using cl by (auto simp: solid_def clean_path_def fs2(3))
  have free: "om_get fs2 q0 = None" using part q0(1,4) by (simp add: fs2(3) partly_restored_def)
  have "restore_leaf blobs W (fst (entry_of h W q0 x)) fs1 = (om_set q0 x fs2, Inr ()) \<and> tree_wf (om_set q0 x fs2)"
  proof (cases x)
    case (FileNode b)
    have "om_get blobs (sha h b) = Some b" using stored q0(1,2) FileNode by (simp add: stored_below_def)
    then show ?thesis using write_works [OF fs2(2) solid free ne, of b] host relative_roundtrip(2,3) [OF W0 W(1) cl] fs2(1) FileNode
      by (simp add: restore_leaf_def entry_of_def host_ok_def read_blob_def)
  next
    case (LinkNode lt)
    then show ?thesis using symlink_works [OF fs2(2) solid free ne, of lt] relative_roundtrip(2,3) [OF W0 W(1) cl] fs2(1)
      by (simp add: restore_leaf_def entry_of_def)
  qed (use q0(3) in simp)
  moreover have "?S \<subseteq> below fs0 k"
    using part q0(2) dir_above [OF clean q0(2)] by (auto simp: partly_restored_def below_def strict_prefix_def)
  moreover have "om_get (om_set q0 x fs2) q = (if prefix k q then if q \<in> ?S then om_get fs0 q else None
      else if strict_prefix q k \<and> ?S \<noteq> {} then Some DirNode else om_get fs q)" for q
  proof (cases "prefix q q0")
    case True
    then show ?thesis using prefix_of_entry [OF True q0(1)] dir_above [OF clean q0(2), of q] q0(1,2)
      by (auto simp: om_laws fs2(3) strict_prefix_def)
  next
    case False
    then have "\<not> strict_prefix q k" "q \<noteq> q0" using q0(1) by (meson prefix_order.less_le_trans prefix_order.less_imp_le, auto)
    then show ?thesis using part False by (auto simp: om_laws fs2(3) partly_restored_def strict_prefix_def)
  qed
  ultimately show ?thesis by (auto simp: partly_restored_def)
qed

text \<open>The snapshot of what is at and below a path.\<close>

definition snapshot_of :: "host \<Rightarrow> file_tree \<Rightarrow> segs \<Rightarrow> segs \<Rightarrow> root_snapshot" where
  "snapshot_of h fs W k =
     (let es = map (\<lambda>q. fst (entry_of h W q (the (om_get fs q)))) (sorted_list_of_set (below fs k))
      in \<lparr>rs_path = rel_path W k, rs_hash = hash_entries h es, rs_entries = es\<rparr>)"

lemma entry_kind_of: "se_kind (fst (entry_of h W q x)) = KDirectory \<longleftrightarrow> x = DirNode"
  by (cases x) (simp_all add: entry_of_def)

lemma restore_captured:
  assumes clean: "clean_tree fs0" and wf: "tree_wf fs" and open_k: "open_above fs k"
    and W: "W \<noteq> []" "prefix W k" and cl: "clean_path k" and host: "host_ok h" and stored: "stored_below h blobs fs0 k"
  shows "\<exists>fs'. restore_root blobs W (snapshot_of h fs0 W k) fs = (fs', Inr ()) \<and> partly_restored fs0 fs k (below fs0 k) fs'"
proof -
  let ?f = "\<lambda>q. fst (entry_of h W q (the (om_get fs0 q)))"
  define L where "L = sorted_list_of_set (below fs0 k)"
  define D where "D = filter (\<lambda>q. om_get fs0 q = Some DirNode) L"
  define F where "F = filter (\<lambda>q. om_get fs0 q \<noteq> Some DirNode) L"
  have inL: "q \<in> set L \<Longrightarrow> prefix k q \<and> om_get fs0 q \<noteq> None" for q by (simp add: L_def below_def [symmetric]) (simp add: below_def)
  have kind: "se_kind (?f q) = KDirectory \<longleftrightarrow> om_get fs0 q = Some DirNode" if "q \<in> set L" for q
    using inL [OF that] by (auto simp: entry_kind_of)
  have split: "filter (\<lambda>e. se_kind e = KDirectory) (map ?f L) = map ?f D" "filter (\<lambda>e. se_kind e \<noteq> KDirectory) (map ?f L) = map ?f F"
    by (simp_all only: D_def F_def filter_map comp_def) (intro arg_cong [of _ _ "map ?f"] filter_cong refl, simp only: kind)+
  obtain fs1 where fs1: "fs_rm_rf k fs = (fs1, Inr ())" "tree_wf fs1" "\<And>q. om_get fs1 q = (if prefix k q then None else om_get fs q)"
  proof -
    have "k \<noteq> []" using W by auto
    then show ?thesis using rm_rf_works [OF wf, of k] open_k cl that by (auto simp: clean_path_def open_above_def)
  qed
  have start: "partly_restored fs0 fs k (upto_entries k (take 0 D)) fs1"
    by (simp add: partly_restored_def upto_entries_def fs1)
  obtain fs2 where fs2: "for_each (restore_directory W) (map ?f D) fs1 = (fs2, Inr ())" "partly_restored fs0 fs k (upto_entries k D) fs2"
  proof -
    have "\<exists>fs2. for_each (restore_directory W) (map ?f D) fs1 = (fs2, Inr ()) \<and> partly_restored fs0 fs k (upto_entries k (take (length (map ?f D)) D)) fs2"
    proof (rule for_each_induct [where P = "\<lambda>i. partly_restored fs0 fs k (upto_entries k (take i D))", OF start])
      fix i s assume i: "i < length (map ?f D)" and part: "partly_restored fs0 fs k (upto_entries k (take i D)) s"
      then have q: "om_get fs0 (D ! i) = Some DirNode" "prefix k (D ! i)" using inL nth_mem [of i D] by (auto simp: D_def)
      show "\<exists>s'. restore_directory W (map ?f D ! i) s = (s', Inr ()) \<and> partly_restored fs0 fs k (upto_entries k (take (Suc i) D)) s'"
        using directory_step [OF part clean open_k W q(2,1), of h] i q(1) by (simp add: take_Suc_conv_app_nth upto_snoc)
    qed
    then show ?thesis using that by auto
  qed
  have start2: "partly_restored fs0 fs k (upto_entries k (D @ take 0 F)) fs2" using fs2(2) by simp
  have "\<exists>fs3. for_each (restore_leaf blobs W) (map ?f F) fs2 = (fs3, Inr ()) \<and> partly_restored fs0 fs k (upto_entries k (D @ take (length (map ?f F)) F)) fs3"
  proof (rule for_each_induct [where P = "\<lambda>i. partly_restored fs0 fs k (upto_entries k (D @ take i F))", OF start2])
    fix i s assume i: "i < length (map ?f F)" and part: "partly_restored fs0 fs k (upto_entries k (D @ take i F)) s"
    then have mem: "F ! i \<in> set L" "om_get fs0 (F ! i) \<noteq> Some DirNode" using nth_mem [of i F] by (auto simp: F_def)
    then obtain x where x: "om_get fs0 (F ! i) = Some x" "x \<noteq> DirNode" "prefix k (F ! i)" using inL by auto
    have "distinct F" by (simp add: F_def L_def)
    then have fresh: "F ! i \<notin> set (take i F)" using i by (auto simp: in_set_conv_nth nth_eq_iff_index_eq)
    have "\<not> prefix (F ! i) l" if "l \<in> set (D @ take i F)" for l
    proof
      assume p: "prefix (F ! i) l"
      have l: "l \<in> set L" "l \<noteq> F ! i" using that fresh mem(2) by (auto simp: D_def F_def dest: in_set_takeD)
      then show False using dir_above [OF clean, of l _ "F ! i"] inL [OF l(1)] p mem(2) by (auto simp: strict_prefix_def)
    qed
    then have "F ! i \<notin> upto_entries k (D @ take i F)" by (auto simp: upto_entries_def)
    from leaf_step [OF part clean open_k W x(3,1,2) this host stored]
    show "\<exists>s'. restore_leaf blobs W (map ?f F ! i) s = (s', Inr ()) \<and> partly_restored fs0 fs k (upto_entries k (D @ take (Suc i) F)) s'"
      using i x(1) upto_snoc [of k "D @ take i F" "F ! i"] by (simp add: take_Suc_conv_app_nth)
  qed
  then obtain fs3 where fs3: "for_each (restore_leaf blobs W) (map ?f F) fs2 = (fs3, Inr ())" "partly_restored fs0 fs k (upto_entries k (D @ F)) fs3"
    by auto
  have "upto_entries k (D @ F) = below fs0 k"
  proof -
    have "set D \<union> set F = below fs0 k" by (auto simp: D_def F_def L_def)
    then show ?thesis using fs3(2) by (auto simp: upto_entries_def partly_restored_def) (simp add: below_def)
  qed
  moreover have "resolve_segs W (rel_path W k) = k" "assert_lexical W k = Inr ()"
    using relative_roundtrip [OF W(2,1) cl] by auto
  ultimately show ?thesis using fs1(1) fs2(1) fs3
    by (simp add: restore_root_def snapshot_of_def Let_def split L_def [symmetric] D_def [symmetric] F_def [symmetric])
qed

lemma restored_lookup:
  assumes "partly_restored fs0 fs k (below fs0 k) fs'"
  shows "tree_wf fs'" "prefix k q \<Longrightarrow> om_get fs' q = om_get fs0 q"
    "\<not> prefix k q \<Longrightarrow> om_get fs' q = (if strict_prefix q k \<and> below fs0 k \<noteq> {} then Some DirNode else om_get fs q)"
  using assms by (auto simp: partly_restored_def below_def)

section \<open>Stored contents\<close>

text \<open>A store that keeps contents under their names.\<close>

locale content_store =
  fixes name_of :: "'c \<Rightarrow> 'n"
    and put :: "'c \<Rightarrow> 'm \<Rightarrow> 'm"
    and get :: "'m \<Rightarrow> 'n \<Rightarrow> 'c option"
    and ok :: "'m \<Rightarrow> bool"
  assumes put_ok: "ok m \<Longrightarrow> ok (put c m)"
    and get_put: "ok m \<Longrightarrow> get (put c m) (name_of c) = Some c"
    and get_mono: "ok m \<Longrightarrow> get m n = Some c \<Longrightarrow> get (put c' m) n = Some c"
begin

lemma put_many:
  "ok m \<Longrightarrow> ok (foldl (\<lambda>m c. put c m) m cs) \<and> (\<forall>c \<in> set cs. get (foldl (\<lambda>m c. put c m) m cs) (name_of c) = Some c)
     \<and> (\<forall>n c. get m n = Some c \<longrightarrow> get (foldl (\<lambda>m c. put c m) m cs) n = Some c)"
proof (induction cs arbitrary: m)
  case (Cons c cs)
  then show ?case using put_ok [of m c] get_put [of m c] get_mono [of m] by auto
qed simp

end

definition blobs_ok :: "host \<Rightarrow> (jstr, bytes) omap \<Rightarrow> bool" where
  "blobs_ok h blobs \<longleftrightarrow> host_ok h \<and> (\<forall>i b. om_get blobs i = Some b \<longrightarrow> i = sha h b)"

interpretation blob_store: content_store "sha h" "write_blob h" om_get "blobs_ok h" for h
proof
  fix m :: "(jstr, bytes) omap" and c c' n
  assume ok: "blobs_ok h m"
  have has: "om_has m i \<longleftrightarrow> (\<exists>b. om_get m i = Some b)" for i
    unfolding om_has_def set_map using map_of_eq_None_iff [of m i] by auto
  have own: "b = d" if "om_get m (sha h d) = Some b" for b d
    using ok that by (auto simp: blobs_ok_def host_ok_def inj_def)
  show "blobs_ok h (write_blob h c m)" using ok by (auto simp: blobs_ok_def write_blob_def om_laws)
  show "om_get (write_blob h c m) (sha h c) = Some c" using has own by (auto simp: write_blob_def om_laws)
  assume "om_get m n = Some c"
  then show "om_get (write_blob h c' m) n = Some c" using has by (auto simp: write_blob_def om_laws)
qed

section \<open>Capturing at a real place\<close>

text \<open>A root is in sight unless it is a link whose target is missing.\<close>

definition root_ok :: "file_tree \<Rightarrow> segs \<Rightarrow> segs \<Rightarrow> bool" where
  "root_ok fs W k \<longleftrightarrow> prefix W k \<and> clean_path k \<and> open_above fs k \<and>
     (case om_get fs k of Some (LinkNode t) \<Rightarrow> fs_exists fs k | _ \<Rightarrow> True)"

lemma open_not_solid:
  assumes "tree_wf fs" "open_above fs k" "clean_path k" "\<not> solid fs k"
  shows "locate follow fs k = Inl (errno ''ENOENT'')" and "below fs k = {}"
proof -
  obtain q where q: "strict_prefix q k" "om_get fs q = None"
    using assms(2-4) by (auto simp: solid_def open_above_def clean_path_def)
  then have "q \<noteq> []" using tree_wf_D(2) [OF assms(1)] by auto
  then show "locate follow fs k = Inl (errno ''ENOENT'')"
    using walk_missing [of k fs "[]" q] assms(2,3) q by (simp add: locate_def open_above_def clean_path_def)
  have "om_get fs r = None" if "prefix k r" for r
  proof (rule ccontr)
    assume "om_get fs r \<noteq> None"
    moreover have "strict_prefix q r" using q(1) that by (rule prefix_order.less_le_trans)
    then obtain z zs where "r = q @ z # zs" by (rule strict_prefixE')
    ultimately show False using tree_above [OF assms(1), of q "z # zs"] q(2) by (auto simp del: append_Cons)
  qed
  then show "below fs k = {}" by (auto simp: below_def)
qed

definition file_contents :: "host \<Rightarrow> file_tree \<Rightarrow> segs \<Rightarrow> segs \<Rightarrow> bytes list" where
  "file_contents h fs W k =
     List.map_filter snd (map (\<lambda>q. entry_of h W q (the (om_get fs q))) (sorted_list_of_set (below fs k)))"

lemma file_contents_cover: "prefix k q \<Longrightarrow> om_get fs q = Some (FileNode b) \<Longrightarrow> b \<in> set (file_contents h fs W k)"
proof -
  assume q: "prefix k q" "om_get fs q = Some (FileNode b)"
  then have "q \<in> set (sorted_list_of_set (below fs k))" by (simp add: below_def [symmetric]) (simp add: below_def)
  moreover have "snd (entry_of h W q (the (om_get fs q))) = Some b" using q by (simp add: entry_of_def)
  moreover have "b \<in> set (List.map_filter snd xs)" if "snd e = Some b" "e \<in> set xs" for e :: "entry_snapshot \<times> bytes option" and xs
    using that by (induction xs) (auto split: option.splits)
  moreover have "entry_of h W q (the (om_get fs q)) \<in> set (map (\<lambda>q. entry_of h W q (the (om_get fs q))) (sorted_list_of_set (below fs k)))"
    using calculation(1) by (simp only: set_map) (rule imageI)
  ultimately show ?thesis unfolding file_contents_def by blast
qed

lemma below_empty: "tree_wf fs \<Longrightarrow> om_get fs k = None \<Longrightarrow> below fs k = {}"
  using tree_above [of fs k] by (fastforce simp: below_def prefix_def)

lemma capture_root_real:
  assumes clean: "clean_tree fs" and W: "W \<noteq> []" and k: "resolve_segs W input = k" and ok: "root_ok fs W k"
  shows "capture_root h fs W input blobs =
    (foldl (\<lambda>m c. write_blob h c m) blobs (file_contents h fs W k), Inr (snapshot_of h fs W k))"
proof -
  have W': "prefix W k" "clean_path k" "open_above fs k" using ok by (simp_all add: root_ok_def)
  have rel: "normalize_relative W k = Inr (rel_path W k)" by (rule relative_roundtrip(1) [OF W'(1) W W'(2)])
  consider "\<not> solid fs k" | "solid fs k" "om_get fs k = None" | x where "solid fs k" "om_get fs k = Some x" by fastforce
  then show ?thesis
  proof cases
    case 1
    from open_not_solid [OF clean_tree_D(1) [OF clean] W'(3,2) 1] have "\<not> fs_exists fs k" "below fs k = {}"
      by (simp_all add: fs_exists_def)
    then show ?thesis using rel by (simp add: capture_root_def k Let_def snapshot_of_def file_contents_def List.map_filter_def)
  next
    case 2
    then have "\<not> fs_exists fs k" "below fs k = {}"
      using locate_follow_solid [OF 2(1)] below_empty [OF clean_tree_D(1) [OF clean] 2(2)] by (simp_all add: fs_exists_def)
    then show ?thesis using rel by (simp add: capture_root_def k Let_def snapshot_of_def file_contents_def List.map_filter_def)
  next
    case 3
    have "fs_exists fs k"
      using ok 3 locate_follow_solid [OF 3(1)] by (cases x) (auto simp: root_ok_def fs_exists_def)
    moreover have "fs_lstat fs k = Inr (k, x)" using 3 by (simp add: fs_lstat_def)
    ultimately show ?thesis
      using capture_entry_complete [OF clean W W'(1), of h] 3(2) rel
      by (simp add: capture_root_def k Let_def snapshot_of_def file_contents_def comp_def)
  qed
qed

lemma capture_roots_real:
  assumes clean: "clean_tree fs" and W: "W \<noteq> []"
  shows "\<forall>p \<in> set inputs. root_ok fs W (resolve_segs W p) \<Longrightarrow> blobs_ok h blobs \<Longrightarrow>
    \<exists>blobs'. capture_roots h fs W inputs blobs = (blobs', Inr (map (\<lambda>p. snapshot_of h fs W (resolve_segs W p)) inputs))
      \<and> blobs_ok h blobs' \<and> (\<forall>p \<in> set inputs. stored_below h blobs' fs (resolve_segs W p))
      \<and> (\<forall>n c. om_get blobs n = Some c \<longrightarrow> om_get blobs' n = Some c)"
proof (induction inputs arbitrary: blobs)
  case Nil
  then show ?case by simp
next
  case (Cons p ps)
  let ?k = "resolve_segs W p"
  define bl where "bl = foldl (\<lambda>m c. write_blob h c m) blobs (file_contents h fs W ?k)"
  have head: "capture_root h fs W p blobs = (bl, Inr (snapshot_of h fs W ?k))"
    unfolding bl_def by (rule capture_root_real [OF clean W refl]) (use Cons.prems in simp)
  have bl: "blobs_ok h bl" "\<forall>c \<in> set (file_contents h fs W ?k). om_get bl (sha h c) = Some c"
    "\<forall>n c. om_get blobs n = Some c \<longrightarrow> om_get bl n = Some c"
    using blob_store.put_many [OF Cons.prems(2), of "file_contents h fs W ?k"] by (simp_all add: bl_def)
  obtain blobs' where rest: "capture_roots h fs W ps bl = (blobs', Inr (map (\<lambda>p. snapshot_of h fs W (resolve_segs W p)) ps))"
      "blobs_ok h blobs'" "\<forall>p \<in> set ps. stored_below h blobs' fs (resolve_segs W p)"
      "\<forall>n c. om_get bl n = Some c \<longrightarrow> om_get blobs' n = Some c"
    using Cons.IH [OF _ bl(1)] Cons.prems(1) by auto
  have "stored_below h blobs' fs ?k"
    unfolding stored_below_def using file_contents_cover bl(2) rest(4) by blast
  then show ?case using head rest bl(3) by auto
qed

section \<open>Restoring several roots\<close>

lemma restore_roots_captured:
  assumes clean: "clean_tree fs0" and wf: "tree_wf fs" and W: "W \<noteq> []"
    and ks: "\<forall>k \<in> set ks. prefix W k \<and> clean_path k \<and> open_above fs0 k \<and> open_above fs k \<and> stored_below h blobs fs0 k"
    and host: "host_ok h"
  shows "\<exists>fs'. restore_roots blobs W (map (snapshot_of h fs0 W) ks) fs = (fs', Inr ()) \<and> tree_wf fs' \<and>
    (\<forall>k \<in> set ks. \<forall>q. prefix k q \<longrightarrow> om_get fs' q = om_get fs0 q) \<and>
    (\<forall>q. (\<forall>k \<in> set ks. \<not> prefix k q) \<longrightarrow> om_get fs' q = om_get fs q \<or>
       om_get fs' q = Some DirNode \<and> (\<exists>k \<in> set ks. strict_prefix q k \<and> om_get fs0 k \<noteq> None))"
proof -
  let ?P = "\<lambda>i s. tree_wf s \<and> (\<forall>k \<in> set ks. open_above s k) \<and>
    (\<forall>k \<in> set (take i ks). \<forall>q. prefix k q \<longrightarrow> om_get s q = om_get fs0 q) \<and>
    (\<forall>q. (\<forall>k \<in> set ks. \<not> prefix k q) \<longrightarrow> om_get s q = om_get fs q \<or>
       om_get s q = Some DirNode \<and> (\<exists>k \<in> set ks. strict_prefix q k \<and> om_get fs0 k \<noteq> None))"
  have "\<exists>fs'. for_each (restore_root blobs W) (map (snapshot_of h fs0 W) ks) fs = (fs', Inr ()) \<and> ?P (length (map (snapshot_of h fs0 W) ks)) fs'"
  proof (rule for_each_induct [where P = ?P])
    show "?P 0 fs" using wf ks by simp
    fix i s assume i: "i < length (map (snapshot_of h fs0 W) ks)" and P: "?P i s"
    define k where "k = ks ! i"
    have k: "k \<in> set ks" using i by (simp add: k_def)
    then have kk: "prefix W k" "clean_path k" "open_above fs0 k" "stored_below h blobs fs0 k" "open_above s k" using ks P by auto
    have up: "below fs0 k \<noteq> {} \<Longrightarrow> om_get fs0 k \<noteq> None"
      using below_empty [OF clean_tree_D(1) [OF clean]] by auto
    obtain s' where s': "restore_root blobs W (snapshot_of h fs0 W k) s = (s', Inr ())" "partly_restored fs0 s k (below fs0 k) s'"
      using restore_captured [OF clean _ kk(5) W kk(1,2) host kk(4)] P by auto
    note look = restored_lookup [OF s'(2)]
    have opens: "open_above s' k'" if k': "k' \<in> set ks" for k'
      unfolding open_above_def
    proof (intro allI impI)
      fix a assume a: "strict_prefix a k'"
      have "open_above fs0 k'" "open_above s k'" using ks P k' by auto
      then show "om_get s' a = None \<or> om_get s' a = Some DirNode"
        using a look(2,3) [of a] by (cases "prefix k a") (auto simp: open_above_def split: if_splits)
    qed
    have kept: "om_get s' q = om_get fs0 q" if "k' \<in> set (take i ks)" "prefix k' q" for k' q
    proof (cases "prefix k q")
      case False
      have "om_get fs0 q = Some DirNode" if "strict_prefix q k" "below fs0 k \<noteq> {}"
        using dir_above [OF clean _ that(1)] up [OF that(2)] by auto
      then show ?thesis using look(3) [OF False] P that by auto
    qed (use look(2) in simp)
    have rest: "om_get s' q = om_get fs q \<or> om_get s' q = Some DirNode \<and> (\<exists>k \<in> set ks. strict_prefix q k \<and> om_get fs0 k \<noteq> None)"
      if out: "\<forall>k \<in> set ks. \<not> prefix k q" for q
    proof (cases "strict_prefix q k \<and> below fs0 k \<noteq> {}")
      case True
      then show ?thesis using look(3) [of q] out k up by auto
    next
      case False
      then have "om_get s' q = om_get s q" using look(3) [of q] out k by auto
      then show ?thesis using P out by auto
    qed
    have "?P (Suc i) s'"
      using look(1,2) opens kept rest i by (auto simp: take_Suc_conv_app_nth k_def [symmetric])
    then show "\<exists>s'. restore_root blobs W (map (snapshot_of h fs0 W) ks ! i) s = (s', Inr ()) \<and> ?P (Suc i) s'"
      using s'(1) i by (auto simp: k_def)
  qed
  then show ?thesis by (auto simp: restore_roots_def)
qed

end
