(* ===== verification/Mutation_Service.thy ===== *)
theory Mutation_Service
  imports Mutation_Snapshot
begin

text \<open>
  Recording, undoing and recovering file changes (\<open>mutations/mutationService.ts\<close>), and the recorder the
  tools call (\<open>tools/builtin/mutationRecorder.ts\<close>). A service is its workspace root and its journal; it
  works on a file tree. The action of a recorded change is a function on the file tree that returns
  or throws. One operation runs to its end before the next starts.
\<close>

type_synonym service_state = "file_tree \<times> journal"

section \<open>Recording\<close>

definition unique_roots :: "jstr list \<Rightarrow> jstr list" where
  "unique_roots ps = uniq_first (map forward_slashes ps)"

definition same_roots :: "root_snapshot list \<Rightarrow> root_snapshot list \<Rightarrow> bool" where
  "same_roots a b \<longleftrightarrow> list_all2 (\<lambda>x y. rs_path x = rs_path y \<and> rs_hash x = rs_hash y) a b"

text \<open>\<open>fs.realpath\<close> on this tree, for paths that are absolute.\<close>

definition tree_realpath :: "file_tree \<Rightarrow> real_path" where
  "tree_realpath fs p = (case fs_realpath fs (abs_segments p) of Inl e \<Rightarrow> Inl e | Inr c \<Rightarrow> Inr (path_string c))"

definition check_writable :: "file_tree \<Rightarrow> segs \<Rightarrow> jstr \<Rightarrow> js_error + jstr" where
  "check_writable fs W p = resolve_writable_path (tree_realpath fs) [slash] (path_string W) p WorkspaceScope"

text \<open>The \<open>catch\<close> of \<open>record\<close>: an error while restoring replaces the error of the action.\<close>

definition undo_failed :: "segs \<Rightarrow> prepared_mutation \<Rightarrow> js_error \<Rightarrow> service_state \<Rightarrow> service_state \<times> (js_error + 'a)" where
  "undo_failed W m e s =
     (case s of (fs, j) \<Rightarrow>
       case restore_roots (j_blobs j) W (pre_roots m) fs of
         (fs', Inl e') \<Rightarrow> ((fs', j), Inl e')
       | (fs', Inr _) \<Rightarrow> ((fs', append_rolled_back (transaction_id m) (err_message e) j), Inl e))"

text \<open>The first part of \<open>record\<close>, up to the call of the action.\<close>

definition prepare_mutation ::
  "host \<Rightarrow> jstr \<Rightarrow> jstr \<Rightarrow> segs \<Rightarrow> jstr \<Rightarrow> mutation_tool \<Rightarrow> jstr list \<Rightarrow> service_state \<Rightarrow> service_state \<times> (js_error + prepared_mutation)" where
  "prepare_mutation h uuid now W run tool paths s =
     (case s of (fs, j) \<Rightarrow>
       case map_err (check_writable fs W) paths of
         Inl e \<Rightarrow> ((fs, j), Inl e)
       | Inr _ \<Rightarrow>
           (case capture_roots h fs W paths (j_blobs j) of
              (blobs, Inl e) \<Rightarrow> ((fs, j\<lparr>j_blobs := blobs\<rparr>), Inl e)
            | (blobs, Inr pre) \<Rightarrow>
                (let j1 = j\<lparr>j_blobs := blobs\<rparr>; m = create_prepared uuid now run tool pre j1
                 in ((fs, append_prepared m j1), Inr m))))"

definition record_mutation ::
  "host \<Rightarrow> jstr \<Rightarrow> jstr \<Rightarrow> segs \<Rightarrow> jstr \<Rightarrow> mutation_tool \<Rightarrow> jstr list \<Rightarrow>
   (file_tree \<Rightarrow> file_tree \<times> (js_error + 'a)) \<Rightarrow> service_state \<Rightarrow> service_state \<times> (js_error + 'a)" where
  "record_mutation h uuid now W run tool input_paths act s =
     (let paths = unique_roots input_paths
      in case prepare_mutation h uuid now W run tool paths s of
           (s1, Inl e) \<Rightarrow> (s1, Inl e)
         | ((fs, j2), Inr m) \<Rightarrow>
             (case act fs of
                (fs1, Inl e) \<Rightarrow> undo_failed W m e (fs1, j2)
              | (fs1, Inr v) \<Rightarrow>
                  (case capture_roots h fs1 W paths (j_blobs j2) of
                     (blobs', Inl e) \<Rightarrow> undo_failed W m e (fs1, j2\<lparr>j_blobs := blobs'\<rparr>)
                   | (blobs', Inr post) \<Rightarrow>
                       (let j3 = j2\<lparr>j_blobs := blobs'\<rparr>
                        in if same_roots (pre_roots m) post
                           then ((fs1, append_rolled_back (transaction_id m) (asc ''no-change'') j3), Inr v)
                           else (case append_committed (transaction_id m) post j3 of
                                   (j4, Inl e) \<Rightarrow> undo_failed W m e (fs1, j4)
                                 | (j4, Inr r) \<Rightarrow> ((fs1, j4), Inr v))))))"

section \<open>The state a sequence of transactions leaves\<close>

definition is_path_within :: "jstr \<Rightarrow> jstr \<Rightarrow> bool" where
  "is_path_within p rt \<longleftrightarrow> rt = asc ''.'' \<or> p = rt \<or> js_starts_with (rt @ [slash]) p"

definition snapshot_parent :: "jstr \<Rightarrow> jstr" where
  "snapshot_parent p =
     (if slash \<notin> set p then asc ''.'' else butlast (rev (dropWhile (\<lambda>c. c \<noteq> slash) (rev p))))"

definition add_child :: "entry_snapshot \<Rightarrow> (jstr, jstr list) omap \<Rightarrow> (jstr, jstr list) omap" where
  "add_child e m =
     (let p = snapshot_parent (se_path e)
      in om_set p ((case om_get m p of None \<Rightarrow> [] | Some xs \<Rightarrow> xs) @ [se_path e]) m)"

definition children_map :: "entry_snapshot list \<Rightarrow> jstr \<Rightarrow> (jstr, jstr list) omap" where
  "children_map es rt =
     map (\<lambda>(p, xs). (p, sort_key (\<lambda>x. x) xs)) (foldl (\<lambda>m e. if se_path e = rt then m else add_child e m) [] es)"

text \<open>
  The recursion \<open>visit\<close> goes down the paths below \<open>rt\<close>; its fuel is the number of entries, which bounds
  how deep the paths are nested.
\<close>

fun visit :: "nat \<Rightarrow> (jstr, entry_snapshot) omap \<Rightarrow> (jstr, jstr list) omap \<Rightarrow> jstr \<Rightarrow> entry_snapshot list" where
  "visit 0 by_path children p = []"
| "visit (Suc n) by_path children p =
     (case om_get by_path p of
        None \<Rightarrow> []
      | Some e \<Rightarrow> e # (if se_kind e = KDirectory
                      then concat (map (visit n by_path children) (case om_get children p of None \<Rightarrow> [] | Some xs \<Rightarrow> xs))
                      else []))"

definition order_snapshot_entries :: "entry_snapshot list \<Rightarrow> jstr \<Rightarrow> entry_snapshot list" where
  "order_snapshot_entries es rt =
     visit (Suc (length es)) (om_put_all (map (\<lambda>e. (se_path e, e)) es) []) (children_map es rt) rt"

definition replay_root :: "(jstr, entry_snapshot) omap \<Rightarrow> root_snapshot \<Rightarrow> (jstr, entry_snapshot) omap" where
  "replay_root m r =
     om_put_all (map (\<lambda>e. (se_path e, e)) (rs_entries r)) (filter (\<lambda>p. \<not> is_path_within (fst p) (rs_path r)) m)"

definition compose_final_roots :: "host \<Rightarrow> mutation_record list \<Rightarrow> root_snapshot list" where
  "compose_final_roots h ts =
     (let root_paths = concat (map (\<lambda>t. map rs_path (post_roots t)) ts);
          top = filter (\<lambda>c. \<not> list_ex (\<lambda>q. q \<noteq> c \<and> is_path_within c q) root_paths) (uniq_first root_paths);
          entries = foldl replay_root [] (concat (map post_roots ts))
      in map (\<lambda>p. let es = order_snapshot_entries (filter (\<lambda>e. is_path_within (se_path e) p) (map snd entries)) p
                  in \<lparr>rs_path = p, rs_hash = hash_entries h es, rs_entries = es\<rparr>) top)"

section \<open>Undo\<close>

definition mutation_conflict_error :: "jstr list \<Rightarrow> js_error" where
  "mutation_conflict_error ps =
     named_error ''MutationConflictError'' (asc ''Cannot undo because files changed after the mutation: '' @ js_join (asc '', '') ps)"

fun find_conflicts :: "host \<Rightarrow> file_tree \<Rightarrow> segs \<Rightarrow> root_snapshot list \<Rightarrow> (jstr, bytes) omap \<Rightarrow>
  (jstr, bytes) omap \<times> (js_error + jstr list)" where
  "find_conflicts h fs W [] blobs = (blobs, Inr [])"
| "find_conflicts h fs W (r # rs) blobs =
     (case capture_root h fs W (rs_path r) blobs of
        (bl, Inl e) \<Rightarrow> (bl, Inl e)
      | (bl, Inr now) \<Rightarrow>
          (case find_conflicts h fs W rs bl of
             (bl', Inl e) \<Rightarrow> (bl', Inl e)
           | (bl', Inr cs) \<Rightarrow> (bl', Inr (if rs_hash now \<noteq> rs_hash r then rs_path r # cs else cs))))"

definition assert_transactions_can_undo :: "host \<Rightarrow> segs \<Rightarrow> mutation_record list \<Rightarrow> service_state \<Rightarrow> service_state \<times> (js_error + unit)" where
  "assert_transactions_can_undo h W ts s =
     (case s of (fs, j) \<Rightarrow>
       case find_conflicts h fs W (compose_final_roots h ts) (j_blobs j) of
         (bl, Inl e) \<Rightarrow> ((fs, j\<lparr>j_blobs := bl\<rparr>), Inl e)
       | (bl, Inr cs) \<Rightarrow> ((fs, j\<lparr>j_blobs := bl\<rparr>), if cs \<noteq> [] then Inl (mutation_conflict_error (uniq_first cs)) else Inr ()))"

text \<open>A target is a run or a transaction; an empty string counts as none.\<close>

definition truthy :: "jstr option \<Rightarrow> bool" where
  "truthy target \<longleftrightarrow> target \<noteq> None \<and> target \<noteq> Some []"

definition matches_target :: "jstr option \<Rightarrow> mutation_record \<Rightarrow> bool" where
  "matches_target target r \<longleftrightarrow> Some (mut_run_id r) = target \<or> Some (transaction_id r) = target"

definition select_mutations :: "host \<Rightarrow> jstr option \<Rightarrow> journal \<Rightarrow> mutation_record list" where
  "select_mutations h target j =
     (let active = j_list_active h j
      in if truthy target then filter (matches_target target) active
         else if active \<noteq> [] then [last active] else [])"

definition assert_can_undo :: "host \<Rightarrow> segs \<Rightarrow> jstr option \<Rightarrow> service_state \<Rightarrow> service_state \<times> (js_error + unit)" where
  "assert_can_undo h W target s = assert_transactions_can_undo h W (select_mutations h target (snd s)) s"

record undo_result =
  undone_transactions :: "jstr list"
  undone_files :: "jstr list"

definition undo_one :: "jstr \<Rightarrow> segs \<Rightarrow> mutation_record \<Rightarrow> service_state \<Rightarrow> service_state \<times> (js_error + unit)" where
  "undo_one now W t s =
     (case s of (fs, j) \<Rightarrow>
       case restore_roots (j_blobs j) W (pre_roots t) fs of
         (fs', Inl e) \<Rightarrow> ((fs', j), Inl e)
       | (fs', Inr _) \<Rightarrow> ((fs', append_undone now (transaction_id t) j), Inr ()))"

definition undo :: "host \<Rightarrow> jstr \<Rightarrow> segs \<Rightarrow> jstr option \<Rightarrow> service_state \<Rightarrow> service_state \<times> (js_error + undo_result)" where
  "undo h now W target s =
     (let selected = select_mutations h target (snd s)
      in if selected = [] then
           (s, Inl (plain_error (if truthy target then asc ''No reversible mutation found: '' @ the target else asc ''No reversible mutations'')))
         else (case assert_transactions_can_undo h W selected s of
                 (s1, Inl e) \<Rightarrow> (s1, Inl e)
               | (s1, Inr _) \<Rightarrow>
                   (case for_each (undo_one now W) (rev selected) s1 of
                      (s2, Inl e) \<Rightarrow> (s2, Inl e)
                    | (s2, Inr _) \<Rightarrow>
                        (s2, Inr \<lparr>undone_transactions = map transaction_id (rev selected),
                                  undone_files = uniq_first (concat (map (\<lambda>t. map rs_path (pre_roots t)) (rev selected)))\<rparr>))))"

section \<open>Recovery\<close>

definition recover_one :: "segs \<Rightarrow> prepared_mutation \<Rightarrow> service_state \<Rightarrow> service_state \<times> (js_error + unit)" where
  "recover_one W m s =
     (case s of (fs, j) \<Rightarrow>
       case restore_roots (j_blobs j) W (pre_roots m) fs of
         (fs', Inl e) \<Rightarrow> ((fs', j), Inl e)
       | (fs', Inr _) \<Rightarrow> ((fs', append_rolled_back (transaction_id m) (asc ''recovered-incomplete'') j), Inr ()))"

definition recover_incomplete :: "segs \<Rightarrow> service_state \<Rightarrow> service_state \<times> (js_error + unit)" where
  "recover_incomplete W s = for_each (recover_one W) (j_list_incomplete (snd s)) s"

text \<open>The constructor, for a root that is canonical, on the journal files it finds.\<close>

definition open_service ::
  "(json \<Rightarrow> jstr) \<Rightarrow> segs \<Rightarrow> mutation_event log_file \<Rightarrow> (jstr, bytes) omap \<Rightarrow> file_tree \<Rightarrow> file_tree \<times> (js_error + journal)" where
  "open_service str W file blobs fs =
     (case open_journal str (path_string W) file blobs of
        Inl e \<Rightarrow> (fs, Inl e)
      | Inr j \<Rightarrow> (case recover_incomplete W (fs, j) of
                   ((fs', j'), Inl e) \<Rightarrow> (fs', Inl e)
                 | ((fs', j'), Inr _) \<Rightarrow> (fs', Inr j')))"

section \<open>A change that fails is taken back\<close>

definition roots_of :: "segs \<Rightarrow> jstr list \<Rightarrow> segs list" where
  "roots_of W paths = map (resolve_segs W) (unique_roots paths)"

text \<open>The precondition of recording: a clean tree, roots in sight, paths the check accepts.\<close>

definition recordable :: "host \<Rightarrow> segs \<Rightarrow> jstr list \<Rightarrow> service_state \<Rightarrow> bool" where
  "recordable h W paths s \<longleftrightarrow> clean_tree (fst s) \<and> W \<noteq> [] \<and> blobs_ok h (j_blobs (snd s)) \<and>
     (\<forall>k \<in> set (roots_of W paths). root_ok (fst s) W k) \<and>
     list_all (\<lambda>p. case check_writable (fst s) W p of Inl e \<Rightarrow> False | Inr t \<Rightarrow> True) (unique_roots paths)"

text \<open>What the action must not do: leave files or links where directories are needed.\<close>

definition roots_reachable :: "segs \<Rightarrow> jstr list \<Rightarrow> file_tree \<Rightarrow> bool" where
  "roots_reachable W paths fs \<longleftrightarrow> tree_wf fs \<and> (\<forall>k \<in> set (roots_of W paths). open_above fs k)"

lemma recordable_check: "recordable h W paths s \<Longrightarrow> \<exists>ts. map_err (check_writable (fst s) W) (unique_roots paths) = Inr ts"
proof -
  assume "recordable h W paths s"
  then have "\<forall>p \<in> set (unique_roots paths). \<exists>t. check_writable (fst s) W p = Inr t" by (auto simp: recordable_def list_all_iff split: sum.splits) (metis obj_sumE)
  then have "map_err (check_writable (fst s) W) (unique_roots paths) = Inr (map (\<lambda>p. SOME t. check_writable (fst s) W p = Inr t) (unique_roots paths))"
    by (intro map_err_Inr) (metis (mono_tags, lifting) someI_ex)
  then show ?thesis by blast
qed

text \<open>Up to the action, recording stores contents and writes the prepared transaction.\<close>

lemma record_prepares:
  assumes "recordable h W paths (fs, j)"
  shows "\<exists>blobs pre. blobs_ok h blobs \<and> pre = map (snapshot_of h fs W) (roots_of W paths) \<and>
    (\<forall>k \<in> set (roots_of W paths). stored_below h blobs fs k) \<and>
    capture_roots h fs W (unique_roots paths) (j_blobs j) = (blobs, Inr pre)"
  using capture_roots_real [of fs W "unique_roots paths" h "j_blobs j"] assms
  by (fastforce simp: recordable_def roots_of_def comp_def)

lemma undo_failed_restores:
  assumes "clean_tree fs" and W: "W \<noteq> []" and "blobs_ok h (j_blobs j)" and roots: "\<forall>k \<in> set ks. root_ok fs W k \<and> open_above fs1 k"
    and "\<forall>k \<in> set ks. stored_below h (j_blobs j) fs k" and "tree_wf fs1" and m: "pre_roots m = map (snapshot_of h fs W) ks"
  shows "\<exists>fs2. undo_failed W m e (fs1, j) = ((fs2, append_rolled_back (transaction_id m) (err_message e) j), Inl e) \<and> tree_wf fs2 \<and>
    (\<forall>k \<in> set ks. \<forall>q. prefix k q \<longrightarrow> om_get fs2 q = om_get fs q) \<and>
    (\<forall>q. (\<forall>k \<in> set ks. \<not> prefix k q) \<longrightarrow> om_get fs2 q = om_get fs1 q \<or>
       om_get fs2 q = Some DirNode \<and> (\<exists>k \<in> set ks. strict_prefix q k \<and> om_get fs k \<noteq> None))"
proof -
  have "host_ok h" using assms(3) by (simp add: blobs_ok_def)
  moreover have "\<forall>k \<in> set ks. prefix W k \<and> clean_path k \<and> open_above fs k \<and> open_above fs1 k \<and> stored_below h (j_blobs j) fs k"
    using roots assms(5) by (simp add: root_ok_def)
  ultimately show ?thesis using restore_roots_captured [OF assms(1,6) W, of ks h "j_blobs j"]
    by (auto simp: undo_failed_def m)
qed

lemma capture_root_keeps:
  assumes "capture_root h fs W p bl = (bl', r)" and "blobs_ok h bl"
  shows "blobs_ok h bl' \<and> (\<forall>n c. om_get bl n = Some c \<longrightarrow> om_get bl' n = Some c)"
proof -
  have "bl' = bl \<or> (\<exists>cs. bl' = foldl (\<lambda>m c. write_blob h c m) bl cs)"
    using assms(1) by (auto simp: capture_root_def Let_def split: sum.splits if_splits)
  then show ?thesis using blob_store.put_many [OF assms(2)] assms(2) by blast
qed

lemma capture_roots_keep:
  "capture_roots h fs W ps bl = (bl', r) \<Longrightarrow> blobs_ok h bl \<Longrightarrow>
   blobs_ok h bl' \<and> (\<forall>n c. om_get bl n = Some c \<longrightarrow> om_get bl' n = Some c)"
proof (induction ps arbitrary: bl bl' r)
  case (Cons p ps)
  obtain b1 r1 where one: "capture_root h fs W p bl = (b1, r1)" by (metis prod.exhaust)
  note keep = capture_root_keeps [OF one Cons.prems(2)]
  show ?case
  proof (cases r1)
    case (Inl e)
    then show ?thesis using one keep Cons.prems(1) by simp
  next
    case (Inr x)
    obtain b2 r2 where two: "capture_roots h fs W ps b1 = (b2, r2)" by (metis prod.exhaust)
    then have "bl' = b2" using one Inr Cons.prems(1) by (auto split: sum.splits)
    then show ?thesis using Cons.IH [OF two] keep by auto
  qed
qed simp

text \<open>Whatever makes recording fail, what is at and below the roots is as before.\<close>

lemma record_error_restores:
  assumes rec: "recordable h W paths (fs, j)" and reach: "roots_reachable W paths (fst (act fs))"
    and err: "record_mutation h uuid now W run tool paths act (fs, j) = ((fs2, j2), Inl e :: js_error + 'a)"
  shows "\<forall>k \<in> set (roots_of W paths). \<forall>q. prefix k q \<longrightarrow> om_get fs2 q = om_get fs q"
proof -
  obtain ts where ts: "map_err (check_writable fs W) (unique_roots paths) = Inr ts" using recordable_check [OF rec] by auto
  obtain blobs where bl: "blobs_ok h blobs" "\<forall>k \<in> set (roots_of W paths). stored_below h blobs fs k"
      "capture_roots h fs W (unique_roots paths) (j_blobs j) = (blobs, Inr (map (snapshot_of h fs W) (roots_of W paths)))"
    using record_prepares [OF rec] by auto
  define m where "m = create_prepared uuid now run tool (map (snapshot_of h fs W) (roots_of W paths)) (j\<lparr>j_blobs := blobs\<rparr>)"
  define j1 where "j1 = append_prepared m (j\<lparr>j_blobs := blobs\<rparr>)"
  have j1: "j_blobs j1 = blobs" "om_get (prepared_map (j_maps j1)) (transaction_id m) = Some m"
    by (simp_all add: j1_def append_prepared_def append_event_def Let_def om_laws)
  have m: "pre_roots m = map (snapshot_of h fs W) (roots_of W paths)" by (simp add: m_def create_prepared_def)
  have prep: "prepare_mutation h uuid now W run tool (unique_roots paths) (fs, j) = ((fs, j1), Inr m)"
    using ts bl(3) by (simp add: prepare_mutation_def m_def j1_def Let_def)
  have restores: "\<forall>k \<in> set (roots_of W paths). \<forall>q. prefix k q \<longrightarrow> om_get fs2 q = om_get fs q"
    if "undo_failed W m e' (fst (act fs), jx) = ((fs2, j2), Inl e :: js_error + 'a)" "blobs_ok h (j_blobs jx)"
      "\<forall>n c. om_get blobs n = Some c \<longrightarrow> om_get (j_blobs jx) n = Some c" for e' jx
  proof -
    have st: "\<forall>k \<in> set (roots_of W paths). stored_below h (j_blobs jx) fs k" using bl(2) that(3) by (auto simp: stored_below_def)
    have roots: "\<forall>k \<in> set (roots_of W paths). root_ok fs W k \<and> open_above (fst (act fs)) k"
      using rec reach by (auto simp: recordable_def roots_reachable_def)
    have "clean_tree fs" "W \<noteq> []" "tree_wf (fst (act fs))" using rec reach by (simp_all add: recordable_def roots_reachable_def)
    from undo_failed_restores [OF this(1,2) that(2) roots st this(3) m, of e']
    obtain fs' where "undo_failed W m e' (fst (act fs), jx) =
        ((fs', append_rolled_back (transaction_id m) (err_message e') jx), Inl e' :: js_error + 'a)"
      "\<forall>k \<in> set (roots_of W paths). \<forall>q. prefix k q \<longrightarrow> om_get fs' q = om_get fs q" by blast
    with that(1) show ?thesis by simp
  qed
  obtain fs1 r where act: "act fs = (fs1, r)" by (metis prod.exhaust)
  show ?thesis
  proof (cases r)
    case (Inl e')
    then have "undo_failed W m e' (fs1, j1) = ((fs2, j2), Inl e :: js_error + 'a)"
      using err by (simp add: record_mutation_def prep act Let_def)
    then show ?thesis using restores bl(1) j1(1) act by simp
  next
    case (Inr v)
    obtain b2 r2 where cap: "capture_roots h fs1 W (unique_roots paths) (j_blobs j1) = (b2, r2)" by (metis prod.exhaust)
    note keep = capture_roots_keep [OF cap, unfolded j1(1), OF bl(1)]
    show ?thesis
    proof (cases r2)
      case (Inl e')
      then have "undo_failed W m e' (fs1, j1\<lparr>j_blobs := b2\<rparr>) = ((fs2, j2), Inl e :: js_error + 'a)"
        using err cap Inr by (simp add: record_mutation_def prep act Let_def)
      then show ?thesis using restores keep act by simp
    next
      case (Inr post)
      then show ?thesis using err cap \<open>r = Inr v\<close> j1(2)
        by (simp add: record_mutation_def prep act append_committed_def append_event_def Let_def split: if_splits)
    qed
  qed
qed

text \<open>
  C34. A recorded action that throws is taken back: the error is passed on, everything at and below
  the recorded paths is what it was before, elsewhere the action's effects stay (at most directories
  above the roots are made again), and the transaction is neither pending nor active.
\<close>

theorem failed_change_is_taken_back:
  assumes "recordable h W paths (fs, j)" and "act fs = (fs1, Inl e)" and "roots_reachable W paths fs1"
  shows "case record_mutation h uuid now W run tool paths act (fs, j) of ((fs2, j2), r) \<Rightarrow>
    r = Inl e \<and>
    (\<forall>k \<in> set (roots_of W paths). \<forall>q. prefix k q \<longrightarrow> om_get fs2 q = om_get fs q) \<and>
    (\<forall>q. (\<forall>k \<in> set (roots_of W paths). \<not> prefix k q) \<longrightarrow> om_get fs2 q = om_get fs1 q \<or>
       om_get fs2 q = Some DirNode \<and> (\<exists>k \<in> set (roots_of W paths). strict_prefix q k \<and> om_get fs k \<noteq> None)) \<and>
    asc ''mutation-'' @ uuid \<notin> set (map transaction_id (j_list_active h j2)) \<and>
    om_get (prepared_map (j_maps j2)) (asc ''mutation-'' @ uuid) = None \<and>
    full_lines (j_file j2) \<noteq> [] \<and> last (full_lines (j_file j2)) = event_line (RolledBack (asc ''mutation-'' @ uuid) (err_message e))"
proof -
  obtain ts where ts: "map_err (check_writable fs W) (unique_roots paths) = Inr ts" using recordable_check [OF assms(1)] by auto
  obtain blobs where bl: "blobs_ok h blobs" "\<forall>k \<in> set (roots_of W paths). stored_below h blobs fs k"
      "capture_roots h fs W (unique_roots paths) (j_blobs j) = (blobs, Inr (map (snapshot_of h fs W) (roots_of W paths)))"
    using record_prepares [OF assms(1)] by auto
  define j1 where "j1 = j\<lparr>j_blobs := blobs\<rparr>"
  define m where "m = create_prepared uuid now run tool (map (snapshot_of h fs W) (roots_of W paths)) j1"
  define j2 where "j2 = append_prepared m j1"
  have m: "transaction_id m = asc ''mutation-'' @ uuid" "pre_roots m = map (snapshot_of h fs W) (roots_of W paths)"
    by (simp_all add: m_def create_prepared_def)
  have j2: "j_blobs j2 = blobs" by (simp add: j2_def j1_def append_prepared_def append_event_def Let_def)
  have roots: "\<forall>k \<in> set (roots_of W paths). root_ok fs W k \<and> open_above fs1 k"
    using assms(1,3) by (auto simp: recordable_def roots_reachable_def)
  have open_line: "open_line (j_file j2) = None" by (simp add: j2_def append_prepared_def append_event_def append_line_def Let_def)
  obtain fs2 where fs2: "undo_failed W m e (fs1, j2) = ((fs2, append_rolled_back (transaction_id m) (err_message e) j2), Inl e :: js_error + 'a)"
      "\<forall>k \<in> set (roots_of W paths). \<forall>q. prefix k q \<longrightarrow> om_get fs2 q = om_get fs q"
      "\<forall>q. (\<forall>k \<in> set (roots_of W paths). \<not> prefix k q) \<longrightarrow> om_get fs2 q = om_get fs1 q \<or>
         om_get fs2 q = Some DirNode \<and> (\<exists>k \<in> set (roots_of W paths). strict_prefix q k \<and> om_get fs k \<noteq> None)"
    using undo_failed_restores [where ks = "roots_of W paths" and fs = fs and j = j2 and h = h and W = W and m = m and e = e and ?fs1.0 = fs1]
      assms bl roots m(2) by (auto simp: recordable_def roots_reachable_def j2)
  have "record_mutation h uuid now W run tool paths act (fs, j) = ((fs2, append_rolled_back (transaction_id m) (err_message e) j2), Inl e)"
    using ts bl(3) assms(2) fs2(1) by (simp add: record_mutation_def prepare_mutation_def Let_def j1_def m_def j2_def)
  moreover have "asc ''mutation-'' @ uuid \<notin> set (map transaction_id (j_list_active h (append_rolled_back (asc ''mutation-'' @ uuid) (err_message e) j2)))"
    by (auto simp: j_list_active_def append_rolled_back_def Let_def)
  ultimately show ?thesis using fs2(2,3)
    by (simp add: m(1) append_rolled_back_def append_event_def append_line_def Let_def om_laws open_line)
qed

text \<open>The quantifier over the paths above another one, as a finite conjunction.\<close>

lemma open_above_code:
  "open_above fs k \<longleftrightarrow> list_all (\<lambda>i. om_get fs (take i k) = None \<or> om_get fs (take i k) = Some DirNode) [0..<length k]"
proof -
  have "strict_prefix q k \<longleftrightarrow> (\<exists>i < length k. q = take i k)" for q
  proof
    assume q: "strict_prefix q k"
    then obtain z zs where "k = q @ z # zs" by (rule strict_prefixE')
    then show "\<exists>i < length k. q = take i k" by (intro exI [of _ "length q"]) simp
  next
    assume "\<exists>i < length k. q = take i k"
    then show "strict_prefix q k" by (auto simp: strict_prefix_def take_is_prefix dest: arg_cong [where f = length])
  qed
  then show ?thesis unfolding open_above_def list_all_iff by (metis atLeastLessThan_iff set_upt zero_le)
qed

end
