(* ===== verification/Mutation_Undo.thy ===== *)
theory Mutation_Undo
  imports Mutation_Service
begin

text \<open>
  Undoing a recorded change, what the composed state of its transaction is, and where the record fails:
  a torn log, a dangling link, a directory that a change made on the way.
\<close>

section \<open>Relative paths as strings\<close>

lemma split_units_after:
  "ss \<noteq> [] \<Longrightarrow> \<forall>s \<in> set ss. \<forall>c \<in> set s. \<not> p c \<Longrightarrow> p d \<Longrightarrow> split_units p (js_join [d] ss @ d # rest) = ss @ split_units p rest"
proof (induction "[d]" ss rule: js_join.induct)
  case (2 x)
  have "split_units p (z @ d # rest) = z # split_units p rest" if "\<forall>c \<in> set z. \<not> p c" for z
    using that 2 by (induction z) auto
  then show ?case using 2 by simp
next
  case (3 x y xs)
  have "split_units p (z @ d # r) = z # split_units p r" if "\<forall>c \<in> set z. \<not> p c" for z r
    using that 3 by (induction z) auto
  then show ?case using 3 by simp
qed simp

abbreviation segments_of :: "jstr \<Rightarrow> segs" where
  "segments_of p \<equiv> split_units (\<lambda>c. c = slash) p"

lemma clean_free: "clean_path k \<Longrightarrow> \<forall>s \<in> set k. \<forall>c \<in> set s. c \<noteq> slash"
  by (auto simp: clean_path_def plain_segment_def)

lemma segments_of_join: "clean_path d \<Longrightarrow> d \<noteq> [] \<Longrightarrow> segments_of (js_join [slash] d) = d"
  using split_units_join [of d "\<lambda>c. c = slash" slash] clean_free [of d] by auto

lemma join_append: "d \<noteq> [] \<Longrightarrow> d' \<noteq> [] \<Longrightarrow> js_join [slash] (d @ d') = js_join [slash] d @ slash # js_join [slash] d'"
  by (induction d) (auto simp: js_join_Cons)

lemma join_not_dot:
  assumes "clean_path d" "d \<noteq> []"
  shows "js_join [slash] d \<noteq> asc ''.''"
proof
  assume dot: "js_join [slash] d = asc ''.''"
  have "segments_of (asc ''.'') = [asc ''.'']" by (simp add: asc_def slash_def)
  then have "d = [asc ''.'']" using segments_of_join [OF assms] dot by simp
  then show False using assms(1) by (simp add: clean_path_def plain_segment_def)
qed

lemma starts_with_iff: "js_starts_with p s \<longleftrightarrow> (\<exists>r. s = p @ r)"
  unfolding js_starts_with_def by (metis append_eq_conv_conj)

lemma join_below:
  assumes "clean_path d" "clean_path d'" "d \<noteq> []" "d' \<noteq> []"
  shows "is_path_within (js_join [slash] d') (js_join [slash] d) \<longleftrightarrow> prefix d d'"
proof
  assume "is_path_within (js_join [slash] d') (js_join [slash] d)"
  then consider "js_join [slash] d' = js_join [slash] d" | r where "js_join [slash] d' = js_join [slash] d @ slash # r"
    using join_not_dot [OF assms(1,3)] by (auto simp: is_path_within_def starts_with_iff)
  then show "prefix d d'"
  proof cases
    case 1
    then show ?thesis using segments_of_join [OF assms(1,3)] segments_of_join [OF assms(2,4)] by simp
  next
    case 2
    then have "d' = d @ segments_of r"
      using segments_of_join [OF assms(2,4)] split_units_after [of d "\<lambda>c. c = slash" slash r] clean_free [OF assms(1)] assms(3) by simp
    then show ?thesis by simp
  qed
next
  assume "prefix d d'"
  then obtain r where r: "d' = d @ r" by (auto simp: prefix_def)
  then show "is_path_within (js_join [slash] d') (js_join [slash] d)"
    using join_append [OF assms(3), of r] by (cases "r = []") (simp_all add: is_path_within_def starts_with_iff)
qed

text \<open>What the string tests and functions on snapshot paths mean.\<close>

lemma clean_drop: "clean_path k \<Longrightarrow> clean_path (drop n k)"
  by (auto simp: clean_path_def dest: in_set_dropD)

lemma rel_path_cases:
  assumes "prefix W k" "clean_path k"
  obtains "k = W" "rel_path W k = asc ''.''"
    | d where "k = W @ d" "d \<noteq> []" "clean_path d" "rel_path W k = js_join [slash] d" "rel_path W k \<noteq> asc ''.''"
proof (cases "k = W")
  case False
  then obtain d where d: "k = W @ d" "d \<noteq> []" using assms(1) by (auto simp: prefix_def)
  moreover have "clean_path d" using assms(2) by (auto simp: d clean_path_def)
  ultimately show ?thesis using that(2) [of d] join_not_dot by (simp add: rel_path_def)
qed (use that(1) in \<open>simp add: rel_path_def\<close>)

lemma within_rel_path:
  assumes "prefix W k" "clean_path k" "prefix W q" "clean_path q"
  shows "is_path_within (rel_path W q) (rel_path W k) \<longleftrightarrow> prefix k q"
proof -
  from assms(1,2) show ?thesis
  proof (cases rule: rel_path_cases)
    case 1
    then show ?thesis using assms(3) by (simp add: is_path_within_def)
  next
    case k: (2 d)
    from assms(3,4) show ?thesis
    proof (cases rule: rel_path_cases)
      case 1
      have "\<not> js_starts_with (js_join [slash] d @ [slash]) (asc ''.'')"
        using k join_starts_plain [of d "[slash]"] by (cases "js_join [slash] d") (auto simp: js_starts_with_def asc_def clean_path_def)
      then show ?thesis using 1 k by (auto simp: is_path_within_def)
    next
      case (2 d')
      then show ?thesis using k join_below [of d d'] by simp
    qed
  qed
qed

lemma rel_path_inject:
  assumes "prefix W k" "clean_path k" "prefix W q" "clean_path q" "W \<noteq> []"
  shows "rel_path W q = rel_path W k \<longleftrightarrow> q = k"
  using relative_roundtrip(2) assms by metis

lemma snapshot_parent_rel:
  assumes "prefix W k" "clean_path (k @ [s])"
  shows "snapshot_parent (rel_path W (k @ [s])) = rel_path W k"
proof -
  have s: "slash \<notin> set s" using assms(2) by (auto simp: clean_path_def plain_segment_def)
  obtain d where d: "k = W @ d" using assms(1) by (auto simp: prefix_def)
  show ?thesis
  proof (cases "d = []")
    case True
    then show ?thesis using s by (simp add: d rel_path_def snapshot_parent_def)
  next
    case False
    have "dropWhile (\<lambda>c. c \<noteq> slash) (rev s @ slash # rev (js_join [slash] d)) = slash # rev (js_join [slash] d)"
      using s by (subst dropWhile_append2) auto
    then show ?thesis using False join_append [of d "[s]"] by (simp add: d rel_path_def snapshot_parent_def)
  qed
qed

lemma rel_path_child:
  assumes "prefix W k"
  shows "rel_path W (k @ [s]) = (if k = W then s else rel_path W k @ slash # s)"
proof -
  obtain d where d: "k = W @ d" using assms by (auto simp: prefix_def)
  then show ?thesis using join_append [of d "[s]"] by (auto simp: rel_path_def)
qed

section \<open>The composed state of one transaction\<close>

abbreviation snap_entry :: "host \<Rightarrow> file_tree \<Rightarrow> segs \<Rightarrow> segs \<Rightarrow> entry_snapshot" where
  "snap_entry h fs W q \<equiv> fst (entry_of h W q (the (om_get fs q)))"

lemma snap_entry_path [simp]: "se_path (fst (entry_of h W q x)) = rel_path W q"
  by (cases x) (simp_all add: entry_of_def)

lemma children_fold:
  "om_get (foldl (\<lambda>m e. if se_path e = rt then m else add_child e m) m0 es) p =
     (let xs = map se_path (filter (\<lambda>e. se_path e \<noteq> rt \<and> snapshot_parent (se_path e) = p) es)
      in case om_get m0 p of None \<Rightarrow> if xs = [] then None else Some xs | Some ys \<Rightarrow> Some (ys @ xs))"
  by (induction es arbitrary: m0) (auto simp: add_child_def om_laws Let_def split: option.splits)

lemma children_map_get:
  "(case om_get (children_map es rt) p of None \<Rightarrow> [] | Some xs \<Rightarrow> xs) =
     sort_key (\<lambda>x. x) (map se_path (filter (\<lambda>e. se_path e \<noteq> rt \<and> snapshot_parent (se_path e) = p) es))"
  by (auto simp: children_map_def map_of_map children_fold Let_def)

lemma append_le_append: "(a @ x \<le> a @ y) = (x \<le> (y :: 'a::linorder list))"
  by (induction a) simp_all

text \<open>A list of entries that describes a subtree, in whatever order.\<close>

definition describes :: "host \<Rightarrow> file_tree \<Rightarrow> segs \<Rightarrow> segs \<Rightarrow> entry_snapshot list \<Rightarrow> bool" where
  "describes h fs W k es \<longleftrightarrow> set es = snap_entry h fs W ` below fs k \<and> distinct (map se_path es)"

lemma below_clean:
  assumes "clean_tree fs" "q \<in> below fs k" "prefix W k"
  shows "prefix k q" "prefix W q" "clean_path q" "om_get fs q \<noteq> None"
  using assms clean_tree_D(2) [of fs q] by (auto simp: below_def intro: prefix_order.trans)

lemma described_children:
  assumes clean: "clean_tree fs" and W: "W \<noteq> []" "prefix W k" and es: "describes h fs W k es" and q: "q \<in> below fs k"
  shows "(case om_get (children_map es (rel_path W k)) (rel_path W q) of None \<Rightarrow> [] | Some xs \<Rightarrow> xs) =
    map (\<lambda>s. rel_path W (q @ [s])) (fs_children fs q)"
proof -
  note qc = below_clean [OF clean q W(2)]
  let ?xs = "map se_path (filter (\<lambda>e. se_path e \<noteq> rel_path W k \<and> snapshot_parent (se_path e) = rel_path W q) es)"
  let ?ys = "map (\<lambda>s. rel_path W (q @ [s])) (fs_children fs q)"
  have inj: "rel_path W r = rel_path W k \<longleftrightarrow> r = k" if r: "r \<in> below fs k" for r
    using rel_path_inject [OF W(2) _ below_clean(2,3) [OF clean r W(2)] W(1)] below_clean [OF clean r W(2)]
    by (metis clean_path_def in_mono set_mono_prefix)
  have "set ?xs = set ?ys"
  proof (intro set_eqI iffI)
    fix p assume "p \<in> set ?xs"
    then obtain r where r: "r \<in> below fs k" "p = rel_path W r" "p \<noteq> rel_path W k" "snapshot_parent p = rel_path W q"
      using es by (auto simp: describes_def)
    note rc = below_clean [OF clean r(1) W(2)]
    have "r \<noteq> k" using r(2,3) by auto
    then obtain r' s where rs: "r = r' @ [s]" "prefix k r'" using rc(1) by (cases r rule: rev_cases) auto
    then have r': "prefix W r'" "clean_path r'" using W(2) rc(3) by (auto intro: prefix_order.trans simp: clean_path_def)
    have "rel_path W r' = rel_path W q" using snapshot_parent_rel [OF r'(1)] rc(3) r(2,4) by (simp add: rs(1))
    then have "r' = q" using rel_path_inject [OF qc(2,3) r' W(1)] by simp
    then show "p \<in> set ?ys" using r(2) rs(1) rc(4) by (auto simp: set_fs_children)
  next
    fix p assume "p \<in> set ?ys"
    then obtain s where s: "p = rel_path W (q @ [s])" "om_get fs (q @ [s]) \<noteq> None" by (auto simp: set_fs_children)
    then have qs: "q @ [s] \<in> below fs k" using qc(1) by (auto simp: below_def)
    have "p \<noteq> rel_path W k" using inj [OF qs] s(1) qc(1) by (auto simp: prefix_def)
    moreover have "snapshot_parent p = rel_path W q"
      using snapshot_parent_rel [OF qc(2), of s] below_clean(3) [OF clean qs W(2)] s(1) by simp
    moreover have "snap_entry h fs W (q @ [s]) \<in> set es" using es qs by (auto simp: describes_def)
    ultimately show "p \<in> set ?xs" using s(1) by (auto simp: image_iff)
  qed
  moreover have "sorted_wrt (\<le>) ?ys"
    unfolding sorted_wrt_map
    by (rule sorted_wrt_mono_rel [OF _ children_sorted(1)]) (auto simp: rel_path_child [OF qc(2)] append_le_append)
  moreover have "distinct ?ys"
    using children_sorted(2) [of fs q] by (auto simp: distinct_map inj_on_def rel_path_child [OF qc(2)])
  moreover have "distinct ?xs" using es by (auto simp: describes_def distinct_map_filter)
  ultimately have "sort_key (\<lambda>x. x) ?xs = ?ys"
    by (intro sorted_distinct_set_unique) (auto simp del: set_map)
  then show ?thesis by (simp only: children_map_get)
qed

lemma card_below_child:
  assumes "tree_wf fs" "om_get fs q \<noteq> None" "s \<in> set (fs_children fs q)"
  shows "card (below fs (q @ [s])) < card (below fs q)"
proof (rule psubset_card_mono [OF finite_below])
  have "q \<notin> below fs (q @ [s])" by (auto simp: below_def prefix_def)
  then show "below fs (q @ [s]) \<subset> below fs q" using below_children [OF assms(1,2)] assms(3) by blast
qed

lemma visit_in_order:
  assumes clean: "clean_tree fs" and W: "W \<noteq> []" "prefix W k" and es: "describes h fs W k es"
    and bp: "\<And>q. q \<in> below fs k \<Longrightarrow> om_get bp (rel_path W q) = Some (snap_entry h fs W q)"
  shows "q \<in> below fs k \<Longrightarrow> card (below fs q) \<le> n \<Longrightarrow>
    visit n bp (children_map es (rel_path W k)) (rel_path W q) = map (snap_entry h fs W) (sorted_list_of_set (below fs q))"
proof (induction n arbitrary: q)
  case 0
  then have "q \<in> below fs q" by (simp add: below_def)
  then show ?case using 0 by auto
next
  case (Suc n)
  note qc = below_clean [OF clean Suc.prems(1) W(2)]
  obtain x where x: "om_get fs q = Some x" using qc(4) by auto
  show ?case
  proof (cases "x = DirNode")
    case True
    have kid: "visit n bp (children_map es (rel_path W k)) (rel_path W (q @ [s])) = map (snap_entry h fs W) (sorted_list_of_set (below fs (q @ [s])))"
      if s: "s \<in> set (fs_children fs q)" for s
    proof (rule Suc.IH)
      show "q @ [s] \<in> below fs k" using s qc(1) by (auto simp: below_def set_fs_children)
      show "card (below fs (q @ [s])) \<le> n" using card_below_child [OF clean_tree_D(1) [OF clean] qc(4) s] Suc.prems(2) by simp
    qed
    have "concat (map (visit n bp (children_map es (rel_path W k))) (map (\<lambda>s. rel_path W (q @ [s])) (fs_children fs q))) =
        map (snap_entry h fs W) (concat (map (\<lambda>s. sorted_list_of_set (below fs (q @ [s]))) (fs_children fs q)))"
      unfolding map_map map_concat comp_def by (intro arg_cong [where f = concat] map_cong refl) (rule kid)
    then show ?thesis
      using bp [OF Suc.prems(1)] described_children [OF clean W es Suc.prems(1)] below_sorted [OF clean_tree_D(1) [OF clean] qc(4)]
        entry_kind_of [of h W q x] x True by simp
  next
    case False
    have "below fs q = {q}" using tree_above [OF clean_tree_D(1) [OF clean], of q] x False by (auto simp: below_def prefix_def)
    then show ?thesis using bp [OF Suc.prems(1)] entry_kind_of [of h W q x] x False by simp
  qed
qed

lemma rel_path_inj_on: "clean_tree fs \<Longrightarrow> W \<noteq> [] \<Longrightarrow> prefix W k \<Longrightarrow> inj_on (rel_path W) (below fs k)"
  using rel_path_inject below_clean by (auto simp: inj_on_def)

lemma order_described:
  assumes clean: "clean_tree fs" and W: "W \<noteq> []" "prefix W k" and es: "describes h fs W k es"
  shows "order_snapshot_entries es (rel_path W k) = map (snap_entry h fs W) (sorted_list_of_set (below fs k))"
proof -
  let ?bp = "om_put_all (map (\<lambda>e. (se_path e, e)) es) []"
  have bp: "om_get ?bp = map_of (rev (map (\<lambda>e. (se_path e, e)) es))" by (simp add: om_laws)
  show ?thesis
  proof (cases "om_get fs k")
    case None
    then have "below fs k = {}" by (rule below_empty [OF clean_tree_D(1) [OF clean]])
    then show ?thesis using es by (simp add: describes_def order_snapshot_entries_def om.put_all_simps)
  next
    case (Some x)
    then have k: "k \<in> below fs k" by (simp add: below_def)
    have "length es = card (set (map se_path es))" using es distinct_card [of "map se_path es"] by (simp add: describes_def)
    also have "set (map se_path es) = rel_path W ` below fs k" using es by (force simp: describes_def)
    also have "card \<dots> = card (below fs k)" by (rule card_image [OF rel_path_inj_on [OF clean W]])
    finally have "card (below fs k) \<le> Suc (length es)" by simp
    moreover have "om_get ?bp (rel_path W q) = Some (snap_entry h fs W q)" if q: "q \<in> below fs k" for q
      unfolding bp
    proof (rule map_of_is_SomeI)
      show "distinct (map fst (rev (map (\<lambda>e. (se_path e, e)) es)))" using es by (simp add: describes_def comp_def flip: rev_map)
      have "snap_entry h fs W q \<in> set es" using es q by (auto simp: describes_def)
      then show "(rel_path W q, snap_entry h fs W q) \<in> set (rev (map (\<lambda>e. (se_path e, e)) es))" by force
    qed
    ultimately show ?thesis
      using visit_in_order [OF clean W es _ k, of ?bp "Suc (length es)"] by (simp add: order_snapshot_entries_def del: visit.simps)
  qed
qed

text \<open>The map of entries after some roots: the entries at and below them.\<close>

definition holds_entries :: "host \<Rightarrow> file_tree \<Rightarrow> segs \<Rightarrow> segs set \<Rightarrow> (jstr, entry_snapshot) omap \<Rightarrow> bool" where
  "holds_entries h fs W B m \<longleftrightarrow> om_wf m \<and> set m = (\<lambda>q. (rel_path W q, snap_entry h fs W q)) ` B"

lemma replay_snapshot:
  assumes clean: "clean_tree fs" and W: "W \<noteq> []" "prefix W k" "clean_path k"
    and m: "holds_entries h fs W B m" and B: "\<And>q. q \<in> B \<Longrightarrow> q \<in> below fs W"
  shows "holds_entries h fs W (B \<union> below fs k) (replay_root m (snapshot_of h fs W k))"
proof -
  let ?rest = "filter (\<lambda>p. \<not> is_path_within (fst p) (rel_path W k)) m"
  let ?kvs = "map (\<lambda>e. (se_path e, e)) (map (snap_entry h fs W) (sorted_list_of_set (below fs k)))"
  have within: "is_path_within (rel_path W q) (rel_path W k) \<longleftrightarrow> prefix k q" if "q \<in> below fs W" for q
    using within_rel_path [OF W(2,3)] below_clean(1,3) [OF clean that prefix_order.refl] by simp
  have kB: "below fs k \<subseteq> below fs W" using W(2) by (auto simp: below_def intro: prefix_order.trans)
  have rest: "set ?rest = (\<lambda>q. (rel_path W q, snap_entry h fs W q)) ` {q \<in> B. \<not> prefix k q}"
    using m within B by (auto simp: holds_entries_def)
  have fst_kvs: "map fst ?kvs = map (rel_path W) (sorted_list_of_set (below fs k))" by simp
  have "om_put_all ?kvs ?rest = ?rest @ ?kvs"
  proof (rule om_put_all_fresh)
    show "distinct (map fst ?kvs)" unfolding fst_kvs
      using rel_path_inj_on [OF clean W(1,2)] by (simp add: distinct_map)
    show "fst ` set ?kvs \<inter> fst ` set ?rest = {}"
    proof (rule ccontr)
      assume "fst ` set ?kvs \<inter> fst ` set ?rest \<noteq> {}"
      then obtain q r where "q \<in> below fs k" "r \<in> B" "\<not> prefix k r" "rel_path W q = rel_path W r"
        unfolding rest by auto
      then have "prefix k q" "is_path_within (rel_path W r) (rel_path W k)"
        using within [of q] kB by (auto simp: below_def)
      then show False using within [OF B [OF \<open>r \<in> B\<close>]] \<open>\<not> prefix k r\<close> by simp
    qed
  qed
  then have eq: "replay_root m (snapshot_of h fs W k) = ?rest @ ?kvs" by (simp add: replay_root_def snapshot_of_def Let_def)
  have "om_wf (replay_root m (snapshot_of h fs W k))"
    unfolding replay_root_def by (rule om.inv_put_all) (use m in \<open>simp add: holds_entries_def distinct_map_filter\<close>)
  moreover have "set (?rest @ ?kvs) = (\<lambda>q. (rel_path W q, snap_entry h fs W q)) ` (B \<union> below fs k)"
  proof -
    have "{q \<in> B. \<not> prefix k q} \<union> below fs k = B \<union> below fs k" using B by (auto simp: below_def)
    moreover have "set ?kvs = (\<lambda>q. (rel_path W q, snap_entry h fs W q)) ` below fs k" by (simp add: image_image)
    ultimately show ?thesis unfolding set_append rest by (metis image_Un)
  qed
  ultimately show ?thesis by (simp add: holds_entries_def eq)
qed

lemma replay_snapshots:
  assumes clean: "clean_tree fs" and W: "W \<noteq> []"
  shows "\<forall>k \<in> set ks. prefix W k \<and> clean_path k \<Longrightarrow> holds_entries h fs W B m \<Longrightarrow> B \<subseteq> below fs W \<Longrightarrow>
    holds_entries h fs W (B \<union> (\<Union>k \<in> set ks. below fs k)) (foldl replay_root m (map (snapshot_of h fs W) ks))"
proof (induction ks arbitrary: m B)
  case (Cons k ks)
  have "holds_entries h fs W (B \<union> below fs k) (replay_root m (snapshot_of h fs W k))"
    by (rule replay_snapshot [OF clean W _ _ Cons.prems(2)]) (use Cons.prems in auto)
  moreover have "B \<union> below fs k \<subseteq> below fs W" using Cons.prems(1,3) by (auto simp: below_def intro: prefix_order.trans)
  ultimately have "holds_entries h fs W ((B \<union> below fs k) \<union> (\<Union>k \<in> set ks. below fs k))
      (foldl replay_root (replay_root m (snapshot_of h fs W k)) (map (snapshot_of h fs W) ks))"
    using Cons.prems(1) by (intro Cons.IH) auto
  then show ?case by (simp add: Un_assoc)
qed simp

text \<open>Composing the transaction that left the tree gives the snapshots of that tree.\<close>

lemma compose_one:
  assumes clean: "clean_tree fs" and W: "W \<noteq> []" and ks: "\<forall>k \<in> set ks. prefix W k \<and> clean_path k"
    and post: "post_roots t = map (snapshot_of h fs W) ks"
  shows "set (compose_final_roots h [t]) \<subseteq> snapshot_of h fs W ` set ks"
proof -
  let ?m = "foldl replay_root [] (map (snapshot_of h fs W) ks)"
  have m: "holds_entries h fs W (\<Union>k \<in> set ks. below fs k) ?m"
    using replay_snapshots [OF clean W ks, of h "{}" "[]"] by (simp add: holds_entries_def)
  have one: "order_snapshot_entries (filter (\<lambda>e. is_path_within (se_path e) (rel_path W k)) (map snd ?m)) (rel_path W k)
      = map (snap_entry h fs W) (sorted_list_of_set (below fs k))" if k: "k \<in> set ks" for k
  proof (rule order_described [OF clean W])
    show "prefix W k" using ks k by simp
    have within: "is_path_within (rel_path W q) (rel_path W k) \<longleftrightarrow> prefix k q" if q: "q \<in> below fs k'" "k' \<in> set ks" for q k'
      using within_rel_path [of W k q] below_clean [OF clean q(1), of W] ks k q(2) by simp
    have snd_path: "se_path (snd p) = fst p" if "p \<in> set ?m" for p using m that by (auto simp: holds_entries_def)
    have "set (filter (\<lambda>e. is_path_within (se_path e) (rel_path W k)) (map snd ?m)) = snap_entry h fs W ` below fs k"
      using m within k by (auto simp: holds_entries_def image_iff) (force simp: below_def)+
    moreover have "distinct (map se_path (map snd ?m))"
    proof -
      have "map se_path (map snd ?m) = map fst ?m" using snd_path by simp
      then show ?thesis using m by (simp only: holds_entries_def)
    qed
    ultimately show "describes h fs W k (filter (\<lambda>e. is_path_within (se_path e) (rel_path W k)) (map snd ?m))"
      by (simp add: describes_def distinct_map_filter)
  qed
  have "map rs_path (post_roots t) = map (rel_path W) ks" by (simp add: post snapshot_of_def Let_def)
  then show ?thesis using one by (auto simp: compose_final_roots_def Let_def post snapshot_of_def)
qed

section \<open>Undoing the change just made\<close>

lemma capture_again:
  assumes "clean_tree fs" "W \<noteq> []" "root_ok fs W k"
  shows "capture_root h fs W (rel_path W k) blobs =
    (foldl (\<lambda>m c. write_blob h c m) blobs (file_contents h fs W k), Inr (snapshot_of h fs W k))"
proof (rule capture_root_real [OF assms(1,2) _ assms(3)])
  show "resolve_segs W (rel_path W k) = k"
    using relative_roundtrip(2) [of W k] assms(2,3) by (simp add: root_ok_def)
qed

lemma no_conflicts:
  assumes clean: "clean_tree fs" and W: "W \<noteq> []"
  shows "\<forall>r \<in> set rs. \<exists>k. r = snapshot_of h fs W k \<and> root_ok fs W k \<Longrightarrow> blobs_ok h blobs \<Longrightarrow>
    \<exists>bl. find_conflicts h fs W rs blobs = (bl, Inr []) \<and> blobs_ok h bl \<and> (\<forall>n c. om_get blobs n = Some c \<longrightarrow> om_get bl n = Some c)"
proof (induction rs arbitrary: blobs)
  case (Cons r rs)
  then obtain k where k: "r = snapshot_of h fs W k" "root_ok fs W k" by auto
  define bl where "bl = foldl (\<lambda>m c. write_blob h c m) blobs (file_contents h fs W k)"
  have head: "capture_root h fs W (rs_path r) blobs = (bl, Inr r)"
    using capture_again [OF clean W k(2), of h blobs] by (simp add: bl_def k(1)) (simp add: snapshot_of_def Let_def)
  have bl: "blobs_ok h bl" "\<forall>n c. om_get blobs n = Some c \<longrightarrow> om_get bl n = Some c"
    using blob_store.put_many [OF Cons.prems(2), of "file_contents h fs W k"] by (simp_all add: bl_def)
  obtain bl' where "find_conflicts h fs W rs bl = (bl', Inr [])" "blobs_ok h bl'" "\<forall>n c. om_get bl n = Some c \<longrightarrow> om_get bl' n = Some c"
    using Cons.IH [OF _ bl(1)] Cons.prems(1) by auto
  then show ?case using head bl(2) by auto
qed simp

lemma filter_sorted_single:
  assumes "filter P xs = [r]"
  shows "filter P (Sorting_Algorithms.sort cmp xs) = [r]"
proof -
  have "\<And>y. y \<in> set xs \<Longrightarrow> P y \<Longrightarrow> y = r" using arg_cong [OF assms, of set] by auto
  then have same: "filter P ys = filter P (stable_segment cmp r ys)" if "set ys = set xs" for ys
    using that unfolding filter_filter by (intro filter_cong) auto
  have "filter P (Sorting_Algorithms.sort cmp xs) = filter P (stable_segment cmp r (Sorting_Algorithms.sort cmp xs))"
    by (rule same) simp
  also have "\<dots> = filter P (stable_segment cmp r xs)" by (simp only: stable_sort)
  also have "\<dots> = [r]" using same [of xs] assms by simp
  finally show ?thesis .
qed

definition fresh_id :: "jstr \<Rightarrow> journal \<Rightarrow> bool" where
  "fresh_id i j \<longleftrightarrow> i \<notin> inactive_ids (j_maps j) \<and>
     list_all (\<lambda>(i', r). i' \<noteq> i \<and> transaction_id r \<noteq> i \<and> mut_run_id r \<noteq> i) (committed_map (j_maps j))"

lemma select_fresh:
  assumes "fresh_id i j" and "i \<noteq> []" and "committed_map (j_maps j1) = om_set i r (committed_map (j_maps j))"
    and "inactive_ids (j_maps j1) = inactive_ids (j_maps j)" and "transaction_id r = i"
  shows "select_mutations h (Some i) j1 = [r]"
proof -
  have absent: "i \<notin> set (om_keys (committed_map (j_maps j)))"
    and others: "\<forall>x \<in> set (map snd (committed_map (j_maps j))). transaction_id x \<noteq> i \<and> mut_run_id x \<noteq> i"
    using assms(1) by (auto simp: fresh_id_def list_all_iff)
  have vals: "map snd (committed_map (j_maps j1)) = map snd (committed_map (j_maps j)) @ [r]"
    using om_set_absent [OF absent, of r] assms(3) by simp
  have "filter (matches_target (Some i)) (filter (\<lambda>m. transaction_id m \<notin> inactive_ids (j_maps j1)) (map snd (committed_map (j_maps j1)))) = [r]"
    using others assms(1,4,5) unfolding vals by (auto simp: fresh_id_def matches_target_def)
  then show ?thesis
    using filter_sorted_single [of "matches_target (Some i)"] assms(2)
    by (simp only: select_mutations_def truthy_def j_list_active_def Let_def) simp
qed

text \<open>What recording an action that returns leaves, with the roots as they were and as they are.\<close>

lemma record_returns:
  assumes rec: "recordable h W paths (fs, j)" and act: "act fs = (fs1, Inr v)" and clean: "clean_tree fs1"
    and roots: "\<forall>k \<in> set (roots_of W paths). root_ok fs1 W k"
  shows "\<exists>bl pre post m. pre = map (snapshot_of h fs W) (roots_of W paths) \<and> post = map (snapshot_of h fs1 W) (roots_of W paths) \<and>
    m = create_prepared uuid now run tool pre j \<and> blobs_ok h bl \<and> (\<forall>k \<in> set (roots_of W paths). stored_below h bl fs k) \<and>
    (\<exists>j1. record_mutation h uuid now W run tool paths act (fs, j) = ((fs1, j1), Inr v) \<and> j_blobs j1 = bl \<and>
      (if same_roots pre post
       then inactive_ids (j_maps j1) = insert (transaction_id m) (inactive_ids (j_maps j)) \<and> committed_map (j_maps j1) = committed_map (j_maps j)
       else inactive_ids (j_maps j1) = inactive_ids (j_maps j) \<and>
            committed_map (j_maps j1) = om_set (transaction_id m) (with_post m post) (committed_map (j_maps j))))"
proof -
  let ?pre = "map (snapshot_of h fs W) (roots_of W paths)" and ?post = "map (snapshot_of h fs1 W) (roots_of W paths)"
  obtain ts where ts: "map_err (check_writable fs W) (unique_roots paths) = Inr ts" using recordable_check [OF rec] by auto
  obtain blobs where bl: "blobs_ok h blobs" "\<forall>k \<in> set (roots_of W paths). stored_below h blobs fs k"
      "capture_roots h fs W (unique_roots paths) (j_blobs j) = (blobs, Inr ?pre)"
    using record_prepares [OF rec] by auto
  have W: "W \<noteq> []" using rec by (simp add: recordable_def)
  have "\<forall>p \<in> set (unique_roots paths). root_ok fs1 W (resolve_segs W p)" using roots by (simp add: roots_of_def)
  from capture_roots_real [OF clean W this bl(1)]
  obtain blobs' where bl': "capture_roots h fs1 W (unique_roots paths) blobs = (blobs', Inr ?post)" "blobs_ok h blobs'"
      "\<forall>n c. om_get blobs n = Some c \<longrightarrow> om_get blobs' n = Some c"
    by (auto simp: roots_of_def comp_def)
  define m where "m = create_prepared uuid now run tool ?pre j"
  have m1: "create_prepared uuid now run tool ?pre (j\<lparr>j_blobs := blobs\<rparr>) = m" by (simp add: m_def create_prepared_def)
  have mpre: "pre_roots m = ?pre" by (simp add: m_def create_prepared_def)
  define j2 where "j2 = append_prepared m (j\<lparr>j_blobs := blobs\<rparr>)"
  have j2: "j_blobs j2 = blobs" "committed_map (j_maps j2) = committed_map (j_maps j)" "inactive_ids (j_maps j2) = inactive_ids (j_maps j)"
      "om_get (prepared_map (j_maps j2)) (transaction_id m) = Some m"
    by (simp_all add: j2_def append_prepared_def append_event_def Let_def om_laws)
  have step: "record_mutation h uuid now W run tool paths act (fs, j) =
      (let j3 = j2\<lparr>j_blobs := blobs'\<rparr>
       in if same_roots ?pre ?post then ((fs1, append_rolled_back (transaction_id m) (asc ''no-change'') j3), Inr v)
          else (case append_committed (transaction_id m) ?post j3 of
                  (j4, Inl e) \<Rightarrow> undo_failed W m e (fs1, j4) | (j4, Inr r) \<Rightarrow> ((fs1, j4), Inr v)))"
    using ts bl(3) bl'(1) act by (simp add: record_mutation_def prepare_mutation_def m1 j2_def [symmetric] j2(1) Let_def mpre)
  have stored: "\<forall>k \<in> set (roots_of W paths). stored_below h blobs' fs k" using bl(2) bl'(3) by (auto simp: stored_below_def)
  define j1 where "j1 = (if same_roots ?pre ?post then append_rolled_back (transaction_id m) (asc ''no-change'') (j2\<lparr>j_blobs := blobs'\<rparr>)
      else fst (append_committed (transaction_id m) ?post (j2\<lparr>j_blobs := blobs'\<rparr>)))"
  have "record_mutation h uuid now W run tool paths act (fs, j) = ((fs1, j1), Inr v)"
    using j2(4) unfolding step by (auto simp: j1_def append_committed_def append_event_def Let_def)
  moreover have "j_blobs j1 = blobs'" and "if same_roots ?pre ?post
       then inactive_ids (j_maps j1) = insert (transaction_id m) (inactive_ids (j_maps j)) \<and> committed_map (j_maps j1) = committed_map (j_maps j)
       else inactive_ids (j_maps j1) = inactive_ids (j_maps j) \<and>
            committed_map (j_maps j1) = om_set (transaction_id m) (with_post m ?post) (committed_map (j_maps j))"
    using j2 by (auto simp: j1_def append_rolled_back_def append_committed_def append_event_def Let_def)
  ultimately show ?thesis using bl'(2) stored m_def by blast
qed

lemma with_post_simps [simp]: "transaction_id (with_post m p) = transaction_id m" "pre_roots (with_post m p) = pre_roots m"
  "post_roots (with_post m p) = p" "mut_run_id (with_post m p) = mut_run_id m"
  by (simp_all add: with_post_def prepared_mutation.defs)

text \<open>
  C35. A change can be undone right after it was made: unless its roots hash as before, the
  transaction is active, undoing it by its id meets no conflict, and everything at and below its
  roots is what it was before the change. Overlapping roots and links among the entries are included.
\<close>

theorem undo_takes_back_the_change:
  assumes rec: "recordable h W paths (fs, j)" and act: "act fs = (fs1, Inr v)" and clean: "clean_tree fs1"
    and roots: "\<forall>k \<in> set (roots_of W paths). root_ok fs1 W k" and fresh: "fresh_id (asc ''mutation-'' @ uuid) j"
  shows "case record_mutation h uuid now W run tool paths act (fs, j) of ((fs', j1), r) \<Rightarrow>
    fs' = fs1 \<and> r = Inr v \<and>
    (if same_roots (map (snapshot_of h fs W) (roots_of W paths)) (map (snapshot_of h fs1 W) (roots_of W paths))
     then j_list_active h j1 = j_list_active h j
     else case undo h later W (Some (asc ''mutation-'' @ uuid)) (fs1, j1) of ((fs2, j2), r') \<Rightarrow>
       (\<exists>files. r' = Inr \<lparr>undone_transactions = [asc ''mutation-'' @ uuid], undone_files = files\<rparr>) \<and>
       (\<forall>k \<in> set (roots_of W paths). \<forall>q. prefix k q \<longrightarrow> om_get fs2 q = om_get fs q) \<and>
       asc ''mutation-'' @ uuid \<notin> set (map transaction_id (j_list_active h j2)))"
proof -
  let ?pre = "map (snapshot_of h fs W) (roots_of W paths)" and ?post = "map (snapshot_of h fs1 W) (roots_of W paths)"
  let ?id = "asc ''mutation-'' @ uuid"
  define m where "m = create_prepared uuid now run tool ?pre j"
  obtain bl j1 where ok: "blobs_ok h bl" "\<forall>k \<in> set (roots_of W paths). stored_below h bl fs k"
      "record_mutation h uuid now W run tool paths act (fs, j) = ((fs1, j1), Inr v)" "j_blobs j1 = bl"
      "if same_roots ?pre ?post
       then inactive_ids (j_maps j1) = insert (transaction_id m) (inactive_ids (j_maps j)) \<and> committed_map (j_maps j1) = committed_map (j_maps j)
       else inactive_ids (j_maps j1) = inactive_ids (j_maps j) \<and>
            committed_map (j_maps j1) = om_set (transaction_id m) (with_post m ?post) (committed_map (j_maps j))"
    using record_returns [where act = act and fs = fs and ?fs1.0 = fs1 and v = v and uuid = uuid and now = now and run = run and tool = tool, OF rec act clean roots] unfolding m_def by blast
  have m: "transaction_id m = ?id" "pre_roots m = ?pre" by (simp_all add: m_def create_prepared_def)
  have W: "W \<noteq> []" "clean_tree fs" using rec by (simp_all add: recordable_def)
  show ?thesis
  proof (cases "same_roots ?pre ?post")
    case True
    have "\<forall>x \<in> set (map snd (committed_map (j_maps j))). transaction_id x \<noteq> ?id"
      using fresh by (auto simp: fresh_id_def list_all_iff)
    then have "j_list_active h j1 = j_list_active h j"
      using ok(5) True by (auto simp: j_list_active_def m(1) intro!: arg_cong [where f = "Sorting_Algorithms.sort _"] filter_cong)
    then show ?thesis using ok(3) True by simp
  next
    case False
    then have j1: "inactive_ids (j_maps j1) = inactive_ids (j_maps j)"
      "committed_map (j_maps j1) = om_set ?id (with_post m ?post) (committed_map (j_maps j))" using ok(5) m(1) by simp_all
    have sel: "select_mutations h (Some ?id) j1 = [with_post m ?post]"
      by (rule select_fresh [OF fresh _ j1(2,1)]) (simp_all add: m(1))
    have ks: "\<forall>k \<in> set (roots_of W paths). prefix W k \<and> clean_path k \<and> open_above fs k \<and> open_above fs1 k \<and> stored_below h bl fs k"
      using rec roots ok(2) by (auto simp: recordable_def root_ok_def)
    have snaps: "\<forall>r \<in> set (compose_final_roots h [with_post m ?post]). \<exists>k. r = snapshot_of h fs1 W k \<and> root_ok fs1 W k"
    proof -
      have "set (compose_final_roots h [with_post m ?post]) \<subseteq> snapshot_of h fs1 W ` set (roots_of W paths)"
        by (rule compose_one [OF clean W(1)]) (use ks in simp_all)
      then show ?thesis using roots by blast
    qed
    obtain bl' where bl': "find_conflicts h fs1 W (compose_final_roots h [with_post m ?post]) bl = (bl', Inr [])"
        "\<forall>n c. om_get bl n = Some c \<longrightarrow> om_get bl' n = Some c"
      using no_conflicts [OF clean W(1) snaps ok(1)] by auto
    have ks': "\<forall>k \<in> set (roots_of W paths). prefix W k \<and> clean_path k \<and> open_above fs k \<and> open_above fs1 k \<and> stored_below h bl' fs k"
      using ks bl'(2) by (auto simp: stored_below_def)
    have host: "host_ok h" using ok(1) by (simp add: blobs_ok_def)
    obtain fs2 where fs2: "restore_roots bl' W ?pre fs1 = (fs2, Inr ())"
        "\<forall>k \<in> set (roots_of W paths). \<forall>q. prefix k q \<longrightarrow> om_get fs2 q = om_get fs q"
      using restore_roots_captured [OF W(2) clean_tree_D(1) [OF clean] W(1) ks' host] by auto
    define j2 where "j2 = append_undone later ?id (j1\<lparr>j_blobs := bl'\<rparr>)"
    have undone: "undo h later W (Some ?id) (fs1, j1) = ((fs2, j2), Inr \<lparr>undone_transactions = [?id], undone_files = uniq_first (map rs_path ?pre)\<rparr>)"
      using sel bl'(1) fs2(1) by (simp add: undo_def undo_one_def assert_transactions_can_undo_def ok(4) m j2_def Let_def)
    have "?id \<notin> set (map transaction_id (j_list_active h j2))"
      by (auto simp: j_list_active_def j2_def append_undone_def Let_def)
    then show ?thesis using ok(3) False undone fs2(2) by simp
  qed
qed

section \<open>Concrete runs\<close>

definition demo_host :: host where
  "demo_host = \<lparr>sha = (\<lambda>b. 1 # b), utf8 = (\<lambda>s. s), collate = Comparator.flat\<rparr>"

definition demo_root :: segs where "demo_root = [asc ''w'']"

definition demo_tree :: file_tree where
  "demo_tree = [([], DirNode), (demo_root, DirNode), (demo_root @ [asc ''a''], FileNode [1])]"

definition demo_journal :: journal where
  "demo_journal = \<lparr>j_root = path_string demo_root, j_maps = empty_maps, j_file = empty_log, j_blobs = []\<rparr>"

text \<open>Saving the file \<open>a\<close>, with or without an error afterwards.\<close>

definition demo_save :: "bytes \<Rightarrow> file_tree \<Rightarrow> file_tree \<times> (js_error + unit)" where
  "demo_save b fs = fs_write (demo_root @ [asc ''a'']) b fs"

definition demo_crash :: "bytes \<Rightarrow> file_tree \<Rightarrow> file_tree \<times> (js_error + unit)" where
  "demo_crash b fs = (fst (demo_save b fs), Inl (errno ''EIO''))"

lemma demo_host_ok: "host_ok demo_host" "blobs_ok demo_host []"
  by (simp_all add: host_ok_def blobs_ok_def demo_host_def inj_def)

lemma demo_recordable: "recordable demo_host demo_root [asc ''a''] (demo_tree, demo_journal)"
proof -
  have "clean_tree demo_tree" by code_simp
  moreover have "roots_of demo_root [asc ''a''] = [demo_root @ [asc ''a'']]" by code_simp
  moreover have "open_above demo_tree (demo_root @ [asc ''a''])" unfolding open_above_code by code_simp
  moreover have "prefix demo_root (demo_root @ [asc ''a''])" "demo_root \<noteq> []" "clean_path (demo_root @ [asc ''a''])" by code_simp+
  moreover have "om_get demo_tree (demo_root @ [asc ''a'']) = Some (FileNode [1])" by code_simp
  moreover have "list_all (\<lambda>p. case check_writable demo_tree demo_root p of Inl e \<Rightarrow> False | Inr t \<Rightarrow> True) (unique_roots [asc ''a''])"
    by code_simp
  ultimately show ?thesis using demo_host_ok by (simp add: recordable_def root_ok_def demo_journal_def)
qed

theorem failed_change_is_taken_back_witness:
  "case record_mutation demo_host (asc ''1'') (asc ''t'') demo_root (asc ''r'') WriteTool [asc ''a''] (demo_crash [2]) (demo_tree, demo_journal)
     of ((fs2, j2), r) \<Rightarrow> r = Inl (errno ''EIO'') \<and> om_get fs2 (demo_root @ [asc ''a'']) = Some (FileNode [1])"
proof -
  have act: "demo_crash [2] demo_tree = (fst (demo_save [2] demo_tree), Inl (errno ''EIO''))" by (simp add: demo_crash_def)
  have rts: "roots_of demo_root [asc ''a''] = [demo_root @ [asc ''a'']]" by code_simp
  have "tree_wf (fst (demo_save [2] demo_tree))" by code_simp
  moreover have "open_above (fst (demo_save [2] demo_tree)) (demo_root @ [asc ''a''])" unfolding open_above_code by code_simp
  ultimately have "roots_reachable demo_root [asc ''a''] (fst (demo_save [2] demo_tree))" by (simp add: roots_reachable_def rts)
  from failed_change_is_taken_back [where act = "demo_crash [2]" and uuid = "asc ''1''" and now = "asc ''t''" and run = "asc ''r''" and tool = WriteTool,
      OF demo_recordable act this]
  have "case record_mutation demo_host (asc ''1'') (asc ''t'') demo_root (asc ''r'') WriteTool [asc ''a''] (demo_crash [2]) (demo_tree, demo_journal)
     of ((fs2, j2), r) \<Rightarrow> r = Inl (errno ''EIO'') \<and> om_get fs2 (demo_root @ [asc ''a'']) = om_get demo_tree (demo_root @ [asc ''a''])"
    by (auto simp: rts split: prod.splits)
  moreover have "om_get demo_tree (demo_root @ [asc ''a'']) = Some (FileNode [1])" by code_simp
  ultimately show ?thesis by simp
qed

theorem undo_takes_back_the_change_witness:
  "case record_mutation demo_host (asc ''1'') (asc ''t'') demo_root (asc ''r'') WriteTool [asc ''a''] (demo_save [2]) (demo_tree, demo_journal)
     of ((fs1, j1), r) \<Rightarrow> om_get fs1 (demo_root @ [asc ''a'']) = Some (FileNode [2]) \<and>
       om_get (fst (fst (undo demo_host (asc ''u'') demo_root (Some (asc ''mutation-1'')) (fs1, j1)))) (demo_root @ [asc ''a'']) = Some (FileNode [1])"
proof -
  let ?k = "demo_root @ [asc ''a'']"
  have act: "demo_save [2] demo_tree = (fst (demo_save [2] demo_tree), Inr ())" by code_simp
  have rts: "roots_of demo_root [asc ''a''] = [?k]" by code_simp
  have clean: "clean_tree (fst (demo_save [2] demo_tree))" by code_simp
  have saved: "om_get (fst (demo_save [2] demo_tree)) ?k = Some (FileNode [2])" by code_simp
  have "open_above (fst (demo_save [2] demo_tree)) ?k" unfolding open_above_code by code_simp
  moreover have "prefix demo_root ?k" "clean_path ?k" by code_simp+
  ultimately have roots: "\<forall>k \<in> set (roots_of demo_root [asc ''a'']). root_ok (fst (demo_save [2] demo_tree)) demo_root k"
    using saved by (simp add: rts root_ok_def)
  have fresh: "fresh_id (asc ''mutation-'' @ asc ''1'') demo_journal" by (simp add: fresh_id_def demo_journal_def empty_maps_def)
  have changed: "\<not> same_roots (map (snapshot_of demo_host demo_tree demo_root) (roots_of demo_root [asc ''a'']))
      (map (snapshot_of demo_host (fst (demo_save [2] demo_tree)) demo_root) (roots_of demo_root [asc ''a'']))"
  proof -
    have "root_ok demo_tree demo_root ?k" using demo_recordable by (simp add: recordable_def rts)
    note c0 = capture_again [OF _ _ this, of demo_host "[]"] and c1 = capture_again [OF clean _ roots [unfolded rts, simplified], of demo_host "[]"]
    have "clean_tree demo_tree" "demo_root \<noteq> []" by code_simp+
    then have "snd (capture_root demo_host demo_tree demo_root (rel_path demo_root ?k) []) = Inr (snapshot_of demo_host demo_tree demo_root ?k)"
      "snd (capture_root demo_host (fst (demo_save [2] demo_tree)) demo_root (rel_path demo_root ?k) []) = Inr (snapshot_of demo_host (fst (demo_save [2] demo_tree)) demo_root ?k)"
      using c0 c1 by simp_all
    moreover have "map_sum id rs_hash (snd (capture_root demo_host demo_tree demo_root (rel_path demo_root ?k) [])) \<noteq>
        map_sum id rs_hash (snd (capture_root demo_host (fst (demo_save [2] demo_tree)) demo_root (rel_path demo_root ?k) []))"
      by code_simp
    ultimately show ?thesis by (simp add: same_roots_def rts)
  qed
  have one: "asc ''mutation-'' @ asc ''1'' = asc ''mutation-1''" by code_simp
  from undo_takes_back_the_change [where act = "demo_save [2]" and now = "asc ''t''" and run = "asc ''r''" and tool = WriteTool and later = "asc ''u''",
      OF demo_recordable act clean roots fresh] changed
  show ?thesis unfolding one using saved
    by (auto simp: rts demo_tree_def split: prod.splits)
qed

end
