(* ===== verification/Mutation_Recovery.thy ===== *)
theory Mutation_Recovery
  imports Mutation_Undo
begin

text \<open>
  What a restart does with a journal: recovery after a crash, the last line that a crash tore, and the
  coordinator that keeps one service per root with the recorder of the tools on top
  (\<open>MutationCoordinator\<close> in \<open>mutations/mutationService.ts\<close>, \<open>tools/builtin/mutationRecorder.ts\<close>).
\<close>

section \<open>Recovery\<close>

lemma open_journal_Inr:
  "open_journal str rt f blobs = Inr j \<longleftrightarrow>
     fold_err (load_line str) empty_maps (log_lines f) = Inr (j_maps j) \<and> j_root j = rt \<and> j_file j = f \<and> j_blobs j = blobs"
  by (cases j) (auto simp: open_journal_def split: sum.splits)

lemma rolled_back_maps:
  "j_maps (append_rolled_back i r j) = load_event (j_maps j) (RolledBack i r)"
  "j_blobs (append_rolled_back i r j) = j_blobs j" "j_root (append_rolled_back i r j) = j_root j"
  "j_file (append_rolled_back i r j) = append_line (event_line (RolledBack i r)) (j_file j)"
  by (simp_all add: append_rolled_back_def append_event_def load_event_def Let_def)

lemma recover_one_ok:
  "recover_one W m (fs, j) = ((fs', j'), Inr ()) \<longleftrightarrow>
     restore_roots (j_blobs j) W (pre_roots m) fs = (fs', Inr ()) \<and> j' = append_rolled_back (transaction_id m) (asc ''recovered-incomplete'') j"
  by (auto simp: recover_one_def split: prod.splits sum.splits)

text \<open>After recovery nothing is pending, and the log says so when its last line was complete.\<close>

lemma recover_all:
  "for_each (recover_one W) ms (fs, j) = ((fs', j'), Inr ()) \<Longrightarrow>
   fold_err (load_line str) empty_maps (log_lines (j_file j)) = Inr (j_maps j) \<Longrightarrow> open_line (j_file j) = None \<Longrightarrow>
   fold_err (load_line str) empty_maps (log_lines (j_file j')) = Inr (j_maps j') \<and> open_line (j_file j') = None \<and>
   j_root j' = j_root j \<and> j_blobs j' = j_blobs j \<and>
   prepared_map (j_maps j') = filter (\<lambda>p. fst p \<notin> transaction_id ` set ms) (prepared_map (j_maps j))"
proof (induction ms arbitrary: fs j)
  case (Cons m ms)
  obtain fs1 j1 where one: "recover_one W m (fs, j) = ((fs1, j1), Inr ())" "for_each (recover_one W) ms (fs1, j1) = ((fs', j'), Inr ())"
    using Cons.prems(1) by (auto split: prod.splits sum.splits)
  have j1: "j1 = append_rolled_back (transaction_id m) (asc ''recovered-incomplete'') j" using one(1) by (simp add: recover_one_ok)
  have log: "fold_err (load_line str) empty_maps (log_lines (j_file j1)) = Inr (j_maps j1) \<and> open_line (j_file j1) = None"
    unfolding j1 rolled_back_maps using mutation_log.reads_after_append [OF Cons.prems(2,3)] by simp
  have "prepared_map (j_maps j1) = om_del (transaction_id m) (prepared_map (j_maps j))" by (simp add: j1 rolled_back_maps load_event_def)
  then show ?case using Cons.IH [OF one(2)] log by (simp add: j1 rolled_back_maps om_del_def conj_commute)
qed simp

text \<open>
  C36. A change that a crash cut off is taken back at the next start: whatever tree the process left
  while the action ran (with directories where the roots need them), opening the service on the journal
  as it was then succeeds, brings back everything at and below the roots, and leaves nothing pending,
  also for the start after that.
\<close>

theorem crash_is_recovered:
  assumes rec: "recordable h W paths (fs, j)" and reach: "roots_reachable W paths fs1"
    and own: "open_journal str (path_string W) (j_file j) (j_blobs j) = Inr j" "open_line (j_file j) = None" "j_list_incomplete j = []"
  shows "case prepare_mutation h uuid now W run tool (unique_roots paths) (fs, j) of
      (s, Inl e) \<Rightarrow> False
    | ((fs', j2), Inr m) \<Rightarrow>
        (case open_service str W (j_file j2) (j_blobs j2) fs1 of
           (fs2, Inl e) \<Rightarrow> False
         | (fs2, Inr j3) \<Rightarrow>
             (\<forall>k \<in> set (roots_of W paths). \<forall>q. prefix k q \<longrightarrow> om_get fs2 q = om_get fs q) \<and>
             j_list_incomplete j3 = [] \<and> open_service str W (j_file j3) (j_blobs j3) fs2 = (fs2, Inr j3))"
proof -
  obtain ts where ts: "map_err (check_writable fs W) (unique_roots paths) = Inr ts" using recordable_check [OF rec] by auto
  obtain blobs where bl: "blobs_ok h blobs" "\<forall>k \<in> set (roots_of W paths). stored_below h blobs fs k"
      "capture_roots h fs W (unique_roots paths) (j_blobs j) = (blobs, Inr (map (snapshot_of h fs W) (roots_of W paths)))"
    using record_prepares [OF rec] by auto
  define m where "m = create_prepared uuid now run tool (map (snapshot_of h fs W) (roots_of W paths)) (j\<lparr>j_blobs := blobs\<rparr>)"
  define j2 where "j2 = append_prepared m (j\<lparr>j_blobs := blobs\<rparr>)"
  have prep: "prepare_mutation h uuid now W run tool (unique_roots paths) (fs, j) = ((fs, j2), Inr m)"
    using ts bl(3) by (simp add: prepare_mutation_def m_def j2_def Let_def)
  have m: "pre_roots m = map (snapshot_of h fs W) (roots_of W paths)" by (simp add: m_def create_prepared_def)
  have fold0: "fold_err (load_line str) empty_maps (log_lines (j_file j)) = Inr (j_maps j)" "j_root j = path_string W"
    using own(1) by (simp_all add: open_journal_Inr)
  have empty: "prepared_map (j_maps j) = []" using own(3) by (simp add: j_list_incomplete_def)
  have maps2: "j_maps j2 = load_event (j_maps j) (Prepared m)" "j_file j2 = append_line (event_line (Prepared m)) (j_file j)" "j_blobs j2 = blobs"
    by (simp_all add: j2_def append_prepared_def append_event_def load_event_def Let_def)
  have fold2: "fold_err (load_line str) empty_maps (log_lines (j_file j2)) = Inr (j_maps j2)" "open_line (j_file j2) = None"
    unfolding maps2 using mutation_log.reads_after_append [OF fold0(1) own(2)] by simp_all
  have reopened: "open_journal str (path_string W) (j_file j2) (j_blobs j2) = Inr j2"
    using fold2(1) fold0(2) by (simp add: open_journal_Inr) (simp add: j2_def append_prepared_def append_event_def Let_def)
  have inc: "j_list_incomplete j2 = [m]" by (simp add: j_list_incomplete_def maps2 load_event_def empty)
  have W: "W \<noteq> []" "clean_tree fs" "host_ok h" using rec bl(1) by (simp_all add: recordable_def blobs_ok_def)
  have ks: "\<forall>k \<in> set (roots_of W paths). prefix W k \<and> clean_path k \<and> open_above fs k \<and> open_above fs1 k \<and> stored_below h blobs fs k"
    using rec reach bl(2) by (auto simp: recordable_def roots_reachable_def root_ok_def)
  obtain fs2 where fs2: "restore_roots blobs W (map (snapshot_of h fs W) (roots_of W paths)) fs1 = (fs2, Inr ())"
      "\<forall>k \<in> set (roots_of W paths). \<forall>q. prefix k q \<longrightarrow> om_get fs2 q = om_get fs q"
    using restore_roots_captured [OF W(2) _ W(1) ks W(3)] reach by (auto simp: roots_reachable_def)
  define j3 where "j3 = append_rolled_back (transaction_id m) (asc ''recovered-incomplete'') j2"
  have step: "for_each (recover_one W) [m] (fs1, j2) = ((fs2, j3), Inr ())"
    using fs2(1) by (simp add: recover_one_def maps2(3) m j3_def)
  have all: "fold_err (load_line str) empty_maps (log_lines (j_file j3)) = Inr (j_maps j3)" "j_root j3 = j_root j2" "prepared_map (j_maps j3) = []"
    using recover_all [OF step fold2] by (simp_all add: maps2 load_event_def empty)
  have "open_service str W (j_file j2) (j_blobs j2) fs1 = (fs2, Inr j3)"
    using step by (simp add: open_service_def reopened recover_incomplete_def inc)
  moreover have "open_journal str (path_string W) (j_file j3) (j_blobs j3) = Inr j3"
    using all(1,2) reopened by (simp add: open_journal_Inr)
  moreover have "j_list_incomplete j3 = []" using all(3) by (simp add: j_list_incomplete_def)
  ultimately show ?thesis using prep fs2(2) by (simp add: open_service_def recover_incomplete_def)
qed

theorem crash_is_recovered_witness:
  "case prepare_mutation demo_host (asc ''1'') (asc ''t'') demo_root (asc ''r'') WriteTool [asc ''a''] (demo_tree, demo_journal) of
      (s, Inl e) \<Rightarrow> False
    | ((fs', j2), Inr m) \<Rightarrow>
        om_get (fst (open_service (\<lambda>v. []) demo_root (j_file j2) (j_blobs j2) (fst (demo_save [2] fs')))) (demo_root @ [asc ''a''])
          = Some (FileNode [1])"
proof -
  let ?k = "demo_root @ [asc ''a'']"
  have rts: "roots_of demo_root [asc ''a''] = [?k]" by code_simp
  have uni: "unique_roots [asc ''a''] = [asc ''a'']" by code_simp
  have "tree_wf (fst (demo_save [2] demo_tree))" by code_simp
  moreover have "open_above (fst (demo_save [2] demo_tree)) ?k" unfolding open_above_code by code_simp
  ultimately have reach: "roots_reachable demo_root [asc ''a''] (fst (demo_save [2] demo_tree))" by (simp add: roots_reachable_def rts)
  have own: "open_journal (\<lambda>v. []) (path_string demo_root) (j_file demo_journal) (j_blobs demo_journal) = Inr demo_journal"
    "open_line (j_file demo_journal) = None" "j_list_incomplete demo_journal = []" by code_simp+
  have here: "fst (fst (prepare_mutation demo_host (asc ''1'') (asc ''t'') demo_root (asc ''r'') WriteTool [asc ''a''] (demo_tree, demo_journal))) = demo_tree"
    by code_simp
  have "om_get demo_tree ?k = Some (FileNode [1])" by code_simp
  with crash_is_recovered [where uuid = "asc ''1''" and now = "asc ''t''" and run = "asc ''r''" and tool = WriteTool, OF demo_recordable reach own] here
  show ?thesis unfolding rts uni by (auto split: prod.splits sum.splits)
qed

section \<open>Where the record falls short\<close>

text \<open>A directory with a file, then a file in a new directory inside, in one run.\<close>

definition demo_make :: "segs \<Rightarrow> jstr \<Rightarrow> bytes \<Rightarrow> file_tree \<Rightarrow> file_tree \<times> (js_error + unit)" where
  "demo_make d f b fs = fs_write (demo_root @ d @ [f]) b (fst (fs_mkdir_p (demo_root @ d) fs))"

definition demo_two_changes :: "service_state" where
  "demo_two_changes =
     fst (record_mutation demo_host (asc ''2'') (asc ''t'') demo_root (asc ''r'') WriteTool [asc ''d/n/y''] (demo_make [asc ''d'', asc ''n''] (asc ''y'') [3])
       (fst (record_mutation demo_host (asc ''1'') (asc ''s'') demo_root (asc ''r'') MoveTool [asc ''d''] (demo_make [asc ''d''] (asc ''x'') [2]) (demo_tree, demo_journal))))"

text \<open>A change cut off while its commit was being written.\<close>

definition demo_cut_off :: "service_state" where
  "demo_cut_off = fst (prepare_mutation demo_host (asc ''1'') (asc ''s'') demo_root (asc ''r'') WriteTool [asc ''a''] (demo_tree, demo_journal))"

definition demo_torn_log :: "mutation_event log_file" where
  "demo_torn_log = torn_append (event_line (Committed (asc ''mutation-1'') [])) (j_file (snd demo_cut_off))"


section \<open>The coordinator\<close>

record coordinator =
  co_services :: "(segs, journal) omap"

text \<open>Journals found on disk, for roots that have no service yet.\<close>

type_synonym stored_journals = "segs \<Rightarrow> mutation_event log_file \<times> (jstr, bytes) omap"

definition canonical_root :: "file_tree \<Rightarrow> segs \<Rightarrow> js_error + segs" where
  "canonical_root fs k = (if fs_exists fs k then fs_realpath fs k else Inr k)"

definition for_workspace ::
  "(json \<Rightarrow> jstr) \<Rightarrow> stored_journals \<Rightarrow> segs \<Rightarrow> file_tree \<times> coordinator \<Rightarrow> (file_tree \<times> coordinator) \<times> (js_error + segs \<times> journal)" where
  "for_workspace str stored k s =
     (case s of (fs, c) \<Rightarrow>
       case canonical_root fs k of
         Inl e \<Rightarrow> (s, Inl e)
       | Inr W \<Rightarrow>
           (case om_get (co_services c) W of
              Some j \<Rightarrow> (s, Inr (W, j))
            | None \<Rightarrow>
                (case open_service str W (fst (stored W)) (snd (stored W)) fs of
                   (fs', Inl e) \<Rightarrow> ((fs', c), Inl e)
                 | (fs', Inr j) \<Rightarrow> ((fs', c\<lparr>co_services := om_set W j (co_services c)\<rparr>), Inr (W, j)))))"

text \<open>\<open>commonAncestor\<close>: climb until the candidate is at or below; the file system root is above all.\<close>

function climb_to :: "segs \<Rightarrow> segs \<Rightarrow> segs" where
  "climb_to target current = (if prefix current target then current else climb_to target (butlast current))"
  by pat_completeness auto
termination
proof (relation "measure (length \<circ> snd)")
  fix target current :: segs
  assume "\<not> prefix current target"
  then show "((target, butlast current), target, current) \<in> measure (length \<circ> snd)" by (cases current) auto
qed simp

declare climb_to.simps [simp del]

definition common_ancestor :: "segs list \<Rightarrow> segs" where
  "common_ancestor ps = foldl (\<lambda>current p. climb_to p current) (hd ps) (tl ps)"

definition record_absolute ::
  "host \<Rightarrow> (json \<Rightarrow> jstr) \<Rightarrow> stored_journals \<Rightarrow> jstr \<Rightarrow> jstr \<Rightarrow> jstr \<Rightarrow> jstr \<Rightarrow> mutation_tool \<Rightarrow> jstr list \<Rightarrow>
   (file_tree \<Rightarrow> file_tree \<times> (js_error + 'a)) \<Rightarrow> file_tree \<times> coordinator \<Rightarrow> (file_tree \<times> coordinator) \<times> (js_error + 'a)" where
  "record_absolute h str stored cwd uuid now run tool paths act s =
     (let abs = uniq_first (map (\<lambda>p. abs_segments (path_resolve cwd [p])) paths)
      in if abs = [] then (s, Inl (plain_error (asc ''At least one mutation path is required'')))
         else let rt = common_ancestor (map butlast abs)
              in case for_workspace str stored rt s of
                   (s1, Inl e) \<Rightarrow> (s1, Inl e)
                 | ((fs, c), Inr (W, j)) \<Rightarrow>
                     (case record_mutation h uuid now W run tool
                             (map (\<lambda>k. if k = rt then asc ''.'' else js_join [slash] (drop (length rt) k)) abs) act (fs, j) of
                        ((fs', j'), r) \<Rightarrow> ((fs', c\<lparr>co_services := om_set W j' (co_services c)\<rparr>), r)))"

text \<open>
  One step of the loops of \<open>undo\<close> over the services concerned, in the state of that service. The loops
  run over roots that have one.
\<close>

definition on_service :: "(segs \<Rightarrow> service_state \<Rightarrow> service_state \<times> (js_error + 'a)) \<Rightarrow> segs \<Rightarrow>
  file_tree \<times> coordinator \<Rightarrow> (file_tree \<times> coordinator) \<times> (js_error + 'a)" where
  "on_service f W s =
     (case s of (fs, c) \<Rightarrow>
       case om_get (co_services c) W of
         None \<Rightarrow> (s, Inl (plain_error []))
       | Some j \<Rightarrow> (case f W (fs, j) of ((fs', j'), r) \<Rightarrow> ((fs', c\<lparr>co_services := om_set W j' (co_services c)\<rparr>), r)))"

fun undo_services :: "(segs \<Rightarrow> service_state \<Rightarrow> service_state \<times> (js_error + undo_result)) \<Rightarrow> segs list \<Rightarrow>
  file_tree \<times> coordinator \<Rightarrow> (file_tree \<times> coordinator) \<times> (js_error + undo_result list)" where
  "undo_services f [] s = (s, Inr [])"
| "undo_services f (W # Ws) s =
     (case on_service f W s of
        (s1, Inl e) \<Rightarrow> (s1, Inl e)
      | (s1, Inr r) \<Rightarrow> (case undo_services f Ws s1 of (s2, Inl e) \<Rightarrow> (s2, Inl e) | (s2, Inr rs) \<Rightarrow> (s2, Inr (r # rs))))"

definition merge_undo_results :: "undo_result list \<Rightarrow> undo_result" where
  "merge_undo_results rs =
     \<lparr>undone_transactions = concat (map undone_transactions rs), undone_files = uniq_first (concat (map undone_files rs))\<rparr>"

definition coordinator_candidates :: "host \<Rightarrow> coordinator \<Rightarrow> (segs \<times> mutation_record) list" where
  "coordinator_candidates h c = concat (map (\<lambda>(W, j). map (Pair W) (j_list_active h j)) (co_services c))"

definition coordinator_undo ::
  "host \<Rightarrow> jstr \<Rightarrow> jstr option \<Rightarrow> file_tree \<times> coordinator \<Rightarrow> (file_tree \<times> coordinator) \<times> (js_error + undo_result)" where
  "coordinator_undo h now target s =
     (let candidates = coordinator_candidates h (snd s);
          matching = (if truthy target then filter (\<lambda>p. matches_target target (snd p)) candidates
                      else js_slice_last 1 (Sorting_Algorithms.sort (key (created_at \<circ> snd) (collate h)) candidates))
      in if matching = [] then (s, Inl (plain_error (asc ''No reversible mutations'')))
         else if truthy target then
           (let Ws = uniq_first (map fst matching)
            in case for_each (on_service (\<lambda>W. assert_can_undo h W target)) Ws s of
                 (s1, Inl e) \<Rightarrow> (s1, Inl e)
               | (s1, Inr _) \<Rightarrow>
                   (case undo_services (\<lambda>W. undo h now W target) Ws s1 of
                      (s2, Inl e) \<Rightarrow> (s2, Inl e)
                    | (s2, Inr rs) \<Rightarrow> (s2, Inr (merge_undo_results rs))))
         else on_service (\<lambda>W. undo h now W (Some (transaction_id (snd (hd matching))))) (fst (hd matching)) s)"

section \<open>The recorder of the tools\<close>

record recorders =
  rec_workspace :: "(segs \<times> journal) option"
  rec_system :: "coordinator option"

definition record_tool_mutation ::
  "host \<Rightarrow> (json \<Rightarrow> jstr) \<Rightarrow> stored_journals \<Rightarrow> jstr \<Rightarrow> jstr \<Rightarrow> jstr \<Rightarrow> access_scope option \<Rightarrow> jstr \<Rightarrow> mutation_tool \<Rightarrow>
   jstr list \<Rightarrow> jstr list \<Rightarrow> (file_tree \<Rightarrow> file_tree \<times> (js_error + 'a)) \<Rightarrow>
   file_tree \<times> recorders option \<Rightarrow> (file_tree \<times> recorders option) \<times> (js_error + 'a)" where
  "record_tool_mutation h str stored cwd uuid now scope run tool display_paths absolute_paths act s =
     (case s of (fs, rs) \<Rightarrow>
       let system = (case rs of None \<Rightarrow> None | Some r \<Rightarrow> rec_system r);
           workspace = (case rs of None \<Rightarrow> None | Some r \<Rightarrow> rec_workspace r)
       in case (if scope = Some SystemScope then system else None) of
            Some c \<Rightarrow>
              (case record_absolute h str stored cwd uuid now run tool absolute_paths act (fs, c) of
                 ((fs', c'), r) \<Rightarrow> ((fs', map_option (\<lambda>x. x\<lparr>rec_system := Some c'\<rparr>) rs), r))
          | None \<Rightarrow>
              (case workspace of
                 Some (W, j) \<Rightarrow>
                   (case record_mutation h uuid now W run tool display_paths act (fs, j) of
                      ((fs', j'), r) \<Rightarrow> ((fs', map_option (\<lambda>x. x\<lparr>rec_workspace := Some (W, j')\<rparr>) rs), r))
               | None \<Rightarrow> (case act fs of (fs', r) \<Rightarrow> ((fs', rs), r))))"

lemma climb_to_above: "prefix (climb_to target current) current \<and> prefix (climb_to target current) target"
proof (induction target current rule: climb_to.induct)
  case (1 target current)
  then show ?case by (subst (1 2) climb_to.simps) (auto intro: prefix_order.trans prefixeq_butlast)
qed

lemma common_ancestor_above: "p \<in> set ps \<Longrightarrow> prefix (common_ancestor ps) p"
proof -
  have fold: "prefix (foldl (\<lambda>current p. climb_to p current) a qs) a \<and>
      (\<forall>q \<in> set qs. prefix (foldl (\<lambda>current p. climb_to p current) a qs) q)" for a qs
  proof (induction qs arbitrary: a)
    case (Cons q qs)
    then show ?case using climb_to_above [of q a] by (auto intro: prefix_order.trans)
  qed simp
  assume "p \<in> set ps"
  then show ?thesis using fold [of "hd ps" "tl ps"] by (cases ps) (auto simp: common_ancestor_def)
qed

end
