(* ===== verification/Line_Diff.thy ===== *)
theory Line_Diff
  imports Text_Preview "HOL-Library.Sublist"
begin

text \<open>
  The line diffs shown after a file was written (\<open>packages/core/src/tools/diffPreview.ts\<close>) and the
  line counts of a change (\<open>packages/core/src/tools/builtin/fileChangeStats.ts\<close>). Both rest on the same
  dynamic programme for the longest common subsequence, once with the whole table and once with
  two rolling rows. Limits and line numbers are natural numbers, as every caller passes them.
\<close>

section \<open>Lines\<close>

text \<open>\<open>splitContentLines\<close>, and \<open>splitLines\<close> of the other file: a final line end adds no line.\<close>

definition split_content_lines :: "jstr \<Rightarrow> jstr list" where
  "split_content_lines text =
     (if text = [] then []
      else let normalized = (if last text = 10 then butlast text else text)
           in if normalized = [] then [] else split_units (\<lambda>c. c = 10) normalized)"

definition count_lines :: "jstr \<Rightarrow> nat" where
  "count_lines text =
     (if text = [] then 0
      else let normalized = (if last text = 10 then butlast text else text)
           in if normalized = [] then 0 else length (split_units (\<lambda>c. c = 10) normalized))"

definition line_index_at :: "jstr \<Rightarrow> nat \<Rightarrow> nat" where
  "line_index_at content i = length (filter (\<lambda>c. c = 10) (take i content))"

section \<open>The table of longest common subsequences\<close>

text \<open>One row: \<open>left\<close> is the cell before, \<open>prev\<close> the rest of the row above from the diagonal on.\<close>

fun row_cells :: "'a \<Rightarrow> 'a list \<Rightarrow> nat \<Rightarrow> nat list \<Rightarrow> nat list" where
  "row_cells x (y # ys) left (diag # up # prev) =
     (let c = (if x = y then diag + 1 else max up left) in c # row_cells x ys c (up # prev))"
| "row_cells x ys left prev = []"

definition next_row :: "'a \<Rightarrow> 'a list \<Rightarrow> nat list \<Rightarrow> nat list" where
  "next_row x ys prev = 0 # row_cells x ys 0 prev"

fun table_rows :: "'a list \<Rightarrow> 'a list \<Rightarrow> nat list \<Rightarrow> nat list list" where
  "table_rows [] ys prev = [prev]"
| "table_rows (x # xs) ys prev = prev # table_rows xs ys (next_row x ys prev)"

definition dp_table :: "'a list \<Rightarrow> 'a list \<Rightarrow> nat list list" where
  "dp_table xs ys = table_rows xs ys (replicate (length ys + 1) 0)"

text \<open>\<open>longestCommonSubsequenceLength\<close> keeps the last row only.\<close>

definition longest_common_subsequence_length :: "'a list \<Rightarrow> 'a list \<Rightarrow> nat" where
  "longest_common_subsequence_length xs ys =
     (if xs = [] \<or> ys = [] then 0
      else foldl (\<lambda>prev x. next_row x ys prev) (replicate (length ys + 1) 0) xs ! length ys)"

section \<open>The edit script\<close>

datatype 'a edit = Keep 'a nat nat | Add 'a nat | Del 'a nat

text \<open>
  The loop walks back from the end of both texts and pushes; the result is reversed at the end, so
  pushing is consing here. The last branch of the source cannot be reached.
\<close>

function edit_back :: "'a list \<Rightarrow> 'a list \<Rightarrow> nat list list \<Rightarrow> nat \<Rightarrow> nat \<Rightarrow> 'a edit list \<Rightarrow> 'a edit list" where
  "edit_back xs ys dp i j acc =
     (if i = 0 \<and> j = 0 then acc
      else if 0 < i \<and> 0 < j \<and> xs ! (i - 1) = ys ! (j - 1)
           then edit_back xs ys dp (i - 1) (j - 1) (Keep (xs ! (i - 1)) i j # acc)
      else if 0 < j \<and> (i = 0 \<or> dp ! (i - 1) ! j \<le> dp ! i ! (j - 1))
           then edit_back xs ys dp i (j - 1) (Add (ys ! (j - 1)) j # acc)
      else if 0 < i then edit_back xs ys dp (i - 1) j (Del (xs ! (i - 1)) i # acc)
      else acc)"
  by pat_completeness auto
termination by (relation "measure (\<lambda>(xs, ys, dp, i, j, acc). i + j)") auto

declare edit_back.simps [simp del]

definition build_edit_script :: "'a list \<Rightarrow> 'a list \<Rightarrow> 'a edit list" where
  "build_edit_script xs ys = edit_back xs ys (dp_table xs ys) (length xs) (length ys) []"

section \<open>Preview lines\<close>

datatype diff_op = OpAdd | OpDel | OpMeta | OpCtx

record diff_line =
  dl_op :: diff_op
  dl_text :: jstr
  dl_line :: "nat option"

record diff_hunk =
  dh_old :: "nat option"
  dh_new :: "nat option"
  dh_lines :: "diff_line list"

record diff_preview =
  pv_lines :: "diff_line list"
  pv_hunks :: "diff_hunk list"
  pv_truncated :: bool
  pv_added :: nat
  pv_removed :: nat

record diff_options =
  do_max_lines :: "nat option"
  do_max_line_chars :: "nat option"
  do_max_lcs_cells :: "nat option"
  do_context_lines :: "nat option"
  do_file_content :: "jstr option"

definition or_default :: "nat \<Rightarrow> nat option \<Rightarrow> nat" where
  "or_default d v = (case v of Some n \<Rightarrow> n | None \<Rightarrow> d)"

definition default_max_lines :: nat where "default_max_lines = 56"
definition default_max_line_chars :: nat where "default_max_line_chars = 200"
definition default_max_lcs_cells :: nat where "default_max_lcs_cells = 200000"
definition default_context_lines :: nat where "default_context_lines = 3"

definition line_of_edit :: "jstr edit \<Rightarrow> diff_line" where
  "line_of_edit e = (case e of
     Keep x i j \<Rightarrow> \<lparr>dl_op = OpCtx, dl_text = x, dl_line = Some j\<rparr>
   | Del x i \<Rightarrow> \<lparr>dl_op = OpDel, dl_text = x, dl_line = Some i\<rparr>
   | Add x j \<Rightarrow> \<lparr>dl_op = OpAdd, dl_text = x, dl_line = Some j\<rparr>)"

definition is_keep :: "'a edit \<Rightarrow> bool" where
  "is_keep e = (case e of Keep _ _ _ \<Rightarrow> True | _ \<Rightarrow> False)"

definition kept_near_change :: "jstr edit list \<Rightarrow> nat \<Rightarrow> nat \<Rightarrow> bool" where
  "kept_near_change ops context k =
     list_ex (\<lambda>i. \<not> is_keep (ops ! i) \<and> i - context \<le> k \<and> k \<le> i + context) [0..<length ops]"

definition gap_line :: diff_line where
  "gap_line = \<lparr>dl_op = OpMeta, dl_text = [183, 183, 183], dl_line = None\<rparr>"

text \<open>The loop that drops the lines far from a change; \<open>gap\<close> is reset only when a mark is pushed.\<close>

fun context_lines_from :: "bool \<Rightarrow> diff_line list \<Rightarrow> (bool \<times> jstr edit) list \<Rightarrow> diff_line list" where
  "context_lines_from gap lines [] = lines"
| "context_lines_from gap lines ((kept, e) # rest) =
     (if \<not> kept then context_lines_from True lines rest
      else if gap \<and> lines \<noteq> [] then context_lines_from False (lines @ [gap_line, line_of_edit e]) rest
      else context_lines_from gap (lines @ [line_of_edit e]) rest)"

definition line_diff_with_context :: "jstr list \<Rightarrow> jstr list \<Rightarrow> nat \<Rightarrow> diff_line list" where
  "line_diff_with_context before after context =
     (let ops = build_edit_script before after
      in if context = 0 then map line_of_edit (filter (\<lambda>e. \<not> is_keep e) ops)
         else context_lines_from False [] (zip (map (kept_near_change ops context) [0..<length ops]) ops))"

definition line_diff_unified :: "jstr list \<Rightarrow> jstr list \<Rightarrow> diff_line list" where
  "line_diff_unified before after =
     filter (\<lambda>l. dl_op l = OpAdd \<or> dl_op l = OpDel) (line_diff_with_context before after 0)"

section \<open>Truncation and assembly\<close>

definition count_op :: "diff_op \<Rightarrow> diff_line list \<Rightarrow> nat" where
  "count_op p lines = length (filter (\<lambda>l. dl_op l = p) lines)"

definition plain_hunk :: "diff_line list \<Rightarrow> diff_hunk" where
  "plain_hunk lines = \<lparr>dh_old = None, dh_new = None, dh_lines = lines\<rparr>"

definition more_lines :: "nat \<Rightarrow> diff_line" where
  "more_lines n = \<lparr>dl_op = OpMeta, dl_text = [8230] @ asc '' +'' @ dec n @ asc '' more lines'', dl_line = None\<rparr>"

definition shortened :: "diff_line list \<Rightarrow> diff_line list \<Rightarrow> diff_preview" where
  "shortened kept lines = \<lparr>pv_lines = kept, pv_hunks = [plain_hunk kept], pv_truncated = True,
     pv_added = count_op OpAdd lines, pv_removed = count_op OpDel lines\<rparr>"

definition balanced_truncate :: "diff_line list \<Rightarrow> nat \<Rightarrow> diff_preview" where
  "balanced_truncate lines max_lines =
     (let head = take (max_lines - 1) lines @ [more_lines (length lines - (max_lines - 1))];
          dels = filter (\<lambda>l. dl_op l = OpDel) lines;
          adds = filter (\<lambda>l. dl_op l = OpAdd) lines;
          others = filter (\<lambda>l. dl_op l \<noteq> OpDel \<and> dl_op l \<noteq> OpAdd) lines
      in if length lines \<le> max_lines
         then \<lparr>pv_lines = lines, pv_hunks = [plain_hunk lines], pv_truncated = False,
               pv_added = count_op OpAdd lines, pv_removed = count_op OpDel lines\<rparr>
         else if list_ex (\<lambda>l. dl_op l = OpCtx) lines then shortened head lines
         else if dels \<noteq> [] \<and> adds \<noteq> [] \<and> 4 \<le> max_lines then
           (let budget = max_lines - 1;
                del_budget = max 1 (budget div 2);
                add_budget = max 1 (budget - del_budget);
                kept_dels = take del_budget dels;
                kept_adds = take add_budget adds;
                omitted = length dels - length kept_dels + (length adds - length kept_adds) + length others
            in shortened (kept_dels @ kept_adds @ [more_lines omitted]) lines)
         else shortened head lines)"

definition finalize_preview :: "diff_hunk list \<Rightarrow> diff_options \<Rightarrow> diff_preview" where
  "finalize_preview hunks opt =
     (let flat = concat (map dh_lines hunks);
          cut = balanced_truncate flat (or_default default_max_lines (do_max_lines opt))
      in \<lparr>pv_lines = pv_lines cut,
          pv_hunks = (if pv_truncated cut then [plain_hunk (pv_lines cut)] else hunks),
          pv_truncated = pv_truncated cut, pv_added = count_op OpAdd flat, pv_removed = count_op OpDel flat\<rparr>)"

definition clipped_line :: "diff_options \<Rightarrow> diff_op \<Rightarrow> jstr \<Rightarrow> nat option \<Rightarrow> diff_line" where
  "clipped_line opt p text n =
     \<lparr>dl_op = p, dl_text = ellipsis_cut (or_default default_max_line_chars (do_max_line_chars opt)) text, dl_line = n\<rparr>"

definition numbered :: "diff_options \<Rightarrow> diff_op \<Rightarrow> nat \<Rightarrow> jstr list \<Rightarrow> diff_line list" where
  "numbered opt p start lines = map2 (\<lambda>i text. clipped_line opt p text (Some (start + i + 1))) [0..<length lines] lines"

definition bare_replace_preview :: "diff_options \<Rightarrow> jstr list \<Rightarrow> jstr list \<Rightarrow> diff_preview" where
  "bare_replace_preview opt old_lines new_lines =
     finalize_preview [plain_hunk (map (\<lambda>t. clipped_line opt OpDel t None) old_lines
                                   @ map (\<lambda>t. clipped_line opt OpAdd t None) new_lines)] opt"

text \<open>
  The line after the block is numbered as the new file numbers it; the source adds the difference of
  the two lengths as a signed number, and the sum is never negative because the block starts at line 1.
\<close>

definition build_replace_diff_preview :: "jstr \<Rightarrow> jstr \<Rightarrow> diff_options \<Rightarrow> diff_preview" where
  "build_replace_diff_preview old_text new_text opt =
     (let context = or_default default_context_lines (do_context_lines opt);
          old_lines = split_content_lines old_text;
          new_lines = split_content_lines new_text;
          content = (case do_file_content opt of Some c \<Rightarrow> c | None \<Rightarrow> [])
      in if content = [] \<or> old_text = [] then bare_replace_preview opt old_lines new_lines
         else case js_index_from old_text content 0 of
           None \<Rightarrow> bare_replace_preview opt old_lines new_lines
         | Some idx \<Rightarrow>
             (let file_lines = split_content_lines content;
                  start = line_index_at content idx;
                  stop = start + length old_lines;
                  before = numbered opt OpCtx (start - context) (drop (start - context) (take start file_lines));
                  removed = numbered opt OpDel start old_lines;
                  added = numbered opt OpAdd start new_lines;
                  after = numbered opt OpCtx (stop + length new_lines - length old_lines) (take context (drop stop file_lines))
              in finalize_preview [\<lparr>dh_old = Some (start + 1), dh_new = Some (start + 1),
                                    dh_lines = before @ removed @ added @ after\<rparr>] opt))"

definition meta_preview :: "jstr \<Rightarrow> nat option \<Rightarrow> diff_preview" where
  "meta_preview text n =
     (let lines = [\<lparr>dl_op = OpMeta, dl_text = text, dl_line = None\<rparr>]
      in \<lparr>pv_lines = lines, pv_hunks = [\<lparr>dh_old = n, dh_new = n, dh_lines = lines\<rparr>], pv_truncated = False,
          pv_added = 0, pv_removed = 0\<rparr>)"

definition build_create_diff_preview :: "jstr \<Rightarrow> diff_options \<Rightarrow> diff_preview" where
  "build_create_diff_preview content opt =
     (let added = numbered opt OpAdd 0 (split_content_lines content)
      in if added = [] then meta_preview (asc ''(empty file)'') None else finalize_preview [plain_hunk added] opt)"

definition build_overwrite_diff_preview :: "jstr \<Rightarrow> jstr \<Rightarrow> diff_options \<Rightarrow> diff_preview" where
  "build_overwrite_diff_preview before after opt =
     (let a = split_content_lines before; b = split_content_lines after
      in if a = [] \<and> b = [] then meta_preview (asc ''(empty file)'') None
         else if or_default default_max_lcs_cells (do_max_lcs_cells opt) < length a * length b
         then build_replace_diff_preview before after (opt\<lparr>do_file_content := None\<rparr>)
         else let raw = map (\<lambda>l. clipped_line opt (dl_op l) (dl_text l) (dl_line l))
                          (line_diff_with_context a b (or_default default_context_lines (do_context_lines opt)))
              in if raw = [] then meta_preview (asc ''(no line changes)'') (Some 1)
                 else finalize_preview [\<lparr>dh_old = Some 1, dh_new = Some 1, dh_lines = raw\<rparr>] opt)"

section \<open>Line counts of a change\<close>

definition hunk_line_stats :: "jstr \<Rightarrow> jstr \<Rightarrow> nat \<Rightarrow> nat \<times> nat" where
  "hunk_line_stats old_text new_text occurrences =
     (count_lines new_text * max 1 occurrences, count_lines old_text * max 1 occurrences)"

definition line_diff_stats :: "jstr \<Rightarrow> jstr \<Rightarrow> nat \<times> nat" where
  "line_diff_stats before after =
     (let a = split_content_lines before; b = split_content_lines after
      in if a = [] \<and> b = [] then (0, 0)
         else if 200000 < length a * length b then (length b - length a, length a - length b)
         else let lcs = longest_common_subsequence_length a b in (length b - lcs, length a - lcs))"

definition format_line_delta :: "nat \<times> nat \<Rightarrow> jstr" where
  "format_line_delta stats =
     (if stats = (0, 0) then [177, 48]
      else js_join [32] ((if 0 < fst stats then [[43] @ dec (fst stats)] else [])
                         @ (if 0 < snd stats then [[45] @ dec (snd stats)] else [])))"

section \<open>The table holds the longest common subsequences\<close>

fun lcs_at :: "'a list \<Rightarrow> 'a list \<Rightarrow> nat \<Rightarrow> nat \<Rightarrow> nat" where
  "lcs_at xs ys 0 j = 0"
| "lcs_at xs ys (Suc i) 0 = 0"
| "lcs_at xs ys (Suc i) (Suc j) =
     (if xs ! i = ys ! j then Suc (lcs_at xs ys i j) else max (lcs_at xs ys i (Suc j)) (lcs_at xs ys (Suc i) j))"

lemma lcs_at_0 [simp]: "lcs_at xs ys i 0 = 0"
  by (cases i) simp_all

definition lcs_row :: "'a list \<Rightarrow> 'a list \<Rightarrow> nat \<Rightarrow> nat list" where
  "lcs_row xs ys i = map (lcs_at xs ys i) [0..<Suc (length ys)]"

lemma row_cells_lcs:
  assumes "k \<le> length ys"
  shows "row_cells (xs ! i) (drop k ys) (lcs_at xs ys (Suc i) k) (map (lcs_at xs ys i) [k..<Suc (length ys)])
    = map (lcs_at xs ys (Suc i)) [Suc k..<Suc (length ys)]"
  using assms
proof (induction "length ys - k" arbitrary: k)
  case 0
  then have "k = length ys" by simp
  then show ?case by simp
next
  case (Suc d)
  then have k: "k < length ys" by simp
  have "[k..<Suc (length ys)] = k # Suc k # [Suc (Suc k)..<Suc (length ys)]"
    using k by (simp add: upt_conv_Cons)
  moreover have "drop k ys = ys ! k # drop (Suc k) ys" using k by (simp add: Cons_nth_drop_Suc)
  moreover have "[Suc k..<Suc (length ys)] = Suc k # [Suc (Suc k)..<Suc (length ys)]" using k by (simp add: upt_conv_Cons)
  moreover have "row_cells (xs ! i) (drop (Suc k) ys) (lcs_at xs ys (Suc i) (Suc k)) (map (lcs_at xs ys i) [Suc k..<Suc (length ys)])
      = map (lcs_at xs ys (Suc i)) [Suc (Suc k)..<Suc (length ys)]"
    using Suc.hyps(1) [of "Suc k"] Suc.hyps(2) k by simp
  ultimately show ?case by (cases "xs ! i = ys ! k") (simp_all add: Let_def del: upt_Suc)
qed

lemma next_row_lcs: "next_row (xs ! i) ys (lcs_row xs ys i) = lcs_row xs ys (Suc i)"
  using row_cells_lcs [of 0 ys xs i] by (simp add: next_row_def lcs_row_def upt_conv_Cons del: upt_Suc)

lemma first_row_lcs: "replicate (length ys + 1) 0 = lcs_row xs ys 0"
proof -
  have "lcs_at xs ys 0 = (\<lambda>j. 0)" by (rule ext) simp
  then show ?thesis by (simp add: lcs_row_def map_replicate_const del: upt_Suc replicate_Suc)
qed

lemma table_rows_lcs: "i \<le> length xs \<Longrightarrow> table_rows (drop i xs) ys (lcs_row xs ys i) = map (lcs_row xs ys) [i..<Suc (length xs)]"
proof (induction "length xs - i" arbitrary: i)
  case (Suc d)
  then have i: "i < length xs" by simp
  have "drop i xs = xs ! i # drop (Suc i) xs" using i by (simp add: Cons_nth_drop_Suc)
  moreover have "[i..<Suc (length xs)] = i # [Suc i..<Suc (length xs)]" using i by (simp add: upt_conv_Cons)
  ultimately show ?case using Suc i by (simp add: next_row_lcs del: upt_Suc)
qed simp

lemma dp_table_nth: "i \<le> length xs \<Longrightarrow> j \<le> length ys \<Longrightarrow> dp_table xs ys ! i ! j = lcs_at xs ys i j"
  using table_rows_lcs [of 0 xs ys] unfolding dp_table_def first_row_lcs [of ys xs]
  by (simp add: lcs_row_def del: upt_Suc)

lemma foldl_rows: "i \<le> length xs \<Longrightarrow> foldl (\<lambda>prev x. next_row x ys prev) (lcs_row xs ys i) (drop i xs) = lcs_row xs ys (length xs)"
proof (induction "length xs - i" arbitrary: i)
  case (Suc d)
  then have i: "i < length xs" by simp
  have "drop i xs = xs ! i # drop (Suc i) xs" using i by (simp add: Cons_nth_drop_Suc)
  then show ?case using Suc i by (simp add: next_row_lcs)
qed simp

lemma rolling_rows: "longest_common_subsequence_length xs ys = lcs_at xs ys (length xs) (length ys)"
proof (cases "xs = [] \<or> ys = []")
  case False
  then show ?thesis
    using foldl_rows [of 0 xs ys] unfolding longest_common_subsequence_length_def first_row_lcs [of ys xs]
    by (simp add: lcs_row_def del: upt_Suc)
qed (auto simp: longest_common_subsequence_length_def)

lemma subseq_snoc_cases: "subseq zs (as @ [a]) \<Longrightarrow> subseq zs as \<or> (\<exists>us. zs = us @ [a] \<and> subseq us as)"
proof -
  assume "subseq zs (as @ [a])"
  then obtain us vs where "zs = us @ vs" "subseq us as" "subseq vs [a]" unfolding subseq_append_iff by blast
  then show ?thesis by (cases vs) (auto split: if_splits)
qed

lemma lcs_at_maximal:
  "i \<le> length xs \<Longrightarrow> j \<le> length ys \<Longrightarrow> subseq zs (take i xs) \<Longrightarrow> subseq zs (take j ys) \<Longrightarrow> length zs \<le> lcs_at xs ys i j"
proof (induction xs ys i j arbitrary: zs rule: lcs_at.induct)
  case (3 xs ys i j)
  have snoc: "take (Suc i) xs = take i xs @ [xs ! i]" "take (Suc j) ys = take j ys @ [ys ! j]"
    using "3.prems"(1,2) by (simp_all add: take_Suc_conv_app_nth)
  note x = subseq_snoc_cases [OF "3.prems"(3) [unfolded snoc(1)]] and y = subseq_snoc_cases [OF "3.prems"(4) [unfolded snoc(2)]]
  show ?case
  proof (cases "xs ! i = ys ! j")
    case True
    show ?thesis
    proof (cases zs rule: rev_cases)
      case (snoc us z)
      have cut: "subseq us zs" unfolding snoc by (rule subseq_rev_drop_many) simp
      have "subseq us (take i xs)" using x
      proof
        assume "subseq zs (take i xs)"
        with cut show ?thesis by (rule subseq_order.trans)
      qed (use snoc in auto)
      moreover have "subseq us (take j ys)" using y
      proof
        assume "subseq zs (take j ys)"
        with cut show ?thesis by (rule subseq_order.trans)
      qed (use snoc in auto)
      ultimately have "length us \<le> lcs_at xs ys i j" using "3.IH"(1) [OF True] "3.prems"(1,2) by simp
      then show ?thesis using True snoc by simp
    qed simp
  next
    case False
    with x y have "subseq zs (take i xs) \<or> subseq zs (take j ys)" by auto
    then show ?thesis
      using "3.IH"(2,3) [OF False] "3.prems" False by (auto simp: le_max_iff_disj)
  qed
qed simp_all

section \<open>The edit script is right and shortest\<close>

fun old_text :: "'a edit \<Rightarrow> 'a list" where
  "old_text (Keep x i j) = [x]" | "old_text (Del x i) = [x]" | "old_text (Add x j) = []"

fun new_text :: "'a edit \<Rightarrow> 'a list" where
  "new_text (Keep x i j) = [x]" | "new_text (Add x j) = [x]" | "new_text (Del x i) = []"

fun old_number :: "'a edit \<Rightarrow> nat list" where
  "old_number (Keep x i j) = [i]" | "old_number (Del x i) = [i]" | "old_number (Add x j) = []"

fun new_number :: "'a edit \<Rightarrow> nat list" where
  "new_number (Keep x i j) = [j]" | "new_number (Add x j) = [j]" | "new_number (Del x i) = []"

fun kept_text :: "'a edit \<Rightarrow> 'a list" where
  "kept_text (Keep x i j) = [x]" | "kept_text (Add x j) = []" | "kept_text (Del x i) = []"

abbreviation part :: "('a edit \<Rightarrow> 'b list) \<Rightarrow> 'a edit list \<Rightarrow> 'b list" where
  "part f es \<equiv> concat (map f es)"

text \<open>What the loop has pushed when it stands at \<open>(i, j)\<close> covers the rest of both texts.\<close>

definition covers :: "'a list \<Rightarrow> 'a list \<Rightarrow> nat \<Rightarrow> nat \<Rightarrow> 'a edit list \<Rightarrow> 'a edit list \<Rightarrow> bool" where
  "covers xs ys i j acc es \<longleftrightarrow>
     part old_text es = take i xs @ part old_text acc \<and> part new_text es = take j ys @ part new_text acc
     \<and> part old_number es = [1..<Suc i] @ part old_number acc \<and> part new_number es = [1..<Suc j] @ part new_number acc
     \<and> length (part kept_text es) = lcs_at xs ys i j + length (part kept_text acc)"

lemma upt_snoc_pos: "0 < i \<Longrightarrow> [1..<Suc i] = [1..<Suc (i - 1)] @ [i]"
  by (cases i) simp_all

lemma take_snoc_pos: "0 < i \<Longrightarrow> i \<le> length xs \<Longrightarrow> take i xs = take (i - 1) xs @ [xs ! (i - 1)]"
  by (cases i) (simp_all add: take_Suc_conv_app_nth)

lemma lcs_at_step:
  assumes "0 < i" and "0 < j"
  shows "lcs_at xs ys i j = (if xs ! (i - 1) = ys ! (j - 1) then Suc (lcs_at xs ys (i - 1) (j - 1))
    else max (lcs_at xs ys (i - 1) j) (lcs_at xs ys i (j - 1)))"
  using assms by (cases i; cases j) simp_all

lemma edit_back_covers:
  "i \<le> length xs \<Longrightarrow> j \<le> length ys \<Longrightarrow> covers xs ys i j acc (edit_back xs ys (dp_table xs ys) i j acc)"
proof (induction xs ys "dp_table xs ys" i j acc rule: edit_back.induct)
  case (1 xs ys i j acc)
  let ?dp = "dp_table xs ys"
  consider (stop) "i = 0 \<and> j = 0"
    | (keep) "0 < i" "0 < j" "xs ! (i - 1) = ys ! (j - 1)"
    | (add) "0 < j" "\<not> (0 < i \<and> xs ! (i - 1) = ys ! (j - 1))" "i = 0 \<or> ?dp ! (i - 1) ! j \<le> ?dp ! i ! (j - 1)"
    | (del) "0 < i" "\<not> (0 < j \<and> xs ! (i - 1) = ys ! (j - 1))" "j = 0 \<or> ?dp ! i ! (j - 1) < ?dp ! (i - 1) ! j"
    by (cases "i = 0"; cases "j = 0"; cases "xs ! (i - 1) = ys ! (j - 1)"; cases "?dp ! (i - 1) ! j \<le> ?dp ! i ! (j - 1)")
      (auto simp: not_le)
  then show ?case
  proof cases
    case stop
    then show ?thesis by (subst edit_back.simps) (simp add: covers_def)
  next
    case keep
    have "covers xs ys (i - 1) (j - 1) (Keep (xs ! (i - 1)) i j # acc) (edit_back xs ys ?dp (i - 1) (j - 1) (Keep (xs ! (i - 1)) i j # acc))"
      by (rule "1.hyps"(1)) (use keep 1 in auto)
    moreover have "edit_back xs ys ?dp i j acc = edit_back xs ys ?dp (i - 1) (j - 1) (Keep (xs ! (i - 1)) i j # acc)"
      using keep by (subst edit_back.simps) simp
    ultimately show ?thesis
      using keep 1 lcs_at_step [of i j xs ys] take_snoc_pos [of i xs] take_snoc_pos [of j ys] upt_snoc_pos [of i] upt_snoc_pos [of j]
      by (simp add: covers_def del: upt_Suc)
  next
    case add
    have "covers xs ys i (j - 1) (Add (ys ! (j - 1)) j # acc) (edit_back xs ys ?dp i (j - 1) (Add (ys ! (j - 1)) j # acc))"
      by (rule "1.hyps"(2)) (use add 1 in auto)
    moreover have "edit_back xs ys ?dp i j acc = edit_back xs ys ?dp i (j - 1) (Add (ys ! (j - 1)) j # acc)"
      using add by (subst edit_back.simps) auto
    moreover have "lcs_at xs ys i j = lcs_at xs ys i (j - 1)"
      using add 1 lcs_at_step [of i j xs ys] dp_table_nth [of "i - 1" xs j ys] dp_table_nth [of i xs "j - 1" ys]
      by (cases "i = 0") (auto simp: max_def)
    ultimately show ?thesis
      using add 1 take_snoc_pos [of j ys] upt_snoc_pos [of j] by (simp add: covers_def del: upt_Suc)
  next
    case del
    have "covers xs ys (i - 1) j (Del (xs ! (i - 1)) i # acc) (edit_back xs ys ?dp (i - 1) j (Del (xs ! (i - 1)) i # acc))"
      by (rule "1.hyps"(3)) (use del 1 in auto)
    moreover have "edit_back xs ys ?dp i j acc = edit_back xs ys ?dp (i - 1) j (Del (xs ! (i - 1)) i # acc)"
      using del by (subst edit_back.simps) auto
    moreover have "lcs_at xs ys i j = lcs_at xs ys (i - 1) j"
      using del 1 lcs_at_step [of i j xs ys] dp_table_nth [of "i - 1" xs j ys] dp_table_nth [of i xs "j - 1" ys]
      by (cases "j = 0") (auto simp: max_def)
    ultimately show ?thesis
      using del 1 take_snoc_pos [of i xs] upt_snoc_pos [of i] by (simp add: covers_def del: upt_Suc)
  qed
qed

lemma build_edit_script_covers: "covers xs ys (length xs) (length ys) [] (build_edit_script xs ys)"
  unfolding build_edit_script_def by (rule edit_back_covers) simp_all

lemma kept_subseq: "subseq (part kept_text es) (part old_text es)" "subseq (part kept_text es) (part new_text es)"
proof -
  have step: "subseq (kept_text e) (old_text e)" "subseq (kept_text e) (new_text e)" for e by (cases e; simp)+
  show "subseq (part kept_text es) (part old_text es)" "subseq (part kept_text es) (part new_text es)"
    by (induction es) (auto intro: list_emb_append_mono step)
qed

definition small_texts :: "jstr \<Rightarrow> jstr \<Rightarrow> bool" where
  "small_texts before after \<longleftrightarrow> length (split_content_lines before) * length (split_content_lines after) \<le> 200000"

text \<open>
  C30. The edit script is right and shortest: its kept and deleted lines are the old text, its kept
  and added lines are the new text, the line numbers count both texts from one, and no common
  subsequence is longer than the lines it keeps. The rolling computation of the other file finds
  the same length, so the counts shown beside a change are the numbers of added and deleted
  lines of the script whenever the texts are within the limit both share.
\<close>

theorem edit_script_is_shortest:
  fixes xs ys :: "'a list"
  defines "es \<equiv> build_edit_script xs ys"
  shows "part old_text es = xs \<and> part new_text es = ys
    \<and> part old_number es = [1..<Suc (length xs)] \<and> part new_number es = [1..<Suc (length ys)]
    \<and> subseq (part kept_text es) xs \<and> subseq (part kept_text es) ys
    \<and> (\<forall>zs. subseq zs xs \<and> subseq zs ys \<longrightarrow> length zs \<le> length (part kept_text es))
    \<and> longest_common_subsequence_length xs ys = length (part kept_text es)
    \<and> (\<forall>before after. small_texts before after \<longrightarrow>
         (let script = build_edit_script (split_content_lines before) (split_content_lines after)
          in line_diff_stats before after
             = (length (part new_text script) - length (part kept_text script),
                length (part old_text script) - length (part kept_text script))))"
proof -
  have cov: "part old_text (build_edit_script us vs) = us" "part new_text (build_edit_script us vs) = vs"
    "part old_number (build_edit_script us vs) = [1..<Suc (length us)]" "part new_number (build_edit_script us vs) = [1..<Suc (length vs)]"
    "length (part kept_text (build_edit_script us vs)) = lcs_at us vs (length us) (length vs)" for us vs :: "'b list"
    using build_edit_script_covers [of us vs] by (simp_all add: covers_def del: upt_Suc)
  have "length zs \<le> length (part kept_text es)" if "subseq zs xs" "subseq zs ys" for zs
    using lcs_at_maximal [of "length xs" xs "length ys" ys zs] that by (simp add: es_def cov)
  moreover have "line_diff_stats before after = (length (part new_text script) - length (part kept_text script),
      length (part old_text script) - length (part kept_text script))"
    if "small_texts before after" "script = build_edit_script (split_content_lines before) (split_content_lines after)" for before after script
    using that by (simp add: line_diff_stats_def small_texts_def Let_def cov rolling_rows)
  ultimately show ?thesis
    using kept_subseq [of es] unfolding es_def cov rolling_rows by (simp add: Let_def)
qed

theorem edit_script_is_shortest_witness:
  "line_diff_stats (asc ''ab'') (asc ''cd'') = (1, 1) \<and> subseq [2] [1, 2::nat]
   \<and> length [2::nat] \<le> length (part kept_text (build_edit_script [1, 2] [2, 3::nat]))"
proof -
  have "small_texts (asc ''ab'') (asc ''cd'')" by code_simp
  then have stats: "line_diff_stats (asc ''ab'') (asc ''cd'')
      = (let script = build_edit_script (split_content_lines (asc ''ab'')) (split_content_lines (asc ''cd''))
         in (length (part new_text script) - length (part kept_text script),
             length (part old_text script) - length (part kept_text script)))"
    using edit_script_is_shortest [of "[] :: nat list" "[]"] by (simp add: Let_def)
  have "line_diff_stats (asc ''ab'') (asc ''cd'') = (1, 1)" by code_simp
  moreover have sub: "subseq [2] [1, 2::nat] \<and> subseq [2] [2, 3::nat]" by simp
  moreover have "subseq zs [1, 2] \<and> subseq zs [2, 3 :: nat] \<longrightarrow> length zs \<le> length (part kept_text (build_edit_script [1, 2] [2, 3 :: nat]))" for zs
    using edit_script_is_shortest [of "[1, 2 :: nat]" "[2, 3]"] by (elim conjE) (erule spec)
  from mp [OF this sub] have "length [2::nat] \<le> length (part kept_text (build_edit_script [1, 2] [2, 3::nat]))" .
  ultimately show ?thesis by (intro conjI) (simp_all only: simp_thms)
qed

text \<open>
  The mark of a gap at the beginning is pushed late: after the first kept line, between two lines
  that follow each other in the file.
\<close>

lemma leading_gap_marks_inside_context:
  "map dl_op (line_diff_with_context [[1], [2], [3]] [[1], [2], [4]] 1) = [OpCtx, OpMeta, OpDel, OpAdd]"
proof -
  have table: "dp_table [[1], [2], [3]] [[1], [2], [4 :: nat]] = [[0, 0, 0, 0], [0, 1, 1, 1], [0, 1, 2, 2], [0, 1, 2, 2]]"
    by code_simp
  have "build_edit_script [[1], [2], [3]] [[1], [2], [4 :: nat]] = [Keep [1] 1 1, Keep [2] 2 2, Del [3] 3, Add [4] 3]"
    unfolding build_edit_script_def table by (simp add: edit_back.simps)
  then show ?thesis
    by (simp add: line_diff_with_context_def Let_def kept_near_change_def is_keep_def line_of_edit_def gap_line_def upt_rec)
qed

end
