(* ===== verification/Edit_Tool.thy ===== *)
theory Edit_Tool
  imports Mutation_Recovery Line_Diff
begin

text \<open>
  The Edit tool (\<open>tools/builtin/edit.ts\<close>): replacing strings in one file, the relaxed match on white
  space, the hints when nothing or too much matches, and the write through the change recorder.
  The input schema guarantees at least one edit and no empty \<open>old_string\<close>. A file is read and
  written as UTF-8; \<open>decode\<close> is the parameter for reading.
\<close>

section \<open>Splitting and replacing\<close>

text \<open>\<open>s.split(sep)\<close> for a separator that is not empty.\<close>

lemma js_index_aux_bound: "js_index_aux p s i = Some n \<Longrightarrow> i \<le> n \<and> n - i + length p \<le> length s \<and> take (length p) (drop (n - i) s) = p"
proof (induction p s i rule: js_index_aux.induct)
  case (2 p c s i)
  show ?case
  proof (cases "js_starts_with p (c # s)")
    case True
    then have "length p \<le> length (c # s)" unfolding js_starts_with_def by (metis length_take min.cobounded1)
    then show ?thesis using True 2 by (auto simp: js_starts_with_def)
  next
    case False
    then have "js_index_aux p s (Suc i) = Some n" using 2 by simp
    then have IH: "Suc i \<le> n" "n - Suc i + length p \<le> length s" "take (length p) (drop (n - Suc i) s) = p" using 2 False by auto
    then have "n - i = Suc (n - Suc i)" by simp
    then show ?thesis using IH by simp
  qed
qed (auto split: if_splits)

function split_on :: "jstr \<Rightarrow> jstr \<Rightarrow> jstr list" where
  "split_on sep s =
     (if sep = [] then [s]
      else (case js_index_from sep s 0 of
              None \<Rightarrow> [s]
            | Some i \<Rightarrow> take i s # split_on sep (drop (i + length sep) s)))"
  by pat_completeness auto

termination
proof (relation "measure (length \<circ> snd)")
  fix sep s i assume "sep \<noteq> []" "js_index_from sep s 0 = Some i"
  then have "i + length sep \<le> length s" "0 < length sep"
    using js_index_aux_bound [of sep s 0 i] by (auto simp: js_index_from_def)
  then have "length s - (i + length sep) < length s" by linarith
  then show "((sep, drop (i + length sep) s), sep, s) \<in> measure (length \<circ> snd)" by simp
qed simp

declare split_on.simps [simp del]

definition occurrences :: "jstr \<Rightarrow> jstr \<Rightarrow> nat" where
  "occurrences sep s = length (split_on sep s) - 1"

text \<open>
  The replacement text of \<open>String.prototype.replace\<close> when there are no groups: \<open>$$\<close>, \<open>$&\<close>, \<open>$`\<close> and
  \<open>$'\<close> are expanded, any other \<open>$\<close> stands for itself.
\<close>

fun expand_dollars :: "jstr \<Rightarrow> jstr \<Rightarrow> jstr \<Rightarrow> jstr \<Rightarrow> jstr" where
  "expand_dollars before m after [] = []"
| "expand_dollars before m after [c] = [c]"
| "expand_dollars before m after (c # d # s) =
     (if c = 36 \<and> d = 36 then 36 # expand_dollars before m after s
      else if c = 36 \<and> d = 38 then m @ expand_dollars before m after s
      else if c = 36 \<and> d = 96 then before @ expand_dollars before m after s
      else if c = 36 \<and> d = 39 then after @ expand_dollars before m after s
      else c # expand_dollars before m after (d # s))"

definition replace_first :: "jstr \<Rightarrow> jstr \<Rightarrow> jstr \<Rightarrow> jstr" where
  "replace_first old new s = (case js_index_from old s 0 of
      None \<Rightarrow> s
    | Some i \<Rightarrow> let before = take i s; after = drop (i + length old) s
               in before @ expand_dollars before old after new @ after)"

section \<open>The relaxed match\<close>

text \<open>
  The pattern made of \<open>old_string\<close>: its units in order, and \<open>\s+\<close> for each run of white space. What
  follows a run is no white space, so the run takes all it can and never gives anything back.
\<close>

datatype pattern_unit = Exactly nat | SomeSpace

fun relaxed_pattern :: "jstr \<Rightarrow> pattern_unit list" where
  "relaxed_pattern [] = []"
| "relaxed_pattern (c # s) =
     (if is_ws c then (case relaxed_pattern s of SomeSpace # ps \<Rightarrow> SomeSpace # ps | ps \<Rightarrow> SomeSpace # ps)
      else Exactly c # relaxed_pattern s)"

text \<open>The length of the match at the start of a text.\<close>

fun match_here :: "pattern_unit list \<Rightarrow> jstr \<Rightarrow> nat option" where
  "match_here [] s = Some 0"
| "match_here (Exactly c # ps) s = (case s of [] \<Rightarrow> None
     | d # s' \<Rightarrow> if c = d then map_option Suc (match_here ps s') else None)"
| "match_here (SomeSpace # ps) s =
     (let n = length (takeWhile is_ws s)
      in if n = 0 then None else map_option (\<lambda>k. n + k) (match_here ps (drop n s)))"

fun search_pattern :: "pattern_unit list \<Rightarrow> jstr \<Rightarrow> (nat \<times> nat) option" where
  "search_pattern ps s = (case match_here ps s of
      Some n \<Rightarrow> Some (0, n)
    | None \<Rightarrow> (case s of [] \<Rightarrow> None | c # s' \<Rightarrow> map_option (\<lambda>(i, n). (Suc i, n)) (search_pattern ps s')))"

declare search_pattern.simps [simp del]

text \<open>All matches of the global search from an offset: where each starts and how long it is.\<close>

fun all_matches :: "nat \<Rightarrow> pattern_unit list \<Rightarrow> nat \<Rightarrow> jstr \<Rightarrow> (nat \<times> nat) list" where
  "all_matches 0 ps off s = []"
| "all_matches (Suc fuel) ps off s = (case search_pattern ps (drop off s) of
      None \<Rightarrow> []
    | Some (i, n) \<Rightarrow> (off + i, n) # all_matches fuel ps (off + i + n) s)"

text \<open>No match is empty, so there are at most as many as units.\<close>

definition matches_of :: "pattern_unit list \<Rightarrow> jstr \<Rightarrow> (nat \<times> nat) list" where
  "matches_of ps s = all_matches (length s) ps 0 s"

fun replace_matches :: "jstr \<Rightarrow> jstr \<Rightarrow> nat \<Rightarrow> (nat \<times> nat) list \<Rightarrow> jstr" where
  "replace_matches new s off [] = drop off s"
| "replace_matches new s off ((i, n) # ms) =
     take (i - off) (drop off s) @ expand_dollars (take i s) (take n (drop i s)) (drop (i + n) s) new
       @ replace_matches new s (i + n) ms"

record normalized_edit =
  old_string :: jstr
  new_string :: jstr
  replace_all :: bool

definition try_relaxed_replace :: "jstr \<Rightarrow> normalized_edit \<Rightarrow> (jstr \<times> nat) option" where
  "try_relaxed_replace content edit =
     (let ps = relaxed_pattern (old_string edit); ms = matches_of ps content
      in if SomeSpace \<notin> set ps then None
         else if ms = [] then None
         else if 1 < length ms \<and> \<not> replace_all edit then None
         else let next = replace_matches (new_string edit) content 0 (if replace_all edit then ms else [hd ms])
              in if next = content then None else Some (next, if replace_all edit then length ms else 1))"

section \<open>Hints\<close>

definition edit_clip :: "jstr \<Rightarrow> nat \<Rightarrow> jstr" where
  "edit_clip s limit = (if length s \<le> limit then s else take (limit - 1) s @ [8230])"

definition overlap_score :: "jstr \<Rightarrow> jstr \<Rightarrow> nat" where
  "overlap_score line needle =
     (if needle = [] \<or> line = [] then 0
      else length (filter (\<lambda>p. 3 \<le> length p \<and> js_includes p line) (split_units is_ws needle)))"

fun best_line :: "jstr \<Rightarrow> jstr list \<Rightarrow> nat \<Rightarrow> nat option \<times> nat \<Rightarrow> nat option \<times> nat" where
  "best_line needle [] i best = best"
| "best_line needle (l # ls) i best =
     (if needle \<noteq> [] \<and> js_includes (take 12 needle) l then (Some i, 2)
      else best_line needle ls (Suc i) (if snd best < overlap_score l needle then (Some i, overlap_score l needle) else best))"

definition build_no_match_hint :: "jstr \<Rightarrow> jstr \<Rightarrow> jstr" where
  "build_no_match_hint content old =
     (let needle = take 40 (js_trim old);
          lines = split_units (\<lambda>c. c = 10) content;
          numbered_line = (\<lambda>mark i. [mark, 32] @ dec (i + 1) @ asc ''| '' @ edit_clip (lines ! i) 100)
      in case best_line needle lines 0 (None, 0) of
           (Some best, score) \<Rightarrow>
             if score < 2 then js_join [10] ([25991, 20214, 24320, 22836, 65306] # map (numbered_line 32) [0..<min 5 (length lines)])
             else js_join [10] ([38468, 36817, 20869, 23481, 65288, 20379, 35843, 25972, 32, 111, 108, 100, 95, 115, 116, 114, 105, 110, 103, 65289, 65306]
                    # map (\<lambda>i. numbered_line (if i = best then 62 else 32) i) [best - 2..<min (length lines) (best + 3)])
         | (None, score) \<Rightarrow> js_join [10] ([25991, 20214, 24320, 22836, 65306] # map (numbered_line 32) [0..<min 5 (length lines)]))"

fun lines_with :: "jstr \<Rightarrow> jstr list \<Rightarrow> nat \<Rightarrow> nat \<Rightarrow> nat list" where
  "lines_with p [] i n = []"
| "lines_with p (l # ls) i n =
     (if n = 0 then [] else if js_includes p l then (i + 1) # lines_with p ls (Suc i) (n - 1) else lines_with p ls (Suc i) n)"

definition build_ambiguous_hint :: "jstr \<Rightarrow> jstr \<Rightarrow> nat \<Rightarrow> jstr" where
  "build_ambiguous_hint content old hit_count =
     (let hits = lines_with (hd (split_units (\<lambda>c. c = 10) old)) (split_units (\<lambda>c. c = 10) content) 0 5
      in if hits = [] then []
         else [32422, 22312, 34892, 65306] @ js_join (asc '', '') (map dec hits) @ (if length hits < hit_count then [8230] else []))"

section \<open>Applying the edits\<close>

record edit_input =
  ei_path :: jstr
  ei_old :: "jstr option"
  ei_new :: "jstr option"
  ei_replace_all :: "bool option"
  ei_edits :: "(jstr \<times> jstr \<times> bool option) list option"

definition normalize_edits :: "edit_input \<Rightarrow> normalized_edit list" where
  "normalize_edits input =
     (case ei_edits input of
        Some (e # es) \<Rightarrow> map (\<lambda>(old, new, all). \<lparr>old_string = old, new_string = new, replace_all = (all = Some True)\<rparr>) (e # es)
      | _ \<Rightarrow> [\<lparr>old_string = (case ei_old input of Some s \<Rightarrow> s | None \<Rightarrow> []),
               new_string = (case ei_new input of Some s \<Rightarrow> s | None \<Rightarrow> []),
               replace_all = (ei_replace_all input = Some True)\<rparr>])"

record edit_state =
  es_content :: jstr
  es_occurrences :: nat
  es_added :: nat
  es_removed :: nat
  es_any_all :: bool
  es_applied :: "(jstr \<times> jstr) list"

definition edit_start :: "jstr \<Rightarrow> edit_state" where
  "edit_start content = \<lparr>es_content = content, es_occurrences = 0, es_added = 0, es_removed = 0, es_any_all = False, es_applied = []\<rparr>"

definition applied_edit :: "normalized_edit \<Rightarrow> jstr \<Rightarrow> nat \<Rightarrow> edit_state \<Rightarrow> edit_state" where
  "applied_edit edit content n st =
     (let stats = hunk_line_stats (old_string edit) (new_string edit) n
      in \<lparr>es_content = content, es_occurrences = es_occurrences st + n, es_added = es_added st + fst stats,
          es_removed = es_removed st + snd stats, es_any_all = (es_any_all st \<or> replace_all edit),
          es_applied = es_applied st @ [(old_string edit, new_string edit)]\<rparr>)"

text \<open>Why an edit was not applied: its position, and the content the hint is made from.\<close>

datatype edit_stop = NoMatch nat normalized_edit jstr | Ambiguous nat normalized_edit jstr nat

fun run_edits :: "nat \<Rightarrow> normalized_edit list \<Rightarrow> edit_state \<Rightarrow> edit_stop + edit_state" where
  "run_edits i [] st = Inr st"
| "run_edits i (edit # edits) st =
     (let content = es_content st; n = occurrences (old_string edit) content
      in if n = 0 then
           (case try_relaxed_replace content edit of
              None \<Rightarrow> Inl (NoMatch i edit content)
            | Some (next, k) \<Rightarrow> run_edits (Suc i) edits (applied_edit edit next k st))
         else if 1 < n \<and> \<not> replace_all edit then Inl (Ambiguous i edit content n)
         else run_edits (Suc i) edits
                (applied_edit edit
                   (if replace_all edit then js_join (new_string edit) (split_on (old_string edit) content)
                    else replace_first (old_string edit) (new_string edit) content) n st))"

section \<open>The tool\<close>

record edit_result =
  er_content :: jstr
  er_summary :: jstr
  er_path :: jstr
  er_occurrences :: nat
  er_added :: nat
  er_removed :: nat
  er_replace_all :: bool
  er_mutated :: bool
  er_edit_count :: nat
  er_preview :: "diff_preview option"
  er_hint :: "jstr option"

definition of_count :: "nat \<Rightarrow> nat \<Rightarrow> jstr" where
  "of_count i edit_total = dec (i + 1) @ asc ''/'' @ dec edit_total"

definition stopped_result :: "jstr \<Rightarrow> nat \<Rightarrow> edit_stop \<Rightarrow> edit_result" where
  "stopped_result path edit_total stop =
     (case stop of
        NoMatch i edit content \<Rightarrow>
          (let hint = build_no_match_hint content (old_string edit)
           in \<lparr>er_content = js_join [10] [[26410, 25214, 21040, 32, 111, 108, 100, 95, 115, 116, 114, 105, 110, 103, 65288, 31532, 32] @ of_count i edit_total @ [32, 22788, 32534, 36753, 65289, 65292, 26410, 20570, 20462, 25913, 65306] @ path, hint],
               er_summary = asc ''no match'', er_path = path, er_occurrences = 0, er_added = 0, er_removed = 0,
               er_replace_all = replace_all edit, er_mutated = False, er_edit_count = edit_total, er_preview = None, er_hint = Some hint\<rparr>)
      | Ambiguous i edit content n \<Rightarrow>
          (let hint = build_ambiguous_hint content (old_string edit) n
           in \<lparr>er_content = js_join [10] [[111, 108, 100, 95, 115, 116, 114, 105, 110, 103, 32, 20986, 29616, 32] @ dec n @ [32, 27425, 65288, 31532, 32] @ of_count i edit_total @ [32, 22788, 32534, 36753, 65289, 65292, 23384, 22312, 27495, 20041, 26410, 20570, 20462, 25913, 12290],
                 [35831, 25552, 20379, 26356, 22810, 19978, 19979, 25991, 65292, 25110, 35774, 32622, 32, 114, 101, 112, 108, 97, 99, 101, 95, 97, 108, 108, 58, 32, 116, 114, 117, 101, 12290], hint],
               er_summary = asc ''ambiguous: '' @ dec n @ asc '' matches'', er_path = path, er_occurrences = n, er_added = 0,
               er_removed = 0, er_replace_all = False, er_mutated = False, er_edit_count = edit_total, er_preview = None, er_hint = Some hint\<rparr>))"

definition unchanged_result :: "jstr \<Rightarrow> nat \<Rightarrow> edit_state \<Rightarrow> edit_result" where
  "unchanged_result path edit_total st =
     \<lparr>er_content = [20869, 23481, 26410, 21464, 21270, 65306] @ path, er_summary = asc ''no change'', er_path = path, er_occurrences = es_occurrences st,
      er_added = 0, er_removed = 0, er_replace_all = es_any_all st, er_mutated = False, er_edit_count = edit_total, er_preview = None, er_hint = None\<rparr>"

definition edit_preview :: "jstr \<Rightarrow> edit_state \<Rightarrow> diff_preview" where
  "edit_preview original st =
     (case es_applied st of
        [(old, new)] \<Rightarrow> build_replace_diff_preview old new
          \<lparr>do_max_lines = None, do_max_line_chars = None, do_max_lcs_cells = None, do_context_lines = Some 3, do_file_content = Some original\<rparr>
      | _ \<Rightarrow> build_overwrite_diff_preview original (es_content st)
          \<lparr>do_max_lines = Some 80, do_max_line_chars = None, do_max_lcs_cells = None, do_context_lines = Some 3, do_file_content = None\<rparr>)"

definition replaced_result :: "jstr \<Rightarrow> nat \<Rightarrow> jstr \<Rightarrow> edit_state \<Rightarrow> edit_result" where
  "replaced_result path edit_total original st =
     (let delta = format_line_delta (es_added st, es_removed st);
          multi = (if 1 < edit_total then [32, 183, 32] @ dec edit_total @ asc '' edits'' else [])
      in \<lparr>er_content = [24050, 26367, 25442, 32] @ dec (es_occurrences st) @ [32, 22788, 65306] @ path @ asc '' ('' @ delta @ asc '')'' @ multi,
          er_summary = asc ''replaced '' @ dec (es_occurrences st) @ [32, 183, 32] @ delta @ multi, er_path = path,
          er_occurrences = es_occurrences st, er_added = es_added st, er_removed = es_removed st, er_replace_all = es_any_all st,
          er_mutated = True, er_edit_count = edit_total, er_preview = Some (edit_preview original st), er_hint = None\<rparr>)"

text \<open>\<open>readFile\<close>\<close>

definition fs_read :: "segs \<Rightarrow> file_tree \<Rightarrow> js_error + bytes" where
  "fs_read k fs = (case locate True fs k of
      Inl e \<Rightarrow> Inl e
    | Inr c \<Rightarrow> (case om_get fs c of
                 Some (FileNode b) \<Rightarrow> Inr b
               | None \<Rightarrow> Inl (errno ''ENOENT'')
               | Some x \<Rightarrow> Inl (errno ''EISDIR'')))"

definition write_text :: "segs \<Rightarrow> bytes \<Rightarrow> file_tree \<Rightarrow> file_tree \<times> (js_error + unit)" where
  "write_text k b fs = (case fs_mkdir_p (butlast k) fs of
      (fs1, Inl e) \<Rightarrow> (fs1, Inl e)
    | (fs1, Inr _) \<Rightarrow> fs_write k b fs1)"

text \<open>
  What the tools of this group get from their host: the hash and encodings, \<open>String\<close>, the journals
  on disk, the working directory, the workspace root, and what is drawn for this call.
\<close>

record tool_host =
  th_host :: host
  th_decode :: "bytes \<Rightarrow> jstr"
  th_str :: "json \<Rightarrow> jstr"
  th_stored :: stored_journals
  th_cwd :: jstr
  th_root :: jstr
  th_uuid :: jstr
  th_now :: jstr
  th_run :: jstr

definition record_for :: "tool_host \<Rightarrow> access_scope option \<Rightarrow> mutation_tool \<Rightarrow> jstr list \<Rightarrow> jstr list \<Rightarrow>
  (file_tree \<Rightarrow> file_tree \<times> (js_error + 'a)) \<Rightarrow> file_tree \<times> recorders option \<Rightarrow> (file_tree \<times> recorders option) \<times> (js_error + 'a)" where
  "record_for th scope tool display absolute act s =
     record_tool_mutation (th_host th) (th_str th) (th_stored th) (th_cwd th) (th_uuid th) (th_now th) scope (th_run th) tool display absolute act s"

definition scope_or_workspace :: "access_scope option \<Rightarrow> access_scope" where
  "scope_or_workspace scope = (case scope of None \<Rightarrow> WorkspaceScope | Some s \<Rightarrow> s)"

definition edit_tool :: "tool_host \<Rightarrow> access_scope option \<Rightarrow> edit_input \<Rightarrow> file_tree \<times> recorders option \<Rightarrow>
  (file_tree \<times> recorders option) \<times> (js_error + edit_result)" where
  "edit_tool th scope input s =
     (case resolve_existing_path (tree_realpath (fst s)) (th_cwd th) (th_root th) (ei_path input) (scope_or_workspace scope) of
        Inl e \<Rightarrow> (s, Inl e)
      | Inr file_path \<Rightarrow>
          (case fs_read (abs_segments file_path) (fst s) of
             Inl e \<Rightarrow> (s, Inl e)
           | Inr b \<Rightarrow>
               (let original = th_decode th b; edits = normalize_edits input; edit_total = length edits
                in case run_edits 0 edits (edit_start original) of
                     Inl stop \<Rightarrow> (s, Inr (stopped_result (ei_path input) edit_total stop))
                   | Inr st \<Rightarrow>
                       if es_content st = original then (s, Inr (unchanged_result (ei_path input) edit_total st))
                       else (case record_for th scope EditTool [ei_path input] [file_path]
                                    (write_text (abs_segments file_path) (utf8 (th_host th) (es_content st))) s of
                               (s1, Inl e) \<Rightarrow> (s1, Inl e)
                             | (s1, Inr _) \<Rightarrow> (s1, Inr (replaced_result (ei_path input) edit_total original st))))))"

section \<open>What an edit does to the text\<close>

lemma js_index_first: "js_index_aux p s i = Some n \<Longrightarrow> k < n - i \<Longrightarrow> \<not> js_starts_with p (drop k s)"
proof (induction p s i arbitrary: k rule: js_index_aux.induct)
  case (2 p c s i)
  have "\<not> js_starts_with p (c # s)" using 2 by (auto split: if_splits)
  then show ?case using 2 by (cases k) auto
qed (auto split: if_splits)

lemma js_index_split:
  assumes "js_index_from p s 0 = Some i"
  shows "s = take i s @ p @ drop (i + length p) s" and "p \<noteq> [] \<Longrightarrow> \<not> js_includes p (take i s)"
proof -
  have aux: "js_index_aux p s 0 = Some i" using assms by (simp add: js_index_from_def)
  then show "s = take i s @ p @ drop (i + length p) s"
    using js_index_aux_bound [OF aux] by (metis append_take_drop_id drop_drop add.commute diff_zero)
  assume "p \<noteq> []"
  show "\<not> js_includes p (take i s)"
  proof
    assume "js_includes p (take i s)"
    then obtain k where k: "k \<le> length (take i s)" "js_starts_with p (drop k (take i s))" by (auto simp: js_includes_iff)
    then have "js_starts_with p (drop k s)"
      using js_starts_with_extend [of p "drop k (take i s)" "drop i s"] by (metis append_take_drop_id drop_append diff_is_0_eq drop0)
    moreover have "k < i"
    proof (rule ccontr)
      assume "\<not> k < i"
      then have "drop k (take i s) = []" by simp
      then show False using k(2) \<open>p \<noteq> []\<close> by (simp add: js_starts_with_def)
    qed
    ultimately show False using js_index_first [OF aux, of k] by simp
  qed
qed

lemma js_index_None: "js_index_from p s 0 = None \<longleftrightarrow> \<not> js_includes p s"
  by (simp add: js_includes_def)

lemma split_on_parts:
  "sep \<noteq> [] \<Longrightarrow> split_on sep s \<noteq> [] \<and> js_join sep (split_on sep s) = s \<and> (\<forall>p \<in> set (split_on sep s). \<not> js_includes sep p)"
proof (induction sep s rule: split_on.induct)
  case (1 sep s)
  show ?case
  proof (cases "js_index_from sep s 0")
    case None
    then have "split_on sep s = [s]" using "1.prems" by (subst split_on.simps) simp
    then show ?thesis using None js_index_None [of sep s] by simp
  next
    case (Some i)
    have rest: "split_on sep (drop (i + length sep) s) \<noteq> []" "js_join sep (split_on sep (drop (i + length sep) s)) = drop (i + length sep) s"
      "\<forall>p \<in> set (split_on sep (drop (i + length sep) s)). \<not> js_includes sep p" using "1.IH" [OF "1.prems" Some] "1.prems" by auto
    have eq: "split_on sep s = take i s # split_on sep (drop (i + length sep) s)"
      using "1.prems" Some by (subst split_on.simps) simp
    have "js_join sep (split_on sep s) = s"
      unfolding eq using rest(1,2) js_index_split(1) [OF Some] by (simp add: js_join_Cons)
    then show ?thesis using rest js_index_split(2) [OF Some "1.prems"] by (auto simp: eq)
  qed
qed

text \<open>A text as gaps and matched pieces, and the text with the pieces replaced.\<close>

fun weave :: "(jstr \<times> jstr) list \<Rightarrow> jstr \<Rightarrow> jstr" where
  "weave [] rest = rest"
| "weave ((g, m) # ps) rest = g @ m @ weave ps rest"

fun rewrite :: "jstr \<Rightarrow> jstr \<Rightarrow> (jstr \<times> jstr) list \<Rightarrow> jstr \<Rightarrow> jstr" where
  "rewrite new before [] rest = rest"
| "rewrite new before ((g, m) # ps) rest =
     g @ expand_dollars (before @ g) m (weave ps rest) new @ rewrite new (before @ g @ m) ps rest"

inductive edit_step :: "normalized_edit \<Rightarrow> jstr \<Rightarrow> jstr \<Rightarrow> bool" for e where
  once: "\<not> js_includes (old_string e) a \<Longrightarrow> \<not> js_includes (old_string e) b \<Longrightarrow> \<not> replace_all e \<Longrightarrow>
    edit_step e (weave [(a, old_string e)] b) (rewrite (new_string e) [] [(a, old_string e)] b)"
| everywhere: "replace_all e \<Longrightarrow> 1 < length parts \<Longrightarrow> \<forall>p \<in> set parts. \<not> js_includes (old_string e) p \<Longrightarrow>
    edit_step e (js_join (old_string e) parts) (js_join (new_string e) parts)"
| relaxed: "\<not> js_includes (old_string e) (weave ps b) \<Longrightarrow> ps \<noteq> [] \<Longrightarrow>
    \<forall>(g, m) \<in> set ps. relaxed_pattern m = relaxed_pattern (old_string e) \<Longrightarrow> length ps = 1 \<or> replace_all e \<Longrightarrow>
    edit_step e (weave ps b) (rewrite (new_string e) [] ps b)"

inductive edit_steps :: "normalized_edit list \<Rightarrow> jstr \<Rightarrow> jstr \<Rightarrow> bool" where
  none: "edit_steps [] c c"
| more: "edit_step e c c' \<Longrightarrow> edit_steps es c' c'' \<Longrightarrow> edit_steps (e # es) c c''"

lemma occurrences_zero: "sep \<noteq> [] \<Longrightarrow> occurrences sep s = 0 \<longleftrightarrow> \<not> js_includes sep s"
  using js_index_None [of sep s] split_on_parts [of sep "drop (the (js_index_from sep s 0) + length sep) s"]
  by (subst occurrences_def, subst split_on.simps) (auto split: option.splits simp: Suc_le_eq)

text \<open>The relaxed match finds text with the same units up to the length of its white space.\<close>

fun normal_pattern :: "pattern_unit list \<Rightarrow> bool" where
  "normal_pattern [] = True"
| "normal_pattern (Exactly c # ps) = (\<not> is_ws c \<and> normal_pattern ps)"
| "normal_pattern (SomeSpace # ps) = (normal_pattern ps \<and> (case ps of SomeSpace # qs \<Rightarrow> False | _ \<Rightarrow> True))"

lemma normal_relaxed: "normal_pattern (relaxed_pattern s)"
proof (induction s)
  case (Cons c s)
  then show ?case by (cases "relaxed_pattern s" rule: normal_pattern.cases) auto
qed simp

lemma relaxed_space_run:
  "w \<noteq> [] \<Longrightarrow> \<forall>c \<in> set w. is_ws c \<Longrightarrow> normal_pattern (SomeSpace # relaxed_pattern s) \<Longrightarrow>
   relaxed_pattern (w @ s) = SomeSpace # relaxed_pattern s"
proof (induction w)
  case (Cons c w)
  show ?case
  proof (cases "w = []")
    case True
    then show ?thesis using Cons.prems by (cases "relaxed_pattern s" rule: normal_pattern.cases) auto
  qed (use Cons in simp)
qed simp

lemma match_here_text: "match_here ps s = Some n \<Longrightarrow> normal_pattern ps \<Longrightarrow> n \<le> length s \<and> relaxed_pattern (take n s) = ps"
proof (induction ps s arbitrary: n rule: match_here.induct)
  case (2 c ps s)
  then show ?case by (auto split: list.splits if_splits)
next
  case (3 ps s)
  define r where "r = length (takeWhile is_ws s)"
  obtain k where k: "0 < r" "match_here ps (drop r s) = Some k" "n = r + k"
    using 3 by (auto simp: r_def Let_def split: if_splits)
  have IH: "k \<le> length (drop r s)" "relaxed_pattern (take k (drop r s)) = ps"
    using "3.IH" [OF refl _ k(2) [unfolded r_def]] k(1) "3.prems"(2) by (auto simp: r_def)
  have w: "take r s = takeWhile is_ws s" by (simp add: r_def takeWhile_eq_take [symmetric])
  have "take n s = takeWhile is_ws s @ take k (drop r s)" unfolding k(3) take_add w ..
  moreover have "takeWhile is_ws s \<noteq> []" using k(1) by (auto simp: r_def)
  moreover have "\<forall>c \<in> set (takeWhile is_ws s). is_ws c" by (auto dest: set_takeWhileD)
  ultimately have "relaxed_pattern (take n s) = SomeSpace # ps"
    using relaxed_space_run [of "takeWhile is_ws s" "take k (drop r s)"] IH(2) "3.prems"(2) by simp
  moreover have "n \<le> length s" using IH(1) k(1,3) length_takeWhile_le [of is_ws s] by (simp add: r_def)
  ultimately show ?case by simp
qed simp

lemma search_pattern_match: "search_pattern ps s = Some (i, n) \<Longrightarrow> i \<le> length s \<and> match_here ps (drop i s) = Some n"
proof (induction s arbitrary: i)
  case Nil
  then show ?case by (subst (asm) search_pattern.simps) (auto split: option.splits)
next
  case (Cons c s)
  then show ?case by (subst (asm) search_pattern.simps) (auto split: option.splits)
qed

fun pieces_of :: "jstr \<Rightarrow> nat \<Rightarrow> (nat \<times> nat) list \<Rightarrow> (jstr \<times> jstr) list" where
  "pieces_of s off [] = []"
| "pieces_of s off ((i, n) # ms) = (take (i - off) (drop off s), take n (drop i s)) # pieces_of s (i + n) ms"

fun good_matches :: "pattern_unit list \<Rightarrow> jstr \<Rightarrow> nat \<Rightarrow> (nat \<times> nat) list \<Rightarrow> bool" where
  "good_matches ps s off [] = (off \<le> length s)"
| "good_matches ps s off ((i, n) # ms) =
     (off \<le> i \<and> i + n \<le> length s \<and> relaxed_pattern (take n (drop i s)) = ps \<and> good_matches ps s (i + n) ms)"

lemma good_all_matches: "normal_pattern ps \<Longrightarrow> off \<le> length s \<Longrightarrow> good_matches ps s off (all_matches fuel ps off s)"
proof (induction fuel arbitrary: off)
  case (Suc fuel)
  show ?case
  proof (cases "search_pattern ps (drop off s)")
    case (Some m)
    obtain i n where m: "m = (i, n)" by (cases m)
    from search_pattern_match [of ps "drop off s" i n] Some m
    have i: "i \<le> length (drop off s)" "match_here ps (drop (off + i) s) = Some n" by (auto simp: add.commute)
    from match_here_text [OF i(2) Suc.prems(1)] i(1) Suc.prems(2)
    have n: "off + i + n \<le> length s" "relaxed_pattern (take n (drop (off + i) s)) = ps" by auto
    then show ?thesis using Some m Suc.IH [OF Suc.prems(1) n(1)] by simp
  qed (use Suc.prems in simp)
qed simp

lemma weave_pieces: "good_matches ps s off ms \<Longrightarrow> weave (pieces_of s off ms) (drop (case rev ms of [] \<Rightarrow> off | (i, n) # r \<Rightarrow> i + n) s) = drop off s"
proof (induction ps s off ms rule: good_matches.induct)
  case (2 ps s off i n ms)
  let ?e = "\<lambda>off ms. case rev ms of [] \<Rightarrow> off | (i, n) # r \<Rightarrow> i + n"
  have end_eq: "?e off ((i, n) # ms) = ?e (i + n) ms" by (cases ms rule: rev_cases) auto
  have "drop off s = take (i - off) (drop off s) @ take n (drop i s) @ drop (i + n) s"
    using "2.prems" by (metis add.commute append_take_drop_id drop_drop good_matches.simps(2) le_add_diff_inverse)
  then show ?case using 2 unfolding end_eq by simp
qed simp

lemma replace_matches_rewrite:
  "good_matches ps s off ms \<Longrightarrow>
   replace_matches new s off ms = rewrite new (take off s) (pieces_of s off ms) (drop (case rev ms of [] \<Rightarrow> off | (i, n) # r \<Rightarrow> i + n) s)"
proof (induction ps s off ms rule: good_matches.induct)
  case (2 ps s off i n ms)
  let ?e = "\<lambda>off ms. case rev ms of [] \<Rightarrow> off | (i, n) # r \<Rightarrow> i + n"
  have end_eq: "?e off ((i, n) # ms) = ?e (i + n) ms" by (cases ms rule: rev_cases) auto
  have good: "off \<le> i" "good_matches ps s (i + n) ms" using "2.prems" by auto
  have before: "take off s @ take (i - off) (drop off s) = take i s"
    using good(1) by (metis le_add_diff_inverse take_add)
  have after: "take off s @ take (i - off) (drop off s) @ take n (drop i s) = take (i + n) s"
    using before by (metis append_assoc take_add)
  show ?case using "2.IH" [OF good(2)] weave_pieces [OF good(2)] unfolding end_eq by (simp add: before after)
qed simp

lemma pieces_relaxed: "good_matches ps s off ms \<Longrightarrow> \<forall>(g, m) \<in> set (pieces_of s off ms). relaxed_pattern m = ps"
  by (induction ps s off ms rule: good_matches.induct) auto

lemma length_pieces [simp]: "length (pieces_of s off ms) = length ms"
  by (induction s off ms rule: pieces_of.induct) auto

lemma relaxed_step:
  assumes rel: "try_relaxed_replace c e = Some (c', k)" and none: "\<not> js_includes (old_string e) c"
  shows "edit_step e c c'"
proof -
  let ?ps = "relaxed_pattern (old_string e)" and ?ms = "matches_of (relaxed_pattern (old_string e)) c"
  let ?stop = "\<lambda>ms. case rev ms of [] \<Rightarrow> 0 | (i, n) # r \<Rightarrow> i + n"
  define sel where "sel = (if replace_all e then ?ms else [hd ?ms])"
  have ms: "?ms \<noteq> []" "c' = replace_matches (new_string e) c 0 sel"
    using rel by (auto simp: try_relaxed_replace_def Let_def sel_def split: if_splits)
  have good: "good_matches ?ps c 0 ?ms" unfolding matches_of_def by (rule good_all_matches [OF normal_relaxed]) simp
  then have good: "good_matches ?ps c 0 sel"
    using ms(1) by (cases ?ms) (auto simp: sel_def)
  have c: "weave (pieces_of c 0 sel) (drop (?stop sel) c) = c" using weave_pieces [OF good] by simp
  have c': "c' = rewrite (new_string e) [] (pieces_of c 0 sel) (drop (?stop sel) c)"
    using replace_matches_rewrite [OF good] ms(2) by simp
  have "sel \<noteq> []" using ms(1) by (simp add: sel_def)
  then have len: "length (pieces_of c 0 sel) = 1 \<or> replace_all e" "pieces_of c 0 sel \<noteq> []"
    by (simp add: sel_def, metis length_pieces length_0_conv)
  have "edit_step e (weave (pieces_of c 0 sel) (drop (?stop sel) c)) (rewrite (new_string e) [] (pieces_of c 0 sel) (drop (?stop sel) c))"
    by (rule relaxed [OF _ len(2) pieces_relaxed [OF good] len(1)]) (simp only: c none not_False_eq_True)
  then show ?thesis unfolding c c' .
qed

lemma exact_step:
  assumes old: "old_string e \<noteq> []" and n: "occurrences (old_string e) c \<noteq> 0" "1 < occurrences (old_string e) c \<longrightarrow> replace_all e"
  shows "edit_step e c (if replace_all e then js_join (new_string e) (split_on (old_string e) c) else replace_first (old_string e) (new_string e) c)"
proof (cases "replace_all e")
  case True
  have "1 < length (split_on (old_string e) c)" using n(1) by (auto simp: occurrences_def)
  then have "edit_step e (js_join (old_string e) (split_on (old_string e) c)) (js_join (new_string e) (split_on (old_string e) c))"
    using split_on_parts [OF old, of c] by (intro everywhere [OF True]) auto
  then show ?thesis using True split_on_parts [OF old, of c] by simp
next
  case False
  obtain i where i: "js_index_from (old_string e) c 0 = Some i" using n(1) occurrences_zero [OF old] js_index_None [of "old_string e" c]
    by (cases "js_index_from (old_string e) c 0") auto
  let ?rest = "drop (i + length (old_string e)) c"
  have split: "split_on (old_string e) c = take i c # split_on (old_string e) ?rest" using old i by (subst split_on.simps) simp
  then have "occurrences (old_string e) ?rest = 0" using n False by (auto simp: occurrences_def)
  then have rest: "\<not> js_includes (old_string e) ?rest" using occurrences_zero [OF old] by simp
  have "edit_step e (weave [(take i c, old_string e)] ?rest) (rewrite (new_string e) [] [(take i c, old_string e)] ?rest)"
    by (rule once [OF js_index_split(2) [OF i old] rest False])
  then show ?thesis using False i js_index_split(1) [OF i] by (simp add: replace_first_def Let_def)
qed

lemma run_edits_steps:
  "run_edits i es st = Inr st' \<Longrightarrow> \<forall>e \<in> set es. old_string e \<noteq> [] \<Longrightarrow> edit_steps es (es_content st) (es_content st')"
proof (induction i es st rule: run_edits.induct)
  case (1 i st)
  then show ?case by (simp add: edit_steps.none)
next
  case (2 i edit edits st)
  let ?c = "es_content st" and ?n = "occurrences (old_string edit) (es_content st)"
  have applied [simp]: "es_content (applied_edit edit c n st) = c" for c n by (simp add: applied_edit_def Let_def)
  show ?case
  proof (cases "?n = 0")
    case True
    obtain nx k where nx: "try_relaxed_replace ?c edit = Some (nx, k)" "run_edits (Suc i) edits (applied_edit edit nx k st) = Inr st'"
      using "2.prems"(1) True by (auto simp: Let_def split: option.splits)
    have "edit_step edit ?c nx"
      using relaxed_step [OF nx(1)] True occurrences_zero [of "old_string edit" ?c] "2.prems"(2) by simp
    moreover have "edit_steps edits (es_content (applied_edit edit nx k st)) (es_content st')"
      by (rule "2.IH"(1) [OF refl refl True nx(1) refl nx(2)]) (use "2.prems"(2) in simp)
    ultimately show ?thesis by (auto intro: edit_steps.more)
  next
    case False
    let ?next = "if replace_all edit then js_join (new_string edit) (split_on (old_string edit) ?c) else replace_first (old_string edit) (new_string edit) ?c"
    have ok: "\<not> (1 < ?n \<and> \<not> replace_all edit)" and run: "run_edits (Suc i) edits (applied_edit edit ?next ?n st) = Inr st'"
      using "2.prems"(1) False by (auto simp: Let_def split: if_splits)
    have "edit_step edit ?c ?next" by (rule exact_step) (use "2.prems"(2) False ok in auto)
    moreover have "edit_steps edits (es_content (applied_edit edit ?next ?n st)) (es_content st')"
      by (rule "2.IH"(2) [OF refl refl False ok run]) (use "2.prems"(2) in simp)
    ultimately show ?thesis by (auto intro: edit_steps.more)
  qed
qed

lemma record_returned:
  "record_mutation h uuid now W run tool paths act (fs, j) = ((fs', j'), Inr v) \<Longrightarrow> act fs = (fs', Inr v)"
  by (auto simp: record_mutation_def prepare_mutation_def undo_failed_def Let_def split: prod.splits sum.splits if_splits)

lemma record_for_returned:
  assumes "record_for th scope tool display absolute act (fs, rs) = ((fs', rs'), Inr v)" and "scope \<noteq> Some SystemScope"
  shows "act fs = (fs', Inr v)"
  using assms by (auto simp: record_for_def record_tool_mutation_def Let_def dest: record_returned split: prod.splits option.splits)

definition schema_ok :: "edit_input \<Rightarrow> bool" where
  "schema_ok input \<longleftrightarrow> list_all (\<lambda>e. old_string e \<noteq> []) (normalize_edits input)"


definition demo_tools :: tool_host where
  "demo_tools = \<lparr>th_host = demo_host, th_decode = (\<lambda>b. b), th_str = (\<lambda>v. []), th_stored = (\<lambda>k. (empty_log, [])), th_cwd = [slash],
     th_root = asc ''/w'', th_uuid = asc ''1'', th_now = asc ''t'', th_run = asc ''r''\<rparr>"

definition demo_edit :: "jstr \<Rightarrow> jstr \<Rightarrow> edit_input" where
  "demo_edit old new = \<lparr>ei_path = asc ''a'', ei_old = Some old, ei_new = Some new, ei_replace_all = None, ei_edits = None\<rparr>"


end
