(* ===== verification/Apply_Patch.thy ===== *)
theory Apply_Patch
  imports Edit_Tool
begin

text \<open>
  The ApplyPatch tool (\<open>tools/builtin/applyPatch.ts\<close>): parsing a patch of several files, planning all of
  it before anything is written, the hunks of an update, and the writes through the change recorder.
\<close>

section \<open>Parsing\<close>

datatype patch_kind = AddFile | UpdateFile | DeleteFile

record patch_operation =
  po_kind :: patch_kind
  po_path :: jstr
  po_body :: "jstr list"

text \<open>\<open>patch.replace(/\r\n/g, '\n')\<close>\<close>

fun crlf_to_lf :: "jstr \<Rightarrow> jstr" where
  "crlf_to_lf [] = []"
| "crlf_to_lf [c] = [c]"
| "crlf_to_lf (c # d # s) = (if c = 13 \<and> d = 10 then 10 # crlf_to_lf s else c # crlf_to_lf (d # s))"

text \<open>The header line of an operation: its kind and what follows, which \<open>.+\<close> needs in one line.\<close>

definition line_terminator :: "nat \<Rightarrow> bool" where
  "line_terminator c \<longleftrightarrow> c = 10 \<or> c = 13 \<or> c = 8232 \<or> c = 8233"

definition after_prefix :: "string \<Rightarrow> jstr \<Rightarrow> jstr option" where
  "after_prefix p line =
     (let rest = drop (length p) line
      in if js_starts_with (asc p) line \<and> rest \<noteq> [] \<and> \<not> list_ex line_terminator rest then Some rest else None)"

definition patch_header :: "jstr \<Rightarrow> (patch_kind \<times> jstr) option" where
  "patch_header line =
     (case after_prefix ''*** Add File: '' line of
        Some p \<Rightarrow> Some (AddFile, p)
      | None \<Rightarrow> (case after_prefix ''*** Update File: '' line of
          Some p \<Rightarrow> Some (UpdateFile, p)
        | None \<Rightarrow> map_option (Pair DeleteFile) (after_prefix ''*** Delete File: '' line)))"

definition patch_error :: "jstr \<Rightarrow> js_error" where
  "patch_error = plain_error"

text \<open>The loop over the lines, with the operations finished so far and the current one.\<close>

fun parse_lines :: "patch_operation list \<Rightarrow> patch_operation option \<Rightarrow> jstr list \<Rightarrow> js_error + patch_operation list" where
  "parse_lines ops cur [] = Inl (patch_error (asc ''Patch must end with *** End Patch''))"
| "parse_lines ops cur (line # ls) =
     (if line = asc ''*** End Patch'' then
        (if list_ex (\<lambda>l. js_trim l \<noteq> []) ls then Inl (patch_error (asc ''Unexpected content after *** End Patch''))
         else Inr (ops @ (case cur of None \<Rightarrow> [] | Some o1 \<Rightarrow> [o1])))
      else (case patch_header line of
              Some (k, p) \<Rightarrow>
                if js_trim p = [] then Inl (patch_error (asc ''Patch file path must not be empty''))
                else parse_lines (ops @ (case cur of None \<Rightarrow> [] | Some o1 \<Rightarrow> [o1])) (Some \<lparr>po_kind = k, po_path = js_trim p, po_body = []\<rparr>) ls
            | None \<Rightarrow>
                (case cur of
                   None \<Rightarrow> if js_trim line \<noteq> [] then Inl (patch_error (asc ''Unexpected patch line: '' @ line)) else parse_lines ops None ls
                 | Some o1 \<Rightarrow> parse_lines ops (Some (o1\<lparr>po_body := po_body o1 @ [line]\<rparr>)) ls)))"

text \<open>The elements that occurred before: \<open>all.indexOf(path) !== index\<close>.\<close>

fun repeated :: "'a list \<Rightarrow> 'a list \<Rightarrow> 'a list" where
  "repeated seen [] = []"
| "repeated seen (x # xs) = (if x \<in> set seen then x # repeated seen xs else repeated (x # seen) xs)"

definition parse_patch :: "jstr \<Rightarrow> js_error + patch_operation list" where
  "parse_patch patch =
     (let lines = split_units (\<lambda>c. c = 10) (crlf_to_lf patch)
      in if js_trim (hd lines) \<noteq> asc ''*** Begin Patch'' then Inl (patch_error (asc ''Patch must start with *** Begin Patch''))
         else (case parse_lines [] None (tl lines) of
                 Inl e \<Rightarrow> Inl e
               | Inr ops \<Rightarrow>
                   if ops = [] then Inl (patch_error (asc ''Patch has no file operations''))
                   else let dups = repeated [] (map po_path ops)
                        in if dups \<noteq> [] then Inl (patch_error (asc ''Patch contains duplicate paths: '' @ js_join (asc '', '') (uniq_first dups)))
                           else Inr ops))"

section \<open>Hunks\<close>

fun group_hunks :: "jstr list \<Rightarrow> jstr list \<Rightarrow> jstr list list" where
  "group_hunks cur [] = (if cur \<noteq> [] then [cur] else [])"
| "group_hunks cur (l # ls) =
     (if js_starts_with (asc ''@@'') l then (if cur \<noteq> [] then cur # group_hunks [] ls else group_hunks [] ls)
      else group_hunks (cur @ [l]) ls)"

text \<open>The preimage and the result of one hunk.\<close>

fun hunk_sides :: "jstr \<Rightarrow> jstr list \<Rightarrow> js_error + jstr list \<times> jstr list" where
  "hunk_sides path [] = Inr ([], [])"
| "hunk_sides path (l # ls) =
     (case l of
        [] \<Rightarrow> Inl (patch_error (asc ''Malformed empty hunk line in '' @ path))
      | c # v \<Rightarrow>
          if c \<noteq> 32 \<and> c \<noteq> 45 \<and> c \<noteq> 43 then Inl (patch_error (asc ''Malformed hunk line in '' @ path @ asc '': '' @ l))
          else (case hunk_sides path ls of
                  Inl e \<Rightarrow> Inl e
                | Inr (old, new) \<Rightarrow> Inr (if c = 43 then old else v # old, if c = 45 then new else v # new)))"

definition apply_hunk :: "jstr \<Rightarrow> jstr list \<Rightarrow> jstr \<Rightarrow> js_error + jstr" where
  "apply_hunk path hunk content =
     (case hunk_sides path hunk of
        Inl e \<Rightarrow> Inl e
      | Inr (old_lines, new_lines) \<Rightarrow>
          (let old = js_join [10] old_lines; new = js_join [10] new_lines
           in if old = [] then Inl (patch_error (asc ''Update hunk has no preimage: '' @ path))
              else (case js_index_from old content 0 of
                      None \<Rightarrow> Inl (patch_error (asc ''Hunk does not match file: '' @ path))
                    | Some first \<Rightarrow>
                        if js_index_from old content (first + 1) \<noteq> None
                        then Inl (patch_error (asc ''Hunk is ambiguous in file: '' @ path))
                        else Inr (take first content @ new @ drop (first + length old) content))))"

fun apply_hunks :: "jstr \<Rightarrow> jstr list list \<Rightarrow> jstr \<Rightarrow> js_error + jstr" where
  "apply_hunks path [] content = Inr content"
| "apply_hunks path (h # hs) content = (case apply_hunk path h content of Inl e \<Rightarrow> Inl e | Inr c \<Rightarrow> apply_hunks path hs c)"

definition apply_update_hunks :: "jstr \<Rightarrow> patch_operation \<Rightarrow> js_error + jstr" where
  "apply_update_hunks original op =
     (let hunks = group_hunks [] (po_body op)
      in if hunks = [] then Inl (patch_error (asc ''Update File has no hunks: '' @ po_path op))
         else apply_hunks (po_path op) hunks original)"

section \<open>Planning\<close>

record planned_file =
  pf_kind :: patch_kind
  pf_path :: jstr
  pf_absolute :: jstr
  pf_content :: "jstr option"

definition is_regular :: "fnode \<Rightarrow> bool" where
  "is_regular x \<longleftrightarrow> (case x of FileNode b \<Rightarrow> True | _ \<Rightarrow> False)"

definition plan_add :: "tool_host \<Rightarrow> access_scope option \<Rightarrow> file_tree \<Rightarrow> patch_operation \<Rightarrow> js_error + planned_file" where
  "plan_add th scope fs op =
     (case resolve_writable_path (tree_realpath fs) (th_cwd th) (th_root th) (po_path op) (scope_or_workspace scope) of
        Inl e \<Rightarrow> Inl e
      | Inr absolute \<Rightarrow>
          (case fs_lstat fs (abs_segments absolute) of
             Inr x \<Rightarrow> Inl (patch_error (asc ''Cannot add existing file: '' @ po_path op))
           | Inl e \<Rightarrow>
               if \<not> is_missing_path e then Inl e
               else if \<not> list_all (js_starts_with (asc ''+'')) (po_body op)
               then Inl (patch_error (asc ''Add File lines must start with +: '' @ po_path op))
               else Inr \<lparr>pf_kind = AddFile, pf_path = po_path op, pf_absolute = absolute,
                         pf_content = Some (js_join [10] (map tl (po_body op)) @ [10])\<rparr>))"

definition plan_existing :: "tool_host \<Rightarrow> access_scope option \<Rightarrow> file_tree \<Rightarrow> patch_operation \<Rightarrow> js_error + planned_file" where
  "plan_existing th scope fs op =
     (case resolve_existing_path (tree_realpath fs) (th_cwd th) (th_root th) (po_path op) (scope_or_workspace scope) of
        Inl e \<Rightarrow> Inl e
      | Inr absolute \<Rightarrow>
          (case fs_lstat fs (abs_segments absolute) of
             Inl e \<Rightarrow> Inl e
           | Inr (c, x) \<Rightarrow>
               if \<not> is_regular x then Inl (patch_error (asc ''Patch target is not a regular file: '' @ po_path op))
               else if po_kind op = DeleteFile then
                 (if list_ex (\<lambda>l. js_trim l \<noteq> []) (po_body op)
                  then Inl (patch_error (asc ''Delete File must not contain hunks: '' @ po_path op))
                  else Inr \<lparr>pf_kind = DeleteFile, pf_path = po_path op, pf_absolute = absolute, pf_content = None\<rparr>)
               else (case fs_read (abs_segments absolute) fs of
                       Inl e \<Rightarrow> Inl e
                     | Inr b \<Rightarrow> (case apply_update_hunks (th_decode th b) op of
                                   Inl e \<Rightarrow> Inl e
                                 | Inr c \<Rightarrow> Inr \<lparr>pf_kind = UpdateFile, pf_path = po_path op, pf_absolute = absolute, pf_content = Some c\<rparr>))))"

definition plan_operation :: "tool_host \<Rightarrow> access_scope option \<Rightarrow> file_tree \<Rightarrow> patch_operation \<Rightarrow> js_error + planned_file" where
  "plan_operation th scope fs op = (if po_kind op = AddFile then plan_add th scope fs op else plan_existing th scope fs op)"

definition plan_operations :: "tool_host \<Rightarrow> access_scope option \<Rightarrow> file_tree \<Rightarrow> patch_operation list \<Rightarrow> js_error + planned_file list" where
  "plan_operations th scope fs ops = map_err (plan_operation th scope fs) ops"

section \<open>The tool\<close>

text \<open>\<open>rm(path, { force: false })\<close> removes a file or a link.\<close>

definition fs_rm :: "segs \<Rightarrow> file_tree \<Rightarrow> file_tree \<times> (js_error + unit)" where
  "fs_rm k fs = (case fs_lstat fs k of
      Inl e \<Rightarrow> (fs, Inl e)
    | Inr (c, x) \<Rightarrow> if x = DirNode then (fs, Inl (errno ''ERR_FS_EISDIR'')) else (om_del c fs, Inr ()))"

definition write_planned :: "tool_host \<Rightarrow> planned_file \<Rightarrow> file_tree \<Rightarrow> file_tree \<times> (js_error + unit)" where
  "write_planned th p fs =
     (if pf_kind p = DeleteFile then fs_rm (abs_segments (pf_absolute p)) fs
      else write_text (abs_segments (pf_absolute p)) (utf8 (th_host th) (case pf_content p of Some c \<Rightarrow> c | None \<Rightarrow> [])) fs)"

record patch_result =
  pr_files :: "jstr list"
  pr_added :: nat
  pr_updated :: nat
  pr_deleted :: nat

definition patch_result_of :: "planned_file list \<Rightarrow> patch_result" where
  "patch_result_of ps =
     \<lparr>pr_files = map pf_path ps, pr_added = length (filter (\<lambda>p. pf_kind p = AddFile) ps),
      pr_updated = length (filter (\<lambda>p. pf_kind p = UpdateFile) ps), pr_deleted = length (filter (\<lambda>p. pf_kind p = DeleteFile) ps)\<rparr>"

definition patch_content :: "patch_result \<Rightarrow> jstr" where
  "patch_content r = asc ''Patch applied: '' @ dec (pr_added r) @ asc '' added, '' @ dec (pr_updated r) @ asc '' updated, ''
     @ dec (pr_deleted r) @ asc '' deleted''"

definition apply_patch_tool :: "tool_host \<Rightarrow> access_scope option \<Rightarrow> jstr \<Rightarrow> file_tree \<times> recorders option \<Rightarrow>
  (file_tree \<times> recorders option) \<times> (js_error + patch_result)" where
  "apply_patch_tool th scope patch s =
     (case parse_patch patch of
        Inl e \<Rightarrow> (s, Inl e)
      | Inr ops \<Rightarrow>
          (case plan_operations th scope (fst s) ops of
             Inl e \<Rightarrow> (s, Inl e)
           | Inr planned \<Rightarrow>
               (case record_for th scope ApplyPatchTool (map pf_path planned) (map pf_absolute planned)
                       (for_each (write_planned th) planned) s of
                  (s1, Inl e) \<Rightarrow> (s1, Inl e)
                | (s1, Inr _) \<Rightarrow> (s1, Inr (patch_result_of planned)))))"

section \<open>All or nothing\<close>

text \<open>Applying the hunks of a file: each preimage stands at exactly one place and is replaced there.\<close>

inductive hunk_steps :: "jstr \<Rightarrow> jstr list list \<Rightarrow> jstr \<Rightarrow> jstr \<Rightarrow> bool" for path where
  done_all: "hunk_steps path [] c c"
| next_hunk: "hunk_sides path h = Inr (old_lines, new_lines) \<Longrightarrow> js_join [10] old_lines \<noteq> [] \<Longrightarrow>
    {i. i \<le> length (a @ js_join [10] old_lines @ b) \<and> js_starts_with (js_join [10] old_lines) (drop i (a @ js_join [10] old_lines @ b))} = {length a} \<Longrightarrow>
    hunk_steps path hs (a @ js_join [10] new_lines @ b) c \<Longrightarrow>
    hunk_steps path (h # hs) (a @ js_join [10] old_lines @ b) c"

lemma apply_hunks_steps: "apply_hunks path hs c = Inr c' \<Longrightarrow> hunk_steps path hs c c'"
proof (induction hs arbitrary: c)
  case Nil
  then show ?case by (simp add: done_all)
next
  case (Cons h hs)
  obtain c1 where c1: "apply_hunk path h c = Inr c1" "apply_hunks path hs c1 = Inr c'" using Cons.prems by (auto split: sum.splits)
  obtain ol nl where sides: "hunk_sides path h = Inr (ol, nl)" using c1(1) by (auto simp: apply_hunk_def split: sum.splits)
  let ?old = "js_join [10] ol" and ?new = "js_join [10] nl"
  obtain i where i: "js_index_from ?old c 0 = Some i" "js_index_from ?old c (i + 1) = None" "?old \<noteq> []"
      "c1 = take i c @ ?new @ drop (i + length ?old) c"
    using c1(1) sides by (auto simp: apply_hunk_def Let_def split: option.splits if_splits)
  note split = js_index_split(1) [OF i(1)]
  have len: "i + length ?old \<le> length c" using js_index_aux_bound [of ?old c 0 i] i(1) by (simp add: js_index_from_def)
  have aux: "js_index_aux ?old c 0 = Some i" using i(1) by (simp add: js_index_from_def)
  have later: "\<not> js_starts_with ?old (drop k c)" if "i < k" "k \<le> length c" for k
  proof -
    have "\<not> (\<exists>k \<le> length (drop (i + 1) c). js_starts_with ?old (drop k (drop (i + 1) c)))"
      using i(2) js_index_aux_iff [of ?old "drop (i + 1) c" "min (i + 1) (length c)"] by (simp add: js_index_from_def)
    moreover have "drop k c = drop (k - (i + 1)) (drop (i + 1) c)" "k - (i + 1) \<le> length (drop (i + 1) c)" using that by simp_all
    ultimately show ?thesis by metis
  qed
  have here: "js_starts_with ?old (drop i c)" using js_index_aux_bound [OF aux] by (simp add: js_starts_with_def)
  have "{k. k \<le> length c \<and> js_starts_with ?old (drop k c)} = {i}"
    using here later js_index_first [OF aux] len by (auto intro: linorder_cases [of _ i])
  moreover have "length (take i c) = i" using len by simp
  ultimately have "hunk_steps path (h # hs) (take i c @ ?old @ drop (i + length ?old) c) c'"
    using split Cons.IH [OF c1(2)] i(4) by (intro next_hunk [OF sides i(3)]) simp_all
  then show ?case using split by simp
qed

text \<open>What a planned file is for its operation.\<close>

definition planned_for :: "tool_host \<Rightarrow> file_tree \<Rightarrow> patch_operation \<Rightarrow> planned_file \<Rightarrow> bool" where
  "planned_for th fs op p \<longleftrightarrow> pf_kind p = po_kind op \<and> pf_path p = po_path op \<and>
     (case po_kind op of
        AddFile \<Rightarrow> pf_content p = Some (js_join [10] (map tl (po_body op)) @ [10]) \<and> list_all (js_starts_with (asc ''+'')) (po_body op)
      | DeleteFile \<Rightarrow> pf_content p = None
      | UpdateFile \<Rightarrow> \<exists>b c. fs_read (abs_segments (pf_absolute p)) fs = Inr b \<and> pf_content p = Some c \<and>
          hunk_steps (po_path op) (group_hunks [] (po_body op)) (th_decode th b) c)"

lemma plan_operation_for: "plan_operation th scope fs op = Inr p \<Longrightarrow> planned_for th fs op p"
  by (cases "po_kind op")
    (auto simp: plan_operation_def plan_add_def plan_existing_def planned_for_def apply_update_hunks_def Let_def
      split: sum.splits if_splits, erule apply_hunks_steps)

text \<open>The paths a patch may touch, and that they can be recorded whatever its writes reach.\<close>

definition patch_paths :: "jstr \<Rightarrow> jstr list" where
  "patch_paths patch = (case parse_patch patch of Inl e \<Rightarrow> [] | Inr ops \<Rightarrow> map po_path ops)"

definition patch_recordable :: "tool_host \<Rightarrow> segs \<Rightarrow> jstr \<Rightarrow> service_state \<Rightarrow> bool" where
  "patch_recordable th W patch s \<longleftrightarrow>
     (case parse_patch patch of
        Inl e \<Rightarrow> True
      | Inr ops \<Rightarrow>
          (case plan_operations th None (fst s) ops of
             Inl e \<Rightarrow> True
           | Inr planned \<Rightarrow> recordable (th_host th) W (patch_paths patch) s \<and>
               roots_reachable W (patch_paths patch) (fst (for_each (write_planned th) planned (fst s)))))"

text \<open>
  C39. A patch is applied as a whole or not at all: when the tool throws, whether the patch does not
  parse, a hunk does not fit or a write fails half way, everything at and below its paths is as it was;
  when it returns, every operation was carried out in order, each hunk of an update at the only place
  where its preimage stands.
\<close>

theorem patch_is_all_or_nothing:
  assumes ok: "patch_recordable th W patch (fs, j)"
  shows "case apply_patch_tool th None patch (fs, Some \<lparr>rec_workspace = Some (W, j), rec_system = sys\<rparr>) of
      ((fs2, rs2), Inl e) \<Rightarrow> \<forall>k \<in> set (roots_of W (patch_paths patch)). \<forall>q. prefix k q \<longrightarrow> om_get fs2 q = om_get fs q
    | ((fs2, rs2), Inr res) \<Rightarrow>
        (\<exists>ops planned. parse_patch patch = Inr ops \<and> list_all2 (planned_for th fs) ops planned \<and>
           for_each (write_planned th) planned fs = (fs2, Inr ()) \<and> res = patch_result_of planned)"
proof (cases "parse_patch patch")
  case (Inl e)
  then show ?thesis by (simp add: apply_patch_tool_def)
next
  case (Inr ops)
  show ?thesis
  proof (cases "plan_operations th None fs ops")
    case (Inl e)
    then show ?thesis using Inr by (simp add: apply_patch_tool_def)
  next
    case planned: (Inr planned)
    have each: "list_all2 (planned_for th fs) ops planned"
      using planned unfolding plan_operations_def map_err_Inr_iff by (rule list_all2_mono) (rule plan_operation_for)
    then have paths: "map pf_path planned = patch_paths patch"
      by (simp add: patch_paths_def Inr) (auto simp: list_all2_conv_all_nth planned_for_def intro!: nth_equalityI)
    have rec: "recordable (th_host th) W (patch_paths patch) (fs, j)"
      "roots_reachable W (patch_paths patch) (fst (for_each (write_planned th) planned fs))"
      using ok Inr planned by (simp_all add: patch_recordable_def)
    obtain fs2 j2 r where run: "record_mutation (th_host th) (th_uuid th) (th_now th) W (th_run th) ApplyPatchTool (patch_paths patch)
        (for_each (write_planned th) planned) (fs, j) = ((fs2, j2), r)" by (metis prod.exhaust)
    have tool: "record_for th None ApplyPatchTool (map pf_path planned) (map pf_absolute planned) (for_each (write_planned th) planned)
        (fs, Some \<lparr>rec_workspace = Some (W, j), rec_system = sys\<rparr>) = ((fs2, Some \<lparr>rec_workspace = Some (W, j2), rec_system = sys\<rparr>), r)"
      using run by (simp add: record_for_def record_tool_mutation_def paths Let_def)
    show ?thesis
    proof (cases r)
      case (Inl e)
      from record_error_restores [OF rec run [unfolded Inl]] show ?thesis
        using tool Inl Inr planned by (simp add: apply_patch_tool_def)
    next
      case Inr2: (Inr u)
      from record_returned [OF run [unfolded Inr2]] show ?thesis
        using tool Inr2 Inr planned each by (auto simp: apply_patch_tool_def intro!: exI [of _ planned])
    qed
  qed
qed

definition demo_patch :: jstr where
  "demo_patch = js_join [10] [asc ''*** Begin Patch'', asc ''*** Update File: a'', asc ''@@'', [45, 1], [43, 2], asc ''*** End Patch'']"

theorem patch_is_all_or_nothing_witness:
  "case apply_patch_tool demo_tools None demo_patch (demo_tree, Some \<lparr>rec_workspace = Some (demo_root, demo_journal), rec_system = None\<rparr>) of
      ((fs2, rs2), Inl e) \<Rightarrow> False
    | ((fs2, rs2), Inr res) \<Rightarrow> pr_updated res = 1 \<and>
        (\<exists>ops planned. parse_patch demo_patch = Inr ops \<and> for_each (write_planned demo_tools) planned demo_tree = (fs2, Inr ()))"
proof -
  let ?ops = "[\<lparr>po_kind = UpdateFile, po_path = asc ''a'', po_body = [asc ''@@'', [45, 1], [43, 2]]\<rparr>]"
  let ?planned = "[\<lparr>pf_kind = UpdateFile, pf_path = asc ''a'', pf_absolute = asc ''/w/a'', pf_content = Some [2]\<rparr>]"
  have ops: "parse_patch demo_patch = Inr ?ops" by code_simp
  have planned: "plan_operations demo_tools None demo_tree ?ops = Inr ?planned" by code_simp
  have wf: "tree_wf (fst (for_each (write_planned demo_tools) ?planned demo_tree))" by code_simp
  have op: "open_above (fst (for_each (write_planned demo_tools) ?planned demo_tree)) (demo_root @ [asc ''a''])"
    unfolding open_above_code by code_simp
  have rts: "roots_of demo_root [asc ''a''] = [demo_root @ [asc ''a'']]" by code_simp
  have th: "th_host demo_tools = demo_host" by (simp add: demo_tools_def)
  have ok: "patch_recordable demo_tools demo_root demo_patch (demo_tree, demo_journal)"
    unfolding patch_recordable_def patch_paths_def ops fst_conv
    using planned wf op demo_recordable by (simp add: roots_reachable_def rts th)
  have "case snd (apply_patch_tool demo_tools None demo_patch (demo_tree, Some \<lparr>rec_workspace = Some (demo_root, demo_journal), rec_system = None\<rparr>)) of
      Inl e \<Rightarrow> False | Inr res \<Rightarrow> pr_updated res = 1" by code_simp
  with patch_is_all_or_nothing [OF ok, where sys = None] show ?thesis by (auto split: prod.splits sum.splits)
qed


end
