(* ===== verification/Session_Context.thy ===== *)
theory Session_Context
  imports Governor_Safety
begin

text \<open>
  The context of a session (\<open>packages/core/src/context/sessionContext.ts\<close>): the conversation, the
  estimator and policy it is measured with, the sources and skills put into the system message, and
  the request that is built from them before every model call.

  Parameters: \<open>nt\<close> and \<open>kilo\<close> are the number texts of the previous theories, \<open>summarize\<close> is the
  summarizer the session talks to, and the two signals are the state of the abort signal before and
  after its call. Priorities are rationals. The time stamp \<open>at\<close> of a maintenance record is left out.
\<close>

section \<open>Sources, skills and state\<close>

datatype source_kind = SkWorkspace | SkRepo | SkTrace | SkMemory | SkUser | SkSkill | SkMcp | SkCompaction

record context_source =
  src_id :: jstr
  src_kind :: source_kind
  src_title :: jstr
  src_content :: jstr
  src_priority :: "rat option"
  src_pinned :: bool

record skill_metadata =
  sk_id :: jstr
  sk_name :: jstr
  sk_description :: jstr
  sk_location :: jstr
  sk_body :: "jstr option"

record session_context =
  sc_thread :: thread
  sc_estimator :: token_estimator
  sc_policy :: context_policy
  sc_sources :: "(jstr, context_source) omap"
  sc_skills :: "(jstr, skill_metadata) omap"
  sc_maintenance :: "maintenance list"
  sc_instructions :: "jstr option"
  sc_subagent :: bool

definition source_kind_text :: "source_kind \<Rightarrow> jstr" where
  "source_kind_text k = (case k of SkWorkspace \<Rightarrow> asc ''workspace'' | SkRepo \<Rightarrow> asc ''repo'' | SkTrace \<Rightarrow> asc ''trace''
     | SkMemory \<Rightarrow> asc ''memory'' | SkUser \<Rightarrow> asc ''user'' | SkSkill \<Rightarrow> asc ''skill'' | SkMcp \<Rightarrow> asc ''mcp''
     | SkCompaction \<Rightarrow> asc ''compaction'')"

abbreviation sc_est :: "(jnum \<Rightarrow> jstr) \<Rightarrow> session_context \<Rightarrow> estimate" where
  "sc_est nt c \<equiv> te_estimate_message nt (sc_estimator c)"

definition new_session_context :: "thread \<Rightarrow> token_estimator \<Rightarrow> context_policy \<Rightarrow> jstr option \<Rightarrow> bool \<Rightarrow> session_context" where
  "new_session_context t e p instructions subagent =
     \<lparr>sc_thread = t, sc_estimator = e, sc_policy = p, sc_sources = [], sc_skills = [], sc_maintenance = [],
      sc_instructions = instructions, sc_subagent = subagent\<rparr>"

definition add_source :: "context_source \<Rightarrow> session_context \<Rightarrow> session_context" where
  "add_source s c = c\<lparr>sc_sources := om_set (src_id s) s (sc_sources c)\<rparr>"

definition remove_source :: "jstr \<Rightarrow> session_context \<Rightarrow> session_context" where
  "remove_source i c = c\<lparr>sc_sources := om_del i (sc_sources c)\<rparr>"

definition register_skill :: "skill_metadata \<Rightarrow> session_context \<Rightarrow> session_context" where
  "register_skill s c = c\<lparr>sc_skills := om_set (sk_id s) s (sc_skills c)\<rparr>"

definition remove_skill :: "jstr \<Rightarrow> session_context \<Rightarrow> session_context" where
  "remove_skill i c = c\<lparr>sc_skills := om_del i (sc_skills c)\<rparr>"

definition clear_sources :: "session_context \<Rightarrow> session_context" where
  "clear_sources c = c\<lparr>sc_sources := []\<rparr>"

text \<open>\<open>setLlmClient\<close>: a client with a context window resizes the policy and keeps its preservation limits.\<close>

definition resize_policy :: "rat option \<Rightarrow> session_context \<Rightarrow> session_context" where
  "resize_policy window c =
     (if window = None \<or> window = Some 0 then c
      else let p = sc_policy c; keep = (\<lambda>n. Some (Num (of_int n)))
           in c\<lparr>sc_policy := create_context_policy
                \<lparr>o_context_window = window, o_is_subagent = sc_subagent c,
                 o_preserve_full_turns = keep (preserve_full_turns p),
                 o_preserve_recent_tokens = keep (preserve_recent_tokens p),
                 o_preserve_tool_iterations = keep (preserve_tool_iterations p),
                 o_max_tool_result_tokens = keep (max_tool_result_tokens p)\<rparr>\<rparr>)"

section \<open>Operations of the conversation\<close>

definition on_thread ::
  "(thread \<Rightarrow> (thread, js_error, 'a) outcome) \<Rightarrow> session_context \<Rightarrow> (session_context, js_error, 'a) outcome" where
  "on_thread f c = (case f (sc_thread c) of (t, r) \<Rightarrow> (c\<lparr>sc_thread := t\<rparr>, r))"

definition sc_begin_turn where "sc_begin_turn nt input c = on_thread (begin_turn (sc_est nt c) input) c"
definition sc_commit_turn where "sc_commit_turn c = on_thread commit_turn c"
definition sc_abort_turn where "sc_abort_turn nt reason c = on_thread (abort_turn (sc_est nt c) reason) c"
definition sc_interrupt_turn where "sc_interrupt_turn nt reason c = on_thread (interrupt_turn (sc_est nt c) reason) c"
definition sc_append_assistant where "sc_append_assistant nt content calls c = on_thread (append_assistant (sc_est nt c) content calls) c"
definition sc_append_tool_result where
  "sc_append_tool_result nt cid name content iteration c =
     on_thread (append_tool_result (sc_est nt c) cid name content None (Some iteration)) c"
definition sc_set_iteration :: "int \<Rightarrow> session_context \<Rightarrow> session_context" where
  "sc_set_iteration n c = c\<lparr>sc_thread := (sc_thread c)\<lparr>th_iteration := n\<rparr>\<rparr>"

text \<open>\<open>getCommittedDialog\<close>: of every closed turn the user message and the last assistant message.\<close>

definition turn_dialog :: "thread_entry list \<Rightarrow> (bool \<times> jstr) list" where
  "turn_dialog es =
     (case List.find (\<lambda>e. en_kind e = UserEntry) es of
        Some e \<Rightarrow> if is_tool_msg (en_message e) then [] else [(False, msg_content (en_message e))]
      | None \<Rightarrow> [])
     @ (case filter (\<lambda>e. en_kind e = AssistantEntry) es of
          [] \<Rightarrow> []
        | as \<Rightarrow> if is_assistant_msg (en_message (last as)) then [(True, msg_content (en_message (last as)))] else [])"

definition get_committed_dialog :: "session_context \<Rightarrow> (bool \<times> jstr) list" where
  "get_committed_dialog c =
     (let t = sc_thread c
      in concat (map (\<lambda>x. turn_dialog (entries_for_turn x t))
           (filter (\<lambda>x. turn_status_of t x = Some TurnCommitted \<or> turn_status_of t x = Some TurnAborted) (turn_ids_in_order t))))"

section \<open>The system message\<close>

definition render_source :: "context_source \<Rightarrow> jstr" where
  "render_source s = asc ''### '' @ src_title s @ asc '' ('' @ source_kind_text (src_kind s) @ asc '')'' @ [10] @ src_content s"

definition render_sources :: "context_source list \<Rightarrow> jstr" where
  "render_sources ss = (if ss = [] then [] else js_join [10] (asc ''Context sources:'' # map render_source ss))"

definition render_tool :: "(jnum \<Rightarrow> jstr) \<Rightarrow> tool_metadata \<Rightarrow> jstr" where
  "render_tool nt t =
     (let details = [asc ''risk: '' @ risk_text (tm_risk t)]
        @ (case tm_category t of Some k \<Rightarrow> if k = [] then [] else [asc ''category: '' @ k] | None \<Rightarrow> [])
        @ (case stringify nt (tm_parameters t) of Some p \<Rightarrow> [asc ''parameters: '' @ p] | None \<Rightarrow> [])
      in asc ''- '' @ tm_name t @ asc '' ('' @ js_join (asc ''; '') details @ asc ''): '' @ tm_description t)"

definition render_tools :: "(jnum \<Rightarrow> jstr) \<Rightarrow> tool_metadata list \<Rightarrow> jstr" where
  "render_tools nt ts = (if ts = [] then [] else js_join [10] (asc ''Available tools:'' # map (render_tool nt) ts))"

datatype context_section = SecSystem | SecThread | SecHistory | SecSources | SecSkills | SecTools

datatype contributor_status = StIncluded | StDropped | StPruned | StElided

record contributor =
  cb_id :: jstr
  cb_section :: context_section
  cb_title :: jstr
  cb_raw :: nat
  cb_injected :: nat
  cb_status :: contributor_status

definition skill_line :: "skill_metadata \<Rightarrow> jstr" where
  "skill_line s = sk_name s @ asc '': '' @ sk_description s @ asc '' ('' @ sk_location s @ asc '')''"

definition skill_contributor :: "token_estimator \<Rightarrow> skill_metadata \<Rightarrow> contributor" where
  "skill_contributor e s =
     \<lparr>cb_id = asc ''skill:'' @ sk_id s, cb_section = SecSkills, cb_title = sk_name s,
      cb_raw = te_estimate_text e (case sk_body s of Some b \<Rightarrow> b | None \<Rightarrow> skill_line s),
      cb_injected = te_estimate_text e (skill_line s), cb_status = StIncluded\<rparr>"

definition render_skills :: "token_estimator \<Rightarrow> skill_metadata list \<Rightarrow> jstr \<times> nat \<times> contributor list" where
  "render_skills e ss =
     (if ss = [] then ([], 0, [])
      else let content = js_join [10] (asc ''Available skills (metadata only; load body only when needed):''
                                  # map (\<lambda>s. asc ''- '' @ skill_line s) ss)
           in (content, te_estimate_text e content, map (skill_contributor e) ss))"

text \<open>\<open>selectSources\<close>: the pinned sources, then by falling priority whatever still fits.\<close>

fun fit_sources :: "token_estimator \<Rightarrow> int \<Rightarrow> nat \<Rightarrow> context_source list \<Rightarrow> context_source list \<times> context_source list" where
  "fit_sources e budget used [] = ([], [])"
| "fit_sources e budget used (s # ss) =
     (let n = te_estimate_text e (render_source s)
      in if int (used + n) \<le> budget
         then (case fit_sources e budget (used + n) ss of (inc, dr) \<Rightarrow> (s # inc, dr))
         else (case fit_sources e budget used ss of (inc, dr) \<Rightarrow> (inc, s # dr)))"

definition source_priority :: "context_source \<Rightarrow> rat" where
  "source_priority s = (case src_priority s of Some p \<Rightarrow> p | None \<Rightarrow> 0)"

definition source_tokens :: "token_estimator \<Rightarrow> context_source list \<Rightarrow> nat" where
  "source_tokens e ss = sum_list (map (\<lambda>s. te_estimate_text e (render_source s)) ss)"

definition select_sources :: "token_estimator \<Rightarrow> int \<Rightarrow> context_source list \<Rightarrow> context_source list \<times> context_source list" where
  "select_sources e budget sources =
     (let pinned = filter src_pinned sources;
          unpinned = sort_key (\<lambda>s. - source_priority s) (filter (\<lambda>s. \<not> src_pinned s) sources)
      in case fit_sources e budget (source_tokens e pinned) unpinned of
           (inc, dr) \<Rightarrow> (pinned @ inc, dr))"

definition source_contributor :: "token_estimator \<Rightarrow> contributor_status \<Rightarrow> context_source \<Rightarrow> contributor" where
  "source_contributor e st s =
     (let raw = te_estimate_text e (render_source s)
      in \<lparr>cb_id = src_id s, cb_section = SecSources, cb_title = src_title s, cb_raw = raw,
          cb_injected = (if st = StIncluded then raw else 0), cb_status = st\<rparr>)"

definition tool_contributor :: "(jnum \<Rightarrow> jstr) \<Rightarrow> token_estimator \<Rightarrow> tool_metadata \<Rightarrow> contributor" where
  "tool_contributor nt e t =
     (let n = te_estimate_text e (render_tool nt t)
      in \<lparr>cb_id = asc ''tool:'' @ tm_name t, cb_section = SecTools, cb_title = tm_name t, cb_raw = n, cb_injected = n,
          cb_status = StIncluded\<rparr>)"

record build_input =
  bi_system_prompt :: jstr
  bi_mode :: jstr
  bi_tools :: "tool_metadata list"

record system_block =
  sb_content :: jstr
  sb_included :: "jstr list"
  sb_dropped :: "jstr list"
  sb_skills :: "contributor list"
  sb_tools :: "contributor list"
  sb_sources :: "contributor list"

definition mode_line :: "build_input \<Rightarrow> jstr" where
  "mode_line i = asc ''Mode: '' @ bi_mode i"

text \<open>The tokens spoken for before any source is considered.\<close>

definition base_tokens :: "(jnum \<Rightarrow> jstr) \<Rightarrow> build_input \<Rightarrow> session_context \<Rightarrow> nat" where
  "base_tokens nt i c =
     (let e = sc_estimator c
      in te_estimate_text e (bi_system_prompt i) + te_estimate_text e (mode_line i)
         + fst (snd (render_skills e (map snd (sc_skills c)))) + te_estimate_text e (render_tools nt (bi_tools i))
         + estimate_thread_tokens (sc_thread c))"

definition source_budget :: "(jnum \<Rightarrow> jstr) \<Rightarrow> build_input \<Rightarrow> session_context \<Rightarrow> int" where
  "source_budget nt i c = max 0 (input_budget (sc_policy c) - int (base_tokens nt i c))"

definition build_system_block :: "(jnum \<Rightarrow> jstr) \<Rightarrow> build_input \<Rightarrow> session_context \<Rightarrow> system_block" where
  "build_system_block nt i c =
     (let e = sc_estimator c;
          (skills, skill_tokens, skill_cbs) = render_skills e (map snd (sc_skills c));
          (inc, dr) = select_sources e (source_budget nt i c) (map snd (sc_sources c));
          parts = filter (\<lambda>p. js_trim p \<noteq> [])
            [bi_system_prompt i, [], mode_line i, render_tools nt (bi_tools i), skills, render_sources inc]
      in \<lparr>sb_content = js_join [10] parts, sb_included = map src_id inc, sb_dropped = map src_id dr,
          sb_skills = skill_cbs, sb_tools = map (tool_contributor nt e) (bi_tools i),
          sb_sources = map (source_contributor e StIncluded) inc @ map (source_contributor e StDropped) dr\<rparr>)"


section \<open>The report\<close>

definition thread_contributor :: "thread_entry \<Rightarrow> contributor" where
  "thread_contributor e =
     \<lparr>cb_id = en_id e, cb_section = SecThread, cb_title = kind_text_of (en_kind e) @ asc '':'' @ en_turn e,
      cb_raw = (case en_original e of Some n \<Rightarrow> n | None \<Rightarrow> en_tokens e), cb_injected = en_tokens e,
      cb_status = (if en_elided e = Some True then StElided else StIncluded)\<rparr>"

definition whole_contributor :: "string \<Rightarrow> context_section \<Rightarrow> string \<Rightarrow> nat \<Rightarrow> contributor" where
  "whole_contributor i sec title n =
     \<lparr>cb_id = asc i, cb_section = sec, cb_title = asc title, cb_raw = n, cb_injected = n, cb_status = StIncluded\<rparr>"

record context_report =
  cr_total :: nat
  cr_sections :: "context_section \<Rightarrow> nat"
  cr_contributors :: "contributor list"

text \<open>One turn of the summing loop: an item called \<open>thread\<close>, or of that section, counts apart.\<close>

definition count_contributor :: "contributor \<Rightarrow> (context_section \<Rightarrow> nat) \<Rightarrow> context_section \<Rightarrow> nat" where
  "count_contributor b f =
     (if cb_id b = asc ''thread'' then f(SecThread := f SecThread + cb_injected b)
      else if cb_section b = SecThread then f
      else f(cb_section b := f (cb_section b) + cb_injected b))"

definition build_report ::
  "(jnum \<Rightarrow> jstr) \<Rightarrow> jstr \<Rightarrow> message list \<Rightarrow> system_block \<Rightarrow> nat \<Rightarrow> session_context \<Rightarrow> context_report" where
  "build_report nt system_content messages block estimated c =
     (let e = sc_estimator c;
          system_tokens = te_estimate_text e system_content;
          thread_tokens = te_estimate nt e messages;
          contributors =
            [whole_contributor ''system'' SecSystem ''System prompt'' system_tokens,
             whole_contributor ''history'' SecHistory ''Conversation history'' thread_tokens]
            @ sb_sources block @ sb_tools block @ sb_skills block
            @ filter (\<lambda>b. cb_id b \<noteq> asc ''thread'') (map thread_contributor (th_entries (sc_thread c)));
          sections = foldl (\<lambda>f b. count_contributor b f) (\<lambda>_. 0) contributors
      in \<lparr>cr_total = estimated, cr_sections = sections(SecThread := thread_tokens, SecHistory := thread_tokens),
          cr_contributors = contributors\<rparr>)"

section \<open>The request\<close>

record context_snapshot =
  cs_messages :: "message list"
  cs_included :: "jstr list"
  cs_dropped :: "jstr list"
  cs_pinned :: "jstr list"
  cs_estimated :: nat
  cs_report :: context_report
  cs_budget :: int
  cs_threshold :: int

definition system_message :: "system_block \<Rightarrow> message" where
  "system_message block = ChatMsg RSystem (sb_content block) None"

text \<open>The part \<open>prepareRequest\<close> and \<open>snapshot\<close> share: the messages of a thread under a system message.\<close>

definition assemble :: "(jnum \<Rightarrow> jstr) \<Rightarrow> system_block \<Rightarrow> session_context \<Rightarrow> context_snapshot" where
  "assemble nt block c =
     (let thread_messages = build_messages (sc_thread c);
          messages = system_message block # thread_messages;
          estimated = te_estimate nt (sc_estimator c) messages
      in \<lparr>cs_messages = messages, cs_included = sb_included block, cs_dropped = sb_dropped block,
          cs_pinned = map src_id (filter src_pinned (map snd (sc_sources c))), cs_estimated = estimated,
          cs_report = build_report nt (sb_content block) thread_messages block estimated c,
          cs_budget = input_budget (sc_policy c), cs_threshold = compact_threshold (sc_policy c)\<rparr>)"

definition snapshot :: "(jnum \<Rightarrow> jstr) \<Rightarrow> build_input \<Rightarrow> session_context \<Rightarrow> context_snapshot" where
  "snapshot nt i c = assemble nt (build_system_block nt i c) c"

definition remember_maintenance :: "maintenance \<Rightarrow> session_context \<Rightarrow> session_context" where
  "remember_maintenance m c =
     (if mt_compacted m \<or> 0 < mt_dropped m \<or> (case mt_dropped_turns m of Some n \<Rightarrow> 0 < n | None \<Rightarrow> False)
      then c\<lparr>sc_maintenance := sc_maintenance c @ [m]\<rparr> else c)"

definition thread_budget :: "(jnum \<Rightarrow> jstr) \<Rightarrow> system_block \<Rightarrow> session_context \<Rightarrow> int" where
  "thread_budget nt block c =
     max 0 (compact_threshold (sc_policy c) - int (te_estimate nt (sc_estimator c) [system_message block]))"

definition prepare_request ::
  "(jnum \<Rightarrow> jstr) \<Rightarrow> (nat \<Rightarrow> jstr) \<Rightarrow> summarizer \<Rightarrow> abort_state \<Rightarrow> abort_state \<Rightarrow> build_input \<Rightarrow> session_context \<Rightarrow>
   (session_context, js_error, context_snapshot \<times> maintenance list) outcome option" where
  "prepare_request nt kilo summarize signal signal_after i c =
     (let block = build_system_block nt i c
      in case govern (sc_est nt c) kilo summarize signal signal_after (sc_policy c) (thread_budget nt block c) (sc_thread c) of
           None \<Rightarrow> None
         | Some (t, Inl e) \<Rightarrow> Some (c\<lparr>sc_thread := t\<rparr>, Inl e)
         | Some (t, Inr g) \<Rightarrow>
           (let c' = foldl (\<lambda>c m. remember_maintenance m c) (c\<lparr>sc_thread := t\<rparr>) (gr_maintenance g)
            in Some (c', Inr (assemble nt block c', gr_maintenance g))))"

text \<open>\<open>calibrateFromUsage\<close>: the usage the provider reported against the uncalibrated estimate.\<close>

definition with_estimator :: "(jnum \<Rightarrow> jstr) \<Rightarrow> token_estimator \<Rightarrow> session_context \<Rightarrow> session_context" where
  "with_estimator nt e c =
     (if calibration_factor e = calibration_factor (sc_estimator c) then c\<lparr>sc_estimator := e\<rparr>
      else c\<lparr>sc_estimator := e, sc_thread := reestimate_tokens (te_estimate_message nt e) (sc_thread c)\<rparr>)"

definition calibrate_from_usage :: "(jnum \<Rightarrow> jstr) \<Rightarrow> rat option \<Rightarrow> message list \<Rightarrow> session_context \<Rightarrow> session_context" where
  "calibrate_from_usage nt actual messages c = (case actual of
     None \<Rightarrow> c
   | Some a \<Rightarrow>
     (if a \<le> 0 then c
      else let raw = estimate_messages_tokens nt messages
           in if 0 < raw then with_estimator nt (te_calibrate (of_nat raw) a (sc_estimator c)) c else c))"

definition reset_calibration :: "(jnum \<Rightarrow> jstr) \<Rightarrow> session_context \<Rightarrow> session_context" where
  "reset_calibration nt c = with_estimator nt (te_reset (sc_estimator c)) c"

definition compact_now ::
  "(jnum \<Rightarrow> jstr) \<Rightarrow> summarizer \<Rightarrow> abort_state \<Rightarrow> abort_state \<Rightarrow> jstr option \<Rightarrow> session_context \<Rightarrow>
   (session_context, js_error, maintenance) outcome" where
  "compact_now nt summarize signal signal_after instructions c =
     (let given = filter (\<lambda>s. s \<noteq> []) (map js_trim (option_values [sc_instructions c, instructions]));
          joined = js_join [10] given
      in case compact_turns_now (sc_est nt c) summarize signal signal_after (sc_policy c)
                (if joined = [] then None else Some joined) (sc_thread c) of
           (t, Inl e) \<Rightarrow> (c\<lparr>sc_thread := t\<rparr>, Inl e)
         | (t, Inr m) \<Rightarrow>
           (let c' = c\<lparr>sc_thread := t\<rparr> in (if mt_compacted m then remember_maintenance m c' else c', Inr m)))"

definition clear_maintenance :: "session_context \<Rightarrow> session_context" where
  "clear_maintenance c = c\<lparr>sc_maintenance := []\<rparr>"

section \<open>State across restarts\<close>

definition sc_restore_conversation ::
  "(jnum \<Rightarrow> jstr) \<Rightarrow> (bool \<times> jstr) list \<Rightarrow> session_context \<Rightarrow> session_context \<times> maintenance" where
  "sc_restore_conversation nt messages c =
     (let before = estimate_thread_tokens (sc_thread c);
          t = fst (restore_from_conversation (sc_est nt c) messages (sc_thread c))
      in (c\<lparr>sc_thread := t\<rparr>, empty_maintenance t before (estimate_thread_tokens t)))"

record session_context_state =
  scs_version :: nat
  scs_thread :: thread_state
  scs_maintenance :: "maintenance list option"

definition sc_export_state :: "session_context \<Rightarrow> session_context_state" where
  "sc_export_state c =
     \<lparr>scs_version = 1, scs_thread = export_state (sc_thread c), scs_maintenance = Some (js_slice_last 20 (sc_maintenance c))\<rparr>"

definition is_session_context_state :: "session_context_state \<Rightarrow> bool" where
  "is_session_context_state s \<longleftrightarrow> scs_version s = 1 \<and> is_conversation_thread_state (scs_thread s)"

definition sc_restore_state ::
  "(jnum \<Rightarrow> jstr) \<Rightarrow> bool \<Rightarrow> session_context_state \<Rightarrow> session_context \<Rightarrow> session_context \<times> bool" where
  "sc_restore_state nt preserve s c =
     (if \<not> is_session_context_state s then (c, False)
      else case restore_state (sc_est nt c) preserve (scs_thread s) (sc_thread c) of
             (t, True) \<Rightarrow> (c\<lparr>sc_thread := t, sc_maintenance := (case scs_maintenance s of Some ms \<Rightarrow> ms | None \<Rightarrow> [])\<rparr>, True)
           | (t, False) \<Rightarrow> (c\<lparr>sc_thread := t\<rparr>, False))"


section \<open>Which sources a request carries\<close>

lemma source_tokens_simps [simp]:
  "source_tokens e [] = 0"
  "source_tokens e (s # ss) = te_estimate_text e (render_source s) + source_tokens e ss"
  "source_tokens e (ss @ ts) = source_tokens e ss + source_tokens e ts"
  by (simp_all add: source_tokens_def)

lemma fit_partition: "fit_sources e b u ss = (inc, dr) \<Longrightarrow> mset inc + mset dr = mset ss"
  by (induction e b u ss arbitrary: inc dr rule: fit_sources.induct) (auto simp: Let_def split: if_splits prod.splits)

lemma fit_within: "fit_sources e b u ss = (inc, dr) \<Longrightarrow> int u \<le> b \<or> inc = [] \<Longrightarrow> int (u + source_tokens e inc) \<le> b \<or> inc = []"
proof (induction e b u ss arbitrary: inc dr rule: fit_sources.induct)
  case (2 e b u s ss)
  let ?n = "te_estimate_text e (render_source s)"
  show ?case
  proof (cases "int (u + ?n) \<le> b")
    case True
    obtain inc' dr' where rest: "fit_sources e b (u + ?n) ss = (inc', dr')" by fastforce
    with 2(3) True have "inc = s # inc'" by simp
    with 2(1) [OF refl True rest] True show ?thesis by auto
  next
    case False
    obtain inc' dr' where rest: "fit_sources e b u ss = (inc', dr')" by fastforce
    with 2(2,3,4) False show ?thesis by (auto simp: Let_def)
  qed
qed simp

lemma fit_maximal:
  "fit_sources e b u ss = (inc, dr) \<Longrightarrow> sorted_wrt (\<lambda>x y. source_priority y \<le> source_priority x) ss \<Longrightarrow> s \<in> set dr \<Longrightarrow>
   b < int (u + source_tokens e (filter (\<lambda>x. source_priority s \<le> source_priority x) inc) + te_estimate_text e (render_source s))"
proof (induction e b u ss arbitrary: inc dr rule: fit_sources.induct)
  case (2 e b u x ss)
  let ?n = "te_estimate_text e (render_source x)"
  show ?case
  proof (cases "int (u + ?n) \<le> b")
    case True
    obtain inc' dr' where rest: "fit_sources e b (u + ?n) ss = (inc', dr')" by fastforce
    with 2(3) True have inc: "inc = x # inc'" "dr = dr'" by simp_all
    then have "s \<in> set ss" using fit_partition [OF rest] 2(5) by (metis set_mset_mset set_mset_union UnCI)
    then have "source_priority s \<le> source_priority x" using 2(4) by simp
    with 2(1) [OF refl True rest] 2(4,5) inc show ?thesis by (simp add: add.assoc)
  next
    case False
    obtain inc' dr' where rest: "fit_sources e b u ss = (inc', dr')" by fastforce
    with 2(3) False have inc: "inc = inc'" "dr = x # dr'" by simp_all
    show ?thesis
    proof (cases "s \<in> set dr'")
      case True
      with 2(2) [OF refl False rest] 2(4) inc show ?thesis by simp
    next
      case False
      with inc 2(5) \<open>\<not> int (u + ?n) \<le> b\<close> show ?thesis by simp
    qed
  qed
qed simp

lemma sorted_by_priority: "sorted_wrt (\<lambda>x y. source_priority y \<le> source_priority x) (sort_key (\<lambda>s. - source_priority s) ss)"
proof -
  have "sorted_wrt (\<le>) (map (\<lambda>s. - source_priority s) (sort_key (\<lambda>s. - source_priority s) ss))"
    by (rule sorted_sort_key)
  then show ?thesis by (simp add: sorted_wrt_map)
qed

text \<open>
  C0. Every source is either put into the system message or reported as dropped. A pinned source is
  never dropped. Unless the pinned sources alone overrun the budget, or nothing else is taken, what is taken fits
  the budget; and a source is dropped only when it would not fit beside the pinned ones and the
  taken ones of the same or a higher priority.
\<close>

theorem sources_fit_the_budget:
  assumes "select_sources e budget sources = (inc, dr)"
  shows "mset inc + mset dr = mset sources
    \<and> (\<forall>s \<in> set sources. src_pinned s \<longrightarrow> s \<notin> set dr)
    \<and> (source_tokens e inc \<le> source_tokens e (filter src_pinned sources) \<or> int (source_tokens e inc) \<le> budget)
    \<and> (\<forall>s \<in> set dr. budget < int (source_tokens e (filter src_pinned sources)
          + source_tokens e (filter (\<lambda>x. \<not> src_pinned x \<and> source_priority s \<le> source_priority x) inc)
          + te_estimate_text e (render_source s)))"
proof -
  let ?p = "filter src_pinned sources" and ?u = "sort_key (\<lambda>s. - source_priority s) (filter (\<lambda>s. \<not> src_pinned s) sources)"
  obtain inc' where fit: "fit_sources e budget (source_tokens e ?p) ?u = (inc', dr)" and inc: "inc = ?p @ inc'"
    using assms by (auto simp: select_sources_def Let_def split: prod.splits)
  note part = fit_partition [OF fit]
  have unpinned: "\<not> src_pinned s" if "s \<in> set dr \<or> s \<in> set inc'" for s
  proof -
    have "set inc' \<union> set dr = set ?u" using part by (metis set_mset_mset set_mset_union)
    then show ?thesis using that by auto
  qed
  have "mset inc + mset dr = mset sources"
    using part multiset_partition [of "mset sources" src_pinned] unfolding inc by (simp add: add.assoc)
  moreover have "\<forall>s \<in> set sources. src_pinned s \<longrightarrow> s \<notin> set dr" using unpinned by blast
  moreover have "source_tokens e inc \<le> source_tokens e ?p \<or> int (source_tokens e inc) \<le> budget"
  proof (cases "int (source_tokens e ?p) \<le> budget")
    case True
    then show ?thesis using fit_within [OF fit] inc by auto
  next
    case False
    have "fit_sources e budget v ss = (xs, ys) \<Longrightarrow> budget < int v \<Longrightarrow> xs = []" for v ss xs ys
      by (induction e budget v ss arbitrary: xs ys rule: fit_sources.induct) (auto simp: Let_def split: if_splits prod.splits)
    from this [OF fit] False have "inc' = []" by simp
    with inc show ?thesis by simp
  qed
  moreover have "budget < int (source_tokens e ?p
      + source_tokens e (filter (\<lambda>x. \<not> src_pinned x \<and> source_priority s \<le> source_priority x) inc)
      + te_estimate_text e (render_source s))" if s: "s \<in> set dr" for s
  proof -
    have "filter (\<lambda>x. \<not> src_pinned x \<and> source_priority s \<le> source_priority x) inc = filter (\<lambda>x. source_priority s \<le> source_priority x) inc'"
      using unpinned unfolding inc by (auto simp: filter_empty_conv intro!: filter_cong)
    then show ?thesis using fit_maximal [OF fit sorted_by_priority s] by simp
  qed
  ultimately show ?thesis by blast
qed

definition note_source :: "string \<Rightarrow> rat option \<Rightarrow> bool \<Rightarrow> context_source" where
  "note_source s p pin = \<lparr>src_id = asc s, src_kind = SkUser, src_title = asc s, src_content = asc s, src_priority = p, src_pinned = pin\<rparr>"

definition note_sources :: "context_source list" where
  "note_sources = [note_source ''low'' None False, note_source ''plan'' None True, note_source ''high'' (Some 9) False]"

theorem sources_fit_the_budget_witness:
  "map src_id (fst (select_sources (new_token_estimator None None None) 12 note_sources)) = [asc ''plan'', asc ''high'']
   \<and> (\<forall>s \<in> set (snd (select_sources (new_token_estimator None None None) 12 note_sources)). \<not> src_pinned s)"
proof -
  have run: "map src_id (fst (select_sources (new_token_estimator None None None) 12 note_sources)) = [asc ''plan'', asc ''high'']"
    by code_simp
  obtain inc dr where sel: "select_sources (new_token_estimator None None None) 12 note_sources = (inc, dr)" by fastforce
  from sources_fit_the_budget [OF this]
  have parts: "mset inc + mset dr = mset note_sources" and kept: "\<forall>s \<in> set note_sources. src_pinned s \<longrightarrow> s \<notin> set dr" by blast+
  have "set dr \<subseteq> set note_sources" using parts by (metis set_mset_mset set_mset_union Un_upper2)
  with kept run sel show ?thesis by (metis snd_conv subsetD)
qed

section \<open>What preparing a request does to the conversation\<close>

definition context_ok :: "session_context \<Rightarrow> bool" where
  "context_ok c \<longleftrightarrow> thread_inv (sc_thread c) \<and> calibration_factor (sc_estimator c) \<le> 8 \<and> max_factor (sc_estimator c) \<le> 8"

lemma remember_fields [simp]:
  "sc_thread (remember_maintenance m c) = sc_thread c"
  "sc_estimator (remember_maintenance m c) = sc_estimator c"
  "sc_policy (remember_maintenance m c) = sc_policy c"
  by (simp_all add: remember_maintenance_def)

lemma remember_all_fields [simp]:
  "sc_thread (foldl (\<lambda>c m. remember_maintenance m c) c ms) = sc_thread c"
  "sc_estimator (foldl (\<lambda>c m. remember_maintenance m c) c ms) = sc_estimator c"
  "sc_policy (foldl (\<lambda>c m. remember_maintenance m c) c ms) = sc_policy c"
  by (induction ms arbitrary: c) simp_all

lemma notices_are_cheap:
  "calibration_factor e \<le> 8 \<Longrightarrow> int (te_estimate_message nt e (notice_message (truncated_notice k))) \<le> 256"
  unfolding te_estimate_message_def by (rule scaled_bound [OF truncated_notice_tokens])

lemma prepare_request_governs:
  assumes "context_ok c"
  obtains c' res where "prepare_request nt kilo summarize signal signal_after i c = Some (c', res)"
    and "governed (sc_thread c) (sc_thread c')" and "sc_estimator c' = sc_estimator c" and "sc_policy c' = sc_policy c"
    and "context_ok c'"
    and "\<And>snap ms. res = Inr (snap, ms) \<Longrightarrow>
      cs_messages snap = system_message (build_system_block nt i c) # build_messages (sc_thread c')"
proof -
  let ?est = "sc_est nt c" and ?b = "thread_budget nt (build_system_block nt i c) c"
  obtain t res where g: "govern ?est kilo summarize signal signal_after (sc_policy c) ?b (sc_thread c) = Some (t, res)"
      "governed (sc_thread c) t"
    using govern_returns [of ?est "sc_thread c" kilo summarize signal signal_after "sc_policy c" ?b]
      notices_are_cheap assms unfolding context_ok_def by blast
  have "thread_step\<^sup>*\<^sup>* (sc_thread c) t" using g(2) by (simp add: governed_def)
  then have "thread_inv t"
    using assms by (induction rule: rtranclp_induct) (auto simp: context_ok_def intro: thread_step_inv)
  with g assms show ?thesis
    by (cases res) (auto simp: prepare_request_def Let_def context_ok_def assemble_def intro!: that)
qed

end
