(* ===== verification/Run_Actions.thy ===== *)
theory Run_Actions
  imports Session_Context Run_Phase Tool_Scheduler Stall_Detector
begin

text \<open>
  The state of one main-agent run and the operations every part of it uses: appending trace events,
  run phases, the observation of verification commands and the collection of the changed files of a
  result (\<open>packages/core/src/runtime/agentRuntime.ts\<close>).

  An \<open>act\<close> is an asynchronous method: it maps the state to the state it leaves and the value it
  returns or the error it throws, or to \<open>None\<close> when it does not return. What it awaits from outside
  is an argument, \<open>run_env\<close>: the trace store, the clock, the abort signal, the policy, the tools and
  the model, each read at the current tick. Every such read advances the tick.
\<close>

section \<open>Actions\<close>

type_synonym ('s, 'a) act = "'s \<Rightarrow> ('s, js_error, 'a) outcome option"

definition ret :: "'a \<Rightarrow> ('s, 'a) act" where
  "ret x s = Some (s, Inr x)"

definition raise :: "js_error \<Rightarrow> ('s, 'a) act" where
  "raise e s = Some (s, Inl e)"

definition andthen :: "('s, 'a) act \<Rightarrow> ('a \<Rightarrow> ('s, 'b) act) \<Rightarrow> ('s, 'b) act" where
  "andthen m f s = (case m s of
     None \<Rightarrow> None
   | Some (s', Inl e) \<Rightarrow> Some (s', Inl e)
   | Some (s', Inr x) \<Rightarrow> f x s')"

definition catching :: "('s, 'a) act \<Rightarrow> (js_error \<Rightarrow> ('s, 'a) act) \<Rightarrow> ('s, 'a) act" where
  "catching m h s = (case m s of
     None \<Rightarrow> None
   | Some (s', Inl e) \<Rightarrow> h e s'
   | Some (s', Inr x) \<Rightarrow> Some (s', Inr x))"

definition modify :: "('s \<Rightarrow> 's) \<Rightarrow> ('s, unit) act" where
  "modify f s = Some (f s, Inr ())"

definition reading :: "('s \<Rightarrow> ('s, 'a) act) \<Rightarrow> ('s, 'a) act" where
  "reading f s = f s s"

definition from_sum :: "js_error + 'a \<Rightarrow> ('s, 'a) act" where
  "from_sum r s = Some (s, r)"

fun run_all :: "('s, unit) act list \<Rightarrow> ('s, unit) act" where
  "run_all [] = ret ()"
| "run_all (a # as) = andthen a (\<lambda>_. run_all as)"

lemmas act_defs = ret_def raise_def andthen_def catching_def modify_def reading_def from_sum_def

text \<open>
  A law of the states an action connects. It holds of a composed action when it is reflexive,
  transitive and holds of the parts; each use of the rules below is one syntactic step.
\<close>

definition obeys :: "('s \<Rightarrow> 's \<Rightarrow> bool) \<Rightarrow> ('s, 'a) act \<Rightarrow> bool" where
  "obeys R m \<longleftrightarrow> (\<forall>s s' r. m s = Some (s', r) \<longrightarrow> R s s')"

lemma obeysD: "obeys R m \<Longrightarrow> m s = Some (s', r) \<Longrightarrow> R s s'"
  by (auto simp: obeys_def)

lemma obeys_modify: "(\<And>s. R s (f s)) \<Longrightarrow> obeys R (modify f)"
  by (simp add: obeys_def modify_def)

lemma obeys_if: "(b \<Longrightarrow> obeys R m) \<Longrightarrow> (\<not> b \<Longrightarrow> obeys R n) \<Longrightarrow> obeys R (if b then m else n)"
  by simp

lemma obeys_reading: "(\<And>s. obeys R (f s)) \<Longrightarrow> obeys R (reading f)"
  by (auto simp: obeys_def reading_def)

locale run_law =
  fixes R :: "'s \<Rightarrow> 's \<Rightarrow> bool"
  assumes law_refl: "R s s" and law_trans: "R s t \<Longrightarrow> R t u \<Longrightarrow> R s u"
begin

lemma obeys_ret: "obeys R (ret x)"
  by (simp add: obeys_def ret_def law_refl)

lemma obeys_raise: "obeys R (raise e)"
  by (simp add: obeys_def raise_def law_refl)

lemma obeys_from_sum: "obeys R (from_sum r)"
  by (simp add: obeys_def from_sum_def law_refl)

lemma obeys_andthen: "obeys R m \<Longrightarrow> (\<And>x. obeys R (f x)) \<Longrightarrow> obeys R (andthen m f)"
  unfolding obeys_def andthen_def
  by (auto split: option.splits sum.splits intro: law_trans) (blast intro: law_trans)

lemma obeys_catching: "obeys R m \<Longrightarrow> (\<And>e. obeys R (h e)) \<Longrightarrow> obeys R (catching m h)"
  unfolding obeys_def catching_def
  by (auto split: option.splits sum.splits intro: law_trans) (blast intro: law_trans)

lemma obeys_run_all: "(\<And>a. a \<in> set as \<Longrightarrow> obeys R a) \<Longrightarrow> obeys R (run_all as)"
  by (induction as) (auto intro: obeys_ret obeys_andthen)

lemmas obeys_rules =
  obeys_ret obeys_raise obeys_from_sum obeys_andthen obeys_catching obeys_run_all obeys_if obeys_reading

end

text \<open>An action that always returns.\<close>

definition total :: "('s, 'a) act \<Rightarrow> bool" where
  "total m \<longleftrightarrow> (\<forall>s. m s \<noteq> None)"

lemma total_simps [simp]: "total (ret x)" "total (raise e)" "total (modify f)" "total (from_sum r)"
  by (simp_all add: total_def act_defs)

lemma total_andthen: "total m \<Longrightarrow> (\<And>x. total (f x)) \<Longrightarrow> total (andthen m f)"
  unfolding total_def andthen_def by (auto split: option.splits sum.splits)

lemma total_catching: "total m \<Longrightarrow> (\<And>e. total (h e)) \<Longrightarrow> total (catching m h)"
  unfolding total_def catching_def by (auto split: option.splits sum.splits)

lemma total_reading: "(\<And>s. total (f s)) \<Longrightarrow> total (reading f)"
  by (simp add: total_def reading_def)

lemma total_if: "(b \<Longrightarrow> total m) \<Longrightarrow> (\<not> b \<Longrightarrow> total n) \<Longrightarrow> total (if b then m else n)"
  by simp

lemma total_run_all: "(\<And>a. a \<in> set as \<Longrightarrow> total a) \<Longrightarrow> total (run_all as)"
  by (induction as) (auto intro: total_andthen)

lemmas total_rules = total_andthen total_catching total_reading total_if total_run_all

section \<open>What holds after an action\<close>

text \<open>From a state with \<open>P\<close>, a value leaves \<open>Q\<close> and an error leaves \<open>E\<close>.\<close>

definition hoare ::
  "('s \<Rightarrow> bool) \<Rightarrow> ('s, 'a) act \<Rightarrow> ('a \<Rightarrow> 's \<Rightarrow> bool) \<Rightarrow> (js_error \<Rightarrow> 's \<Rightarrow> bool) \<Rightarrow> bool" where
  "hoare P m Q E \<longleftrightarrow> (\<forall>s s' r. P s \<longrightarrow> m s = Some (s', r) \<longrightarrow> (case r of Inr x \<Rightarrow> Q x s' | Inl e \<Rightarrow> E e s'))"

lemma hoareD: "hoare P m Q E \<Longrightarrow> P s \<Longrightarrow> m s = Some (s', Inr x) \<Longrightarrow> Q x s'"
  by (force simp: hoare_def)

lemma hoareD_error: "hoare P m Q E \<Longrightarrow> P s \<Longrightarrow> m s = Some (s', Inl e) \<Longrightarrow> E e s'"
  by (force simp: hoare_def)

lemma hoare_ret: "(\<And>s. P s \<Longrightarrow> Q x s) \<Longrightarrow> hoare P (ret x) Q E"
  by (simp add: hoare_def ret_def)

lemma hoare_raise: "(\<And>s. P s \<Longrightarrow> E e s) \<Longrightarrow> hoare P (raise e) Q E"
  by (simp add: hoare_def raise_def)

lemma hoare_modify: "(\<And>s. P s \<Longrightarrow> Q () (f s)) \<Longrightarrow> hoare P (modify f) Q E"
  by (simp add: hoare_def modify_def)

lemma hoare_from_sum:
  "(\<And>s x. P s \<Longrightarrow> r = Inr x \<Longrightarrow> Q x s) \<Longrightarrow> (\<And>s e. P s \<Longrightarrow> r = Inl e \<Longrightarrow> E e s) \<Longrightarrow> hoare P (from_sum r) Q E"
  by (auto simp: hoare_def from_sum_def split: sum.split)

lemma hoare_andthen: "hoare P m Q E \<Longrightarrow> (\<And>x. hoare (Q x) (f x) R E) \<Longrightarrow> hoare P (andthen m f) R E"
  unfolding hoare_def andthen_def
  by (auto split: option.splits sum.splits) (fastforce split: sum.splits)+

lemma hoare_catching: "hoare P m Q E \<Longrightarrow> (\<And>e. hoare (E e) (h e) Q F) \<Longrightarrow> hoare P (catching m h) Q F"
  unfolding hoare_def catching_def
  by (auto split: option.splits sum.splits) (fastforce split: sum.splits)+

lemma hoare_reading: "(\<And>t. P t \<Longrightarrow> hoare (\<lambda>s. s = t) (f t) Q E) \<Longrightarrow> hoare P (reading f) Q E"
  unfolding hoare_def reading_def by blast

lemma hoare_if: "(b \<Longrightarrow> hoare P m Q E) \<Longrightarrow> (\<not> b \<Longrightarrow> hoare P n Q E) \<Longrightarrow> hoare P (if b then m else n) Q E"
  by simp

lemma hoare_weaken:
  "hoare P' m Q' E' \<Longrightarrow> (\<And>s. P s \<Longrightarrow> P' s) \<Longrightarrow> (\<And>x s. Q' x s \<Longrightarrow> Q x s) \<Longrightarrow> (\<And>e s. E' e s \<Longrightarrow> E e s) \<Longrightarrow> hoare P m Q E"
  unfolding hoare_def by (auto split: sum.split) (metis (no_types, lifting) sum.case)+

lemma hoare_conj:
  "hoare P m Q E \<Longrightarrow> hoare P' m Q' E' \<Longrightarrow> hoare (\<lambda>s. P s \<and> P' s) m (\<lambda>x s. Q x s \<and> Q' x s) (\<lambda>e s. E e s \<and> E' e s)"
  unfolding hoare_def by (auto split: sum.splits)

lemma hoare_pre: "hoare P' m Q E \<Longrightarrow> (\<And>s. P s \<Longrightarrow> P' s) \<Longrightarrow> hoare P m Q E"
  by (rule hoare_weaken)

lemma hoare_law: "obeys R m \<Longrightarrow> (\<And>s s'. P s \<Longrightarrow> R s s' \<Longrightarrow> Q s') \<Longrightarrow> hoare P m (\<lambda>_. Q) (\<lambda>_. Q)"
  unfolding hoare_def obeys_def by (auto split: sum.split)

lemma hoare_assume: "(B \<Longrightarrow> hoare P m Q E) \<Longrightarrow> hoare (\<lambda>s. B \<and> P s) m Q E"
  unfolding hoare_def by blast

lemma hoare_false: "hoare (\<lambda>s. False) m Q E"
  by (simp add: hoare_def)

lemma hoare_run_all: "(\<And>a. a \<in> set as \<Longrightarrow> hoare P a (\<lambda>_. P) E) \<Longrightarrow> hoare P (run_all as) (\<lambda>_. P) E"
proof (induction as)
  case (Cons a as)
  then show ?case by (auto intro!: hoare_andthen [where Q = "\<lambda>_. P"])
qed (simp add: hoare_ret)

end
