(* ===== verification/Run_Trace.thy ===== *)
theory Run_Trace
  imports Run_Actions Verification_Report
begin

text \<open>
  The state of the main agent's runs and what they write to the trace
  (\<open>packages/core/src/runtime/agentRuntime.ts\<close>): run phases, the observation of verification commands,
  the completion gate, and the changed files and verification report put into every result.

  A trace store returns the events appended to it, in order, or fails. Time stamps and ids are
  parameters; listeners of the \<open>event\<close> emitter are left out.
\<close>

section \<open>Results\<close>

datatype result_status = RsCompleted | RsFailed | RsCancelled | RsApproval

definition result_status_text :: "result_status \<Rightarrow> jstr" where
  "result_status_text s = (case s of RsCompleted \<Rightarrow> asc ''completed'' | RsFailed \<Rightarrow> asc ''failed''
     | RsCancelled \<Rightarrow> asc ''cancelled'' | RsApproval \<Rightarrow> asc ''approval-required'')"

record pending_approval =
  pa_run :: jstr
  pa_call_id :: jstr
  pa_tool :: jstr
  pa_risk :: tool_risk
  pa_reason :: "jstr option"
  pa_command :: "jstr option"
  pa_work_dir :: "jstr option"
  pa_preview :: jstr

record agent_result =
  ar_run :: jstr
  ar_mode :: jstr
  ar_status :: result_status
  ar_cancellation :: "jstr option"
  ar_summary :: jstr
  ar_thinking :: "jstr option"
  ar_changed :: "jstr list"
  ar_evidence :: "jstr list"
  ar_risks :: "jstr list"
  ar_verification :: verification_report
  ar_approval :: "pending_approval option"

definition zod_error :: js_error where
  "zod_error = named_error ''ZodError'' []"

definition approval_valid :: "pending_approval \<Rightarrow> bool" where
  "approval_valid a \<longleftrightarrow> pa_run a \<noteq> [] \<and> pa_call_id a \<noteq> [] \<and> pa_tool a \<noteq> []"

text \<open>\<open>agentResultSchema.parse\<close>: the run id, and the ids of an approval, must not be empty.\<close>

definition parse_result :: "agent_result \<Rightarrow> js_error + agent_result" where
  "parse_result r =
     (if ar_run r = [] \<or> (case ar_approval r of Some a \<Rightarrow> \<not> approval_valid a | None \<Rightarrow> False) then Inl zod_error else Inr r)"

definition uncollected_report :: verification_report where
  "uncollected_report = \<lparr>vr_status = NotRun, vr_commands = [], vr_evidence = [],
     vr_reason = Some (asc ''Verification evidence was not collected for this result.'')\<rparr>"

definition basic_result :: "jstr \<Rightarrow> jstr \<Rightarrow> result_status \<Rightarrow> jstr \<Rightarrow> jstr list \<Rightarrow> jstr list \<Rightarrow> agent_result" where
  "basic_result run mode st summary evidence risks =
     \<lparr>ar_run = run, ar_mode = mode, ar_status = st, ar_cancellation = None, ar_summary = summary, ar_thinking = None,
      ar_changed = [], ar_evidence = evidence, ar_risks = risks, ar_verification = uncollected_report, ar_approval = None\<rparr>"

definition opt_field :: "string \<Rightarrow> jstr option \<Rightarrow> (jstr \<times> json) list" where
  "opt_field k v = (case v of Some s \<Rightarrow> [(asc k, JStr s)] | None \<Rightarrow> [])"

definition strings_json :: "jstr list \<Rightarrow> json" where
  "strings_json xs = JArr (map JStr xs)"

definition verification_status_text :: "verification_status \<Rightarrow> jstr" where
  "verification_status_text s = (case s of Passed \<Rightarrow> asc ''passed'' | Failed \<Rightarrow> asc ''failed''
     | NotRun \<Rightarrow> asc ''not-run'' | NotNeeded \<Rightarrow> asc ''not-needed'')"

definition approval_json :: "pending_approval \<Rightarrow> json" where
  "approval_json a = JObj (jfields [(''runId'', JStr (pa_run a)), (''toolCallId'', JStr (pa_call_id a)),
      (''toolName'', JStr (pa_tool a)), (''risk'', JStr (risk_text (pa_risk a)))]
    @ opt_field ''reason'' (pa_reason a) @ opt_field ''command'' (pa_command a) @ opt_field ''workDir'' (pa_work_dir a)
    @ jfields [(''inputPreview'', JStr (pa_preview a))])"

definition result_fields :: "agent_result \<Rightarrow> (jstr \<times> json) list" where
  "result_fields r =
     jfields [(''runId'', JStr (ar_run r)), (''mode'', JStr (ar_mode r)), (''status'', JStr (result_status_text (ar_status r)))]
     @ opt_field ''cancellationReason'' (ar_cancellation r)
     @ jfields [(''summary'', JStr (ar_summary r))] @ opt_field ''thinking'' (ar_thinking r)
     @ jfields [(''report'', JObj (jfields [(''changedFiles'', strings_json (ar_changed r)),
         (''evidence'', strings_json (ar_evidence r)), (''risks'', strings_json (ar_risks r)),
         (''verification'', JObj (jfields [(''status'', JStr (verification_status_text (vr_status (ar_verification r)))),
            (''commands'', strings_json (vr_commands (ar_verification r))),
            (''evidence'', strings_json (vr_evidence (ar_verification r)))]
            @ opt_field ''reason'' (vr_reason (ar_verification r))))]))]
     @ (case ar_approval r of Some a \<Rightarrow> [(asc ''pendingApproval'', approval_json a)] | None \<Rightarrow> [])"

section \<open>State and environment\<close>

datatype verification_state = VsUnknown | VsPending | VsInProgress

record checkpoint =
  ck_run :: jstr
  ck_mode :: jstr
  ck_input :: jstr
  ck_awaiting :: bool \<comment> \<open>\<open>status\<close> is \<open>'awaiting-approval'\<close> and not \<open>'running'\<close>\<close>
  ck_phase :: run_phase
  ck_iteration :: int
  ck_followups :: nat
  ck_verification :: verification_state
  ck_completed :: "jstr list"
  ck_pending :: "tool_call option"
  ck_remaining :: "tool_call list"
  ck_approval :: "pending_approval option"

record pending_session =
  ps_run :: jstr
  ps_mode :: jstr
  ps_input :: jstr
  ps_call :: tool_call
  ps_remaining :: "tool_call list"
  ps_tools :: "tool_metadata list"
  ps_iteration :: int
  ps_followups :: nat
  ps_completed :: "jstr list"

datatype stream_event =
    TurnStart int
  | ThinkingDelta jstr
  | TextDelta jstr
  | ToolsStart int nat
  | ResultEvent agent_result

record run_state =
  rs_context :: session_context
  rs_trace :: "jstr \<Rightarrow> trace_event list"
  rs_phases :: "(jstr, run_phase) omap"
  rs_verifying :: "jstr list"
  rs_checkpoint :: "checkpoint option"
  rs_pending :: "(jstr, pending_session) omap"
  rs_yielded :: "stream_event list"
  rs_notified :: nat
  rs_tick :: nat

text \<open>
  One call of the gateway: when it settles, the events it appended, and its outcome. A permission
  error carries the action of the policy.
\<close>

datatype call_outcome =
    Returned tool_result
  | Refused approval_action tool_risk "jstr option" js_error
  | Threw js_error

record call_run =
  cr_time :: nat
  cr_events :: "trace_event list"
  cr_outcome :: call_outcome

datatype stream_chunk = ThinkingChunk jstr | TextChunk jstr | CallChunk tool_call

record model_reply =
  mr_chunks :: "stream_chunk list"
  mr_fails :: "js_error option" \<comment> \<open>thrown after the chunks\<close>
  mr_usage :: "rat option" \<comment> \<open>\<open>lastUsage.inputTokens\<close>\<close>

record run_env =
  rv_sha :: "jstr \<Rightarrow> jstr"
  rv_rat_text :: "rat \<Rightarrow> jstr"
  rv_num_text :: "jnum \<Rightarrow> jstr"
  rv_number_text :: "json \<Rightarrow> jstr"
  rv_collate :: "jstr comparator"
  rv_known :: "known_command list"
  rv_prompt :: "string \<Rightarrow> (jstr \<times> jstr) list \<Rightarrow> jstr"
  rv_tools :: "tool_metadata list"
  rv_has_gateway :: bool
  rv_has_model :: bool
  rv_tool_calling :: bool
  rv_max_iterations :: int
  rv_stamp :: "nat \<Rightarrow> jstr"
  rv_append_fails :: "nat \<Rightarrow> js_error option"
  rv_read_fails :: "nat \<Rightarrow> js_error option"
  rv_signal :: "nat \<Rightarrow> abort_state"
  rv_inspect :: "nat \<Rightarrow> jstr \<Rightarrow> json \<Rightarrow> js_error + call_inspection"
  rv_call :: "nat \<Rightarrow> tool_call \<Rightarrow> bool \<Rightarrow> call_run"
  rv_prepare :: "nat \<Rightarrow> build_input \<Rightarrow> session_context \<Rightarrow>
    (session_context, js_error, context_snapshot \<times> maintenance list) outcome option"
  rv_model :: "nat \<Rightarrow> message list \<Rightarrow> model_reply"

definition tick :: "run_state \<Rightarrow> run_state" where
  "tick s = s\<lparr>rs_tick := Suc (rs_tick s)\<rparr>"

text \<open>Reading something outside: its value at the present tick, which then moves on.\<close>

definition observe_outside :: "(nat \<Rightarrow> 'a) \<Rightarrow> (run_state, 'a) act" where
  "observe_outside f s = Some (tick s, Inr (f (rs_tick s)))"

definition read_signal :: "run_env \<Rightarrow> (run_state, abort_state) act" where
  "read_signal v = observe_outside (rv_signal v)"

definition check_abort :: "run_env \<Rightarrow> (run_state, unit) act" where
  "check_abort v = andthen (read_signal v) (\<lambda>sig. from_sum (throw_if_aborted sig))"

definition yielding :: "stream_event \<Rightarrow> (run_state, unit) act" where
  "yielding e = modify (\<lambda>s. s\<lparr>rs_yielded := rs_yielded s @ [e]\<rparr>)"

text \<open>An operation of the session context; \<open>est\<close> arguments come from its own estimator.\<close>

definition on_context :: "(session_context \<Rightarrow> (session_context, js_error, 'a) outcome) \<Rightarrow> (run_state, 'a) act" where
  "on_context f s = (case f (rs_context s) of (c, r) \<Rightarrow> Some (s\<lparr>rs_context := c\<rparr>, r))"

section \<open>The trace\<close>

definition add_events :: "jstr \<Rightarrow> trace_event list \<Rightarrow> run_state \<Rightarrow> run_state" where
  "add_events run es s = s\<lparr>rs_trace := (rs_trace s)(run := rs_trace s run @ es)\<rparr>"

definition append_trace_event :: "run_env \<Rightarrow> jstr \<Rightarrow> jstr \<Rightarrow> (jstr \<times> json) list \<Rightarrow> (run_state, unit) act" where
  "append_trace_event v run ty payload =
     andthen (observe_outside (\<lambda>n. (rv_append_fails v n, rv_stamp v n)))
       (\<lambda>(failure, stamped). case failure of
            Some e \<Rightarrow> raise e
          | None \<Rightarrow> modify (add_events run [\<lparr>ev_type = ty, ev_payload = JObj payload, ev_timestamp = stamped\<rparr>]))"

definition read_run :: "run_env \<Rightarrow> jstr \<Rightarrow> (run_state, trace_event list) act" where
  "read_run v run = andthen (observe_outside (rv_read_fails v))
     (\<lambda>failure. case failure of Some e \<Rightarrow> raise e | None \<Rightarrow> reading (\<lambda>s. ret (rs_trace s run)))"

definition phase_json :: "run_phase option \<Rightarrow> json" where
  "phase_json p = (case p of Some x \<Rightarrow> JStr (run_phase_text x) | None \<Rightarrow> JUndefined)"

definition set_run_phase :: "run_env \<Rightarrow> jstr \<Rightarrow> run_phase \<Rightarrow> (jstr \<times> json) list \<Rightarrow> (run_state, unit) act" where
  "set_run_phase v run phase details = reading (\<lambda>s.
     let previous = om_get (rs_phases s) run
     in if previous = Some phase then ret ()
        else andthen (modify (\<lambda>s. s\<lparr>rs_phases := om_set run phase (rs_phases s)\<rparr>))
          (\<lambda>_. append_trace_event v run (asc ''run.phase.changed'')
             (spread details [(asc ''phase'', phase_json (Some phase)), (asc ''previous'', phase_json previous)])))"

definition changed_files_of :: "run_env \<Rightarrow> trace_event list \<Rightarrow> jstr list" where
  "changed_files_of v events = extract_changed_files (rv_collate v) unit_order events"

text \<open>\<open>completeVerificationObservation\<close>, which appends the event through \<open>record\<close>; its type is
  no lifecycle event, so \<open>record\<close> is the append here.\<close>

definition complete_verification_observation ::
  "run_env \<Rightarrow> jstr \<Rightarrow> bool \<Rightarrow> jstr option \<Rightarrow> (run_state, unit) act" where
  "complete_verification_observation v run force reason = reading (\<lambda>s.
     if run \<notin> set (rs_verifying s) then ret ()
     else andthen
       (catching
         (andthen (read_run v run)
           (\<lambda>events. ret (Some (collect_verification_report (rv_sha v) (rv_rat_text v) events (changed_files_of v events) (rv_known v)))))
         (\<lambda>e. ret (if \<not> force then None
                  else Some \<lparr>vr_status = NotRun, vr_commands = [], vr_evidence = [],
                    vr_reason = Some (case reason of Some r \<Rightarrow> r | None \<Rightarrow> asc ''Verification trace was unavailable.'')\<rparr>)))
       (\<lambda>found. case found of
            None \<Rightarrow> ret ()
          | Some report \<Rightarrow>
            if vr_status report = NotRun \<and> \<not> force then ret ()
            else andthen (modify (\<lambda>s. s\<lparr>rs_verifying := removeAll run (rs_verifying s)\<rparr>))
              (\<lambda>_. append_trace_event v run (asc ''run.verification.completed'')
                 (jfields [(''status'', JStr (verification_status_text (vr_status report))),
                   (''commands'', strings_json (vr_commands report)), (''commandCount'', jnat (length (vr_commands report))),
                   (''reason'', opt_str (if vr_status report = NotRun \<and> reason \<noteq> None \<and> reason \<noteq> Some []
                                      then reason else vr_reason report))]))))"

definition run_ended_text :: jstr where
  "run_ended_text = asc ''Run ended before verification produced a terminal result.''"

text \<open>\<open>record\<close>: the phase an event stands for is entered first; the end of a run closes a pending
  verification and forgets the phase.\<close>

definition trace_record :: "run_env \<Rightarrow> jstr \<Rightarrow> string \<Rightarrow> (jstr \<times> json) list \<Rightarrow> (run_state, unit) act" where
  "trace_record v run ty payload =
     (let trigger = [(asc ''trigger'', JStr (asc ty))]
      in if ty = ''run.started'' then
           run_all [append_trace_event v run (asc ty) payload, set_run_phase v run Inspect trigger]
         else run_all
           [case phase_for_lifecycle_event (asc ty) of Some p \<Rightarrow> set_run_phase v run p trigger | None \<Rightarrow> ret (),
            if ty = ''run.completed'' then
              run_all [complete_verification_observation v run True (Some run_ended_text),
                       set_run_phase v run Complete (trigger @ [(asc ''outcome'', obj_field (asc ''status'') (JObj payload))])]
            else ret (),
            append_trace_event v run (asc ty) payload,
            if ty = ''run.completed'' then
              modify (\<lambda>s. s\<lparr>rs_verifying := removeAll run (rs_verifying s), rs_phases := om_del run (rs_phases s)\<rparr>)
            else ret ()])"

definition find_tool :: "tool_metadata list \<Rightarrow> jstr \<Rightarrow> tool_metadata option" where
  "find_tool tools n = List.find (\<lambda>t. tm_name t = n) tools"

definition observe_tool_call :: "run_env \<Rightarrow> jstr \<Rightarrow> tool_call \<Rightarrow> tool_metadata list \<Rightarrow> int \<Rightarrow> (run_state, unit) act" where
  "observe_tool_call v run call tools iteration = reading (\<lambda>s.
     let (phase, verification) = classify_tool_call_phase (rv_sha v) call (find_tool tools (call_name call)) (run \<in> set (rs_verifying s));
         it = JNum (Num (of_int iteration))
     in andthen (set_run_phase v run phase
          (jfields [(''trigger'', JStr (asc ''tool-call'')), (''toolName'', JStr (call_name call)), (''iteration'', it)]))
        (\<lambda>_. case verification of
            None \<Rightarrow> ret ()
          | Some i \<Rightarrow> andthen (modify (\<lambda>s. s\<lparr>rs_verifying := (if run \<in> set (rs_verifying s) then rs_verifying s else rs_verifying s @ [run])\<rparr>))
              (\<lambda>_. trace_record v run ''run.verification.started''
                 (jfields [(''command'', JStr (ci_label i)), (''kinds'', strings_json (map kind_text (ci_kinds i))),
                   (''toolName'', JStr (call_name call)), (''callId'', JStr (call_id call)), (''iteration'', it)]))))"

section \<open>What a result says about the workspace\<close>

text \<open>\<open>extractRunInput\<close>\<close>

definition extract_run_input :: "trace_event list \<Rightarrow> jstr option" where
  "extract_run_input events = (case List.find (\<lambda>e. ev_type e = asc ''run.started'') events of
     None \<Rightarrow> None | Some e \<Rightarrow> as_string (payload_field ''input'' e))"

definition unreadable_trace_report :: verification_report where
  "unreadable_trace_report = \<lparr>vr_status = NotRun, vr_commands = [], vr_evidence = [],
     vr_reason = Some (asc ''Verification evidence could not be collected because the run trace was unavailable.'')\<rparr>"

definition verification_risk :: "verification_report \<Rightarrow> jstr list \<Rightarrow> command_identity option \<Rightarrow> jstr" where
  "verification_risk report changed requested =
     (if vr_status report = Failed then [26368, 21518, 19968, 27425, 24037, 20316, 21306, 20462, 25913, 21518, 30340, 39564, 35777, 20173, 28982, 22833, 36133, 65307, 24403, 21069, 32467, 26524, 19981, 33021, 35270, 20026, 24050, 39564, 35777, 23436, 25104]
      else case requested of
        Some i \<Rightarrow> if changed = [] then [29992, 25143, 26126, 30830, 35201, 27714, 30340, 39564, 35777, 21629, 20196, 65288] @ ci_label i @ [65289, 27809, 26377, 33719, 24471, 36890, 36807, 35777, 25454]
          else [26368, 21518, 19968, 27425, 24037, 20316, 21306, 20462, 25913, 21518, 27809, 26377, 21487, 20449, 30340, 39564, 35777, 36890, 36807, 35777, 25454, 65307, 25913, 21160, 20173, 23384, 22312, 26410, 39564, 35777, 39118, 38505]
      | None \<Rightarrow> [26368, 21518, 19968, 27425, 24037, 20316, 21306, 20462, 25913, 21518, 27809, 26377, 21487, 20449, 30340, 39564, 35777, 36890, 36807, 35777, 25454, 65307, 25913, 21160, 20173, 23384, 22312, 26410, 39564, 35777, 39118, 38505])"

text \<open>The result with the files and the report of the events, \<open>None\<close> when the trace could not be read.\<close>

definition with_evidence :: "run_env \<Rightarrow> trace_event list option \<Rightarrow> agent_result \<Rightarrow> agent_result" where
  "with_evidence v found r =
     (let events = (case found of Some es \<Rightarrow> es | None \<Rightarrow> []);
          changed = Sorting_Algorithms.sort unit_order (uniq_first (ar_changed r @ changed_files_of v events));
          requested = identify_requested_verification_command (rv_sha v)
            (case extract_run_input events of Some i \<Rightarrow> i | None \<Rightarrow> []);
          report = (if found \<noteq> None
            then ga_report (assess_verification_gate (rv_sha v) (rv_rat_text v) events changed (rv_known v) requested)
            else unreadable_trace_report);
          risks = ar_risks r @
            (if ar_status r = RsCompleted \<and> (changed \<noteq> [] \<or> requested \<noteq> None) \<and> vr_status report \<noteq> Passed
             then [verification_risk report changed requested] else [])
      in r\<lparr>ar_changed := changed, ar_risks := uniq_first risks, ar_verification := report\<rparr>)"

definition attach_changed_files :: "run_env \<Rightarrow> agent_result \<Rightarrow> (run_state, agent_result) act" where
  "attach_changed_files v r =
     andthen (catching (andthen (read_run v (ar_run r)) (\<lambda>es. ret (Some es))) (\<lambda>e. ret None))
       (\<lambda>found. from_sum (parse_result (with_evidence v found r)))"

text \<open>Building a result: \<open>agentResultSchema.parse\<close>, then the attachment.\<close>

definition finish_result :: "run_env \<Rightarrow> agent_result \<Rightarrow> (run_state, agent_result) act" where
  "finish_result v r = andthen (from_sum (parse_result r)) (attach_changed_files v)"

definition unassessed_gate :: gate_assessment where
  "unassessed_gate =
     (let why = asc ''Run trace was unavailable, so verification could not be assessed.''
      in \<lparr>ga_required = False, ga_satisfied = True,
          ga_report = \<lparr>vr_status = NotRun, vr_commands = [], vr_evidence = [], vr_reason = Some why\<rparr>,
          ga_reason = why, ga_last_mutation = -1, ga_required_kinds = [], ga_observed_kinds = []\<rparr>)"

definition assess_run_verification_gate :: "run_env \<Rightarrow> jstr \<Rightarrow> jstr \<Rightarrow> (run_state, gate_assessment) act" where
  "assess_run_verification_gate v run user_input =
     catching (andthen (read_run v run)
         (\<lambda>events. ret (assess_verification_gate (rv_sha v) (rv_rat_text v) events (changed_files_of v events) (rv_known v)
            (identify_requested_verification_command (rv_sha v) user_input))))
       (\<lambda>e. ret unassessed_gate)"

section \<open>What these operations leave alone\<close>

text \<open>They append to the trace and change the phase and the pending verifications, nothing else.\<close>

definition only_trace :: "run_state \<Rightarrow> run_state \<Rightarrow> bool" where
  "only_trace s s' \<longleftrightarrow> rs_context s' = rs_context s \<and> rs_checkpoint s' = rs_checkpoint s \<and> rs_pending s' = rs_pending s
     \<and> rs_yielded s' = rs_yielded s \<and> rs_notified s' = rs_notified s \<and> rs_tick s \<le> rs_tick s'
     \<and> (\<forall>run. \<exists>es. rs_trace s' run = rs_trace s run @ es)"

lemma only_trace_refl: "only_trace s s"
  by (simp add: only_trace_def)

lemma only_trace_trans: "only_trace s t \<Longrightarrow> only_trace t u \<Longrightarrow> only_trace s u"
  unfolding only_trace_def by (metis append.assoc order_trans)

interpretation tr: run_law only_trace
  by unfold_locales (fact only_trace_refl, rule only_trace_trans)

lemma obeys_outside: "obeys only_trace (observe_outside f)"
  by (auto simp: obeys_def observe_outside_def tick_def only_trace_def)

lemma total_outside [simp]: "total (observe_outside f)"
  by (simp add: total_def observe_outside_def)

lemma obeys_check_abort: "obeys only_trace (check_abort v)"
  unfolding check_abort_def read_signal_def by (intro tr.obeys_rules obeys_outside)

lemma obeys_append: "obeys only_trace (append_trace_event v run ty p)"
  unfolding append_trace_event_def
  by (intro tr.obeys_rules obeys_outside)
    (auto intro!: tr.obeys_rules obeys_modify split: option.splits simp: add_events_def only_trace_def)

lemma obeys_read_run: "obeys only_trace (read_run v run)"
  unfolding read_run_def by (intro tr.obeys_rules obeys_outside) (auto intro!: tr.obeys_rules split: option.splits)

lemma obeys_set_phase: "obeys only_trace (set_run_phase v run p d)"
  unfolding set_run_phase_def Let_def
  by (intro tr.obeys_rules obeys_append obeys_modify) (simp add: only_trace_def)

lemma obeys_complete_observation: "obeys only_trace (complete_verification_observation v run f r)"
  unfolding complete_verification_observation_def
  by (intro tr.obeys_rules obeys_read_run)
    (auto intro!: tr.obeys_rules obeys_append obeys_modify split: option.splits simp: only_trace_def)

lemma obeys_record: "obeys only_trace (trace_record v run ty p)"
  unfolding trace_record_def Let_def
  by (intro obeys_if tr.obeys_run_all)
    (auto intro!: tr.obeys_rules obeys_append obeys_modify obeys_set_phase obeys_complete_observation
      split: option.splits if_splits simp: only_trace_def)

lemma obeys_observe_call: "obeys only_trace (observe_tool_call v run c tools it)"
  unfolding observe_tool_call_def Let_def
  by (intro tr.obeys_rules)
    (auto intro!: tr.obeys_rules obeys_set_phase obeys_modify obeys_record split: option.splits prod.splits simp: only_trace_def)

lemma obeys_attach: "obeys only_trace (attach_changed_files v r)"
  unfolding attach_changed_files_def by (intro tr.obeys_rules obeys_read_run)

lemma obeys_finish: "obeys only_trace (finish_result v r)"
  unfolding finish_result_def by (intro tr.obeys_rules obeys_attach)

lemma obeys_assess: "obeys only_trace (assess_run_verification_gate v run i)"
  unfolding assess_run_verification_gate_def by (intro tr.obeys_rules obeys_read_run)

lemmas trace_laws =
  obeys_outside obeys_check_abort obeys_append obeys_read_run obeys_set_phase obeys_complete_observation obeys_record
  obeys_observe_call obeys_attach obeys_finish obeys_assess

lemma total_append [simp]: "total (append_trace_event v run ty p)"
  unfolding append_trace_event_def by (intro total_rules total_outside) (auto split: option.splits)

lemma total_read_run [simp]: "total (read_run v run)"
  unfolding read_run_def by (intro total_rules total_outside) (auto intro!: total_rules split: option.splits)

lemma total_check_abort [simp]: "total (check_abort v)"
  unfolding check_abort_def read_signal_def by (intro total_rules) simp_all

lemma total_set_phase [simp]: "total (set_run_phase v run p d)"
  unfolding set_run_phase_def Let_def by (intro total_rules) simp_all

lemma total_complete_observation [simp]: "total (complete_verification_observation v run f r)"
  unfolding complete_verification_observation_def
  by (intro total_rules) (auto intro!: total_rules split: option.splits)

lemma total_record [simp]: "total (trace_record v run ty p)"
  unfolding trace_record_def Let_def
  by (intro total_if total_run_all) (auto intro!: total_rules split: option.splits if_splits)

lemma total_observe_call [simp]: "total (observe_tool_call v run c tools it)"
  unfolding observe_tool_call_def Let_def
  by (intro total_rules) (auto intro!: total_rules split: option.splits prod.splits)

lemma total_attach [simp]: "total (attach_changed_files v r)"
  unfolding attach_changed_files_def by (intro total_rules) simp_all

lemma total_finish [simp]: "total (finish_result v r)"
  unfolding finish_result_def by (intro total_rules) simp_all

lemma total_assess [simp]: "total (assess_run_verification_gate v run i)"
  unfolding assess_run_verification_gate_def by (intro total_rules) simp_all

section \<open>The status of a result\<close>

abbreviation any_error :: "js_error \<Rightarrow> run_state \<Rightarrow> bool" where
  "any_error \<equiv> \<lambda>e s. True"

lemma hoare_triv: "hoare P m (\<lambda>_ _. True) any_error"
  by (auto simp: hoare_def split: sum.split)

lemma with_evidence_fields: "ar_status (with_evidence v found r) = ar_status r \<and> ar_run (with_evidence v found r) = ar_run r
    \<and> ar_approval (with_evidence v found r) = ar_approval r"
  by (simp add: with_evidence_def Let_def)

lemma attach_status: "hoare P (attach_changed_files v r) (\<lambda>r' s. ar_status r' = ar_status r) any_error"
  unfolding attach_changed_files_def
  by (rule hoare_andthen [OF hoare_triv], rule hoare_from_sum)
    (auto simp: parse_result_def with_evidence_fields split: if_splits)

lemma finish_status: "hoare P (finish_result v r) (\<lambda>r' s. ar_status r' = ar_status r) any_error"
  unfolding finish_result_def
proof (rule hoare_andthen [where Q = "\<lambda>y s. y = r"])
  show "hoare P (from_sum (parse_result r)) (\<lambda>y s. y = r) any_error"
    by (rule hoare_from_sum) (auto simp: parse_result_def split: if_splits)
  show "hoare (\<lambda>s. y = r) (attach_changed_files v y) (\<lambda>r' s. ar_status r' = ar_status r) any_error" for y
    by (rule hoare_weaken [OF hoare_assume [of "y = r" "\<lambda>_. True"]]) (auto intro: attach_status)
qed

end
