(* ===== verification/Tool_Batch.thy ===== *)
theory Tool_Batch
  imports Run_Trace
begin

text \<open>
  The tool calls of one model reply, run by the main agent (\<open>executeToolBatch\<close> in
  \<open>packages/core/src/runtime/toolLoop.ts\<close>), and the checkpoint that makes a pending approval survive a
  restart (\<open>packages/core/src/runtime/runCheckpoint.ts\<close>).

  The thrown \<open>ToolBatchAbortedError\<close>, which carries the messages of the calls done so far, is the
  value \<open>BatchAborted\<close>; nothing stands between the throw and the handler that reads it. The reads of one parallel
  group are observed one after another, and their events are appended call by call. A checkpoint's
  inputs are JSON values, which a round trip through text does not change.
\<close>

section \<open>Checkpoints\<close>

definition durable_call_ok :: "tool_call \<Rightarrow> bool" where
  "durable_call_ok c \<longleftrightarrow> call_id c \<noteq> [] \<and> call_name c \<noteq> []"

definition checkpoint_valid :: "checkpoint \<Rightarrow> bool" where
  "checkpoint_valid k \<longleftrightarrow> ck_run k \<noteq> [] \<and> 0 < ck_iteration k
     \<and> list_all (\<lambda>i. i \<noteq> []) (ck_completed k) \<and> length (ck_completed k) \<le> 1000
     \<and> (case ck_pending k of Some c \<Rightarrow> durable_call_ok c | None \<Rightarrow> True)
     \<and> list_all durable_call_ok (ck_remaining k) \<and> length (ck_remaining k) \<le> 200
     \<and> (case ck_approval k of Some a \<Rightarrow> approval_valid a | None \<Rightarrow> True)
     \<and> (ck_awaiting k \<longrightarrow> ck_pending k \<noteq> None \<and> ck_approval k \<noteq> None)"

definition clone_checkpoint :: "checkpoint \<Rightarrow> js_error + checkpoint" where
  "clone_checkpoint k = (if checkpoint_valid k then Inr k else Inl zod_error)"

definition awaiting_approval :: "run_state \<Rightarrow> bool" where
  "awaiting_approval s \<longleftrightarrow> (case rs_checkpoint s of Some k \<Rightarrow> ck_awaiting k | None \<Rightarrow> False)"

definition notify_checkpoint :: "(run_state, unit) act" where
  "notify_checkpoint = modify (\<lambda>s. s\<lparr>rs_notified := Suc (rs_notified s)\<rparr>)"

definition update_checkpoint :: "checkpoint \<Rightarrow> bool \<Rightarrow> (run_state, unit) act" where
  "update_checkpoint k notify = reading (\<lambda>s.
     let was = awaiting_approval s
     in andthen (from_sum (clone_checkpoint k))
       (\<lambda>k'. andthen (modify (\<lambda>s. s\<lparr>rs_checkpoint := Some k'\<rparr>))
         (\<lambda>_. if notify \<and> (ck_awaiting k \<or> was) then notify_checkpoint else ret ())))"

text \<open>Spreading the active checkpoint: without one, the copy fails its schema.\<close>

definition amend_checkpoint :: "(checkpoint \<Rightarrow> checkpoint) \<Rightarrow> bool \<Rightarrow> (run_state, unit) act" where
  "amend_checkpoint f notify = reading (\<lambda>s. case rs_checkpoint s of
     None \<Rightarrow> raise zod_error
   | Some k \<Rightarrow> update_checkpoint (f k) notify)"

definition clear_run_checkpoint :: "jstr option \<Rightarrow> (run_state, unit) act" where
  "clear_run_checkpoint run = reading (\<lambda>s. case rs_checkpoint s of
     None \<Rightarrow> ret ()
   | Some k \<Rightarrow>
     if (case run of Some r \<Rightarrow> r \<noteq> [] \<and> ck_run k \<noteq> r | None \<Rightarrow> False) then ret ()
     else andthen (modify (\<lambda>s. s\<lparr>rs_checkpoint := None\<rparr>))
       (\<lambda>_. if ck_awaiting k then notify_checkpoint else ret ()))"

definition notify_checkpoint_synchronized :: "jstr \<Rightarrow> (run_state, unit) act" where
  "notify_checkpoint_synchronized run = reading (\<lambda>s. case rs_checkpoint s of
     Some k \<Rightarrow> if ck_run k = run \<and> ck_awaiting k then notify_checkpoint else ret ()
   | None \<Rightarrow> ret ())"

section \<open>A batch\<close>

record batch_input =
  eb_run :: jstr
  eb_mode :: jstr
  eb_user :: jstr
  eb_calls :: "tool_call list"
  eb_tools :: "tool_metadata list"
  eb_iteration :: int
  eb_followups :: nat

datatype batch_exit =
    BatchCompleted "message list"
  | BatchApproval agent_result "message list"
  | BatchAborted js_error "message list"

definition call_phase :: "run_env \<Rightarrow> tool_metadata list \<Rightarrow> tool_call \<Rightarrow> run_phase" where
  "call_phase v tools c = fst (classify_tool_call_phase (rv_sha v) c (find_tool tools (call_name c)) False)"

definition batch_checkpoint :: "run_env \<Rightarrow> batch_input \<Rightarrow> jstr list \<Rightarrow> checkpoint" where
  "batch_checkpoint v b completed =
     \<lparr>ck_run = eb_run b, ck_mode = eb_mode b, ck_input = eb_user b, ck_awaiting = False,
      ck_phase = (case eb_calls b of c # _ \<Rightarrow> call_phase v (eb_tools b) c | [] \<Rightarrow> Inspect),
      ck_iteration = eb_iteration b, ck_followups = eb_followups b,
      ck_verification = (if 0 < eb_followups b then VsPending
        else (case eb_calls b of c # _ \<Rightarrow> if call_phase v (eb_tools b) c = Verify then VsInProgress else VsUnknown | [] \<Rightarrow> VsUnknown)),
      ck_completed = completed, ck_pending = None, ck_remaining = eb_calls b, ck_approval = None\<rparr>"

definition progress_checkpoint :: "jstr list \<Rightarrow> tool_call list \<Rightarrow> checkpoint \<Rightarrow> checkpoint" where
  "progress_checkpoint completed remaining k = k\<lparr>ck_completed := uniq_first completed, ck_remaining := remaining\<rparr>"

definition parallel_read_limit :: jnum where
  "parallel_read_limit = default_max_parallel_read_tools"

definition readable_now :: "call_inspection \<Rightarrow> bool" where
  "readable_now i \<longleftrightarrow> tm_risk (in_tool i) = Read \<and> action (in_approval i) = Allow"

text \<open>The peers the first call is run with, or \<open>None\<close> when it has to run alone.\<close>

definition batch_group :: "run_env \<Rightarrow> batch_input \<Rightarrow> tool_call \<Rightarrow> tool_call list \<Rightarrow> (run_state, tool_call list option) act" where
  "batch_group v b call queue =
     (if \<not> is_independent_read (find_tool (eb_tools b) (call_name call)) then ret None
      else andthen (observe_outside (rv_inspect v))
        (\<lambda>inspect. andthen (from_sum (take_parallel (find_tool (eb_tools b)) inspect parallel_read_limit 1 queue))
          (\<lambda>peers. andthen (from_sum (inspect (call_name call) (call_input call)))
            (\<lambda>first. ret (if readable_now first then Some peers else None)))))"

definition call_gateway :: "run_env \<Rightarrow> jstr \<Rightarrow> bool \<Rightarrow> tool_call \<Rightarrow> (run_state, nat \<times> call_outcome) act" where
  "call_gateway v run approved c =
     andthen (observe_outside (\<lambda>n. rv_call v n c approved))
       (\<lambda>r. andthen (modify (add_events run (cr_events r))) (\<lambda>_. ret (cr_time r, cr_outcome r)))"

fun call_gateway_all :: "run_env \<Rightarrow> jstr \<Rightarrow> tool_call list \<Rightarrow> (run_state, (tool_call \<times> nat \<times> call_outcome) list) act" where
  "call_gateway_all v run [] = ret []"
| "call_gateway_all v run (c # cs) =
     andthen (call_gateway v run False c) (\<lambda>r. andthen (call_gateway_all v run cs) (\<lambda>rs. ret ((c, r) # rs)))"

text \<open>\<open>Promise.all\<close> of the started calls: the rejection that comes first, or all results.\<close>

definition rejection :: "tool_call \<times> nat \<times> call_outcome \<Rightarrow> (nat \<times> js_error) list" where
  "rejection x = (case x of
     (c, t, Returned r) \<Rightarrow> [] | (c, t, Refused a k why e) \<Rightarrow> [(t, e)] | (c, t, Threw e) \<Rightarrow> [(t, e)])"

definition answer_of :: "tool_call \<times> nat \<times> call_outcome \<Rightarrow> message list" where
  "answer_of x = (case x of (c, t, Returned r) \<Rightarrow> [tool_message c r] | _ \<Rightarrow> [])"

definition settle_all :: "(tool_call \<times> nat \<times> call_outcome) list \<Rightarrow> js_error + message list" where
  "settle_all xs = (case earliest (concat (map rejection xs)) of
     Some (t, e) \<Rightarrow> Inl e | None \<Rightarrow> Inr (concat (map answer_of xs)))"

text \<open>Pushing the answers; an error of an observation leaves those pushed before it.\<close>

fun push_answers :: "run_env \<Rightarrow> jstr \<Rightarrow> message list \<Rightarrow> (run_state, message list \<times> js_error option) act" where
  "push_answers v run [] = ret ([], None)"
| "push_answers v run (m # ms) =
     andthen (catching (andthen (complete_verification_observation v run False None) (\<lambda>_. ret None)) (\<lambda>e. ret (Some e)))
       (\<lambda>err. case err of
            Some e \<Rightarrow> ret ([m], Some e)
          | None \<Rightarrow> andthen (push_answers v run ms) (\<lambda>(done, e). ret (m # done, e)))"

text \<open>The error of a call: an abort keeps the messages done so far, anything else is thrown.\<close>

definition batch_failure :: "run_env \<Rightarrow> js_error \<Rightarrow> message list \<Rightarrow> (run_state, batch_exit + 'a) act" where
  "batch_failure v e done = andthen (read_signal v)
     (\<lambda>sig. if is_operation_aborted e sig then ret (Inl (BatchAborted e done)) else raise e)"

definition run_reads ::
  "run_env \<Rightarrow> batch_input \<Rightarrow> tool_call list \<Rightarrow> tool_call list \<Rightarrow> jstr list \<Rightarrow> message list \<Rightarrow>
   (run_state, batch_exit + jstr list \<times> message list) act" where
  "run_reads v b grp queue ids done =
     andthen
       (catching
         (andthen (run_all (map (\<lambda>c. observe_tool_call v (eb_run b) c (eb_tools b) (eb_iteration b)) grp))
           (\<lambda>_. andthen (call_gateway_all v (eb_run b) grp)
             (\<lambda>rs. case settle_all rs of Inl e \<Rightarrow> ret (Inl e) | Inr ms \<Rightarrow> ret (Inr ms))))
         (\<lambda>e. ret (Inl e)))
       (\<lambda>settled. case settled of
            Inl e \<Rightarrow> batch_failure v e done
          | Inr ms \<Rightarrow> andthen (push_answers v (eb_run b) ms)
              (\<lambda>(pushed, err). case err of
                   Some e \<Rightarrow> batch_failure v e (done @ pushed)
                 | None \<Rightarrow>
                   let ids' = ids @ map call_id grp
                   in andthen (catching (andthen (amend_checkpoint (progress_checkpoint ids' queue) False) (\<lambda>_. ret None)) (\<lambda>e. ret (Some e)))
                     (\<lambda>err. case err of
                          Some e \<Rightarrow> batch_failure v e (done @ pushed)
                        | None \<Rightarrow> ret (Inr (ids', done @ pushed)))))"

section \<open>Approvals\<close>

definition work_dir_of :: "json \<Rightarrow> jstr option" where
  "work_dir_of input = (case as_string (obj_field (asc ''cwd'') input) of
     Some d \<Rightarrow> Some d | None \<Rightarrow> as_string (obj_field (asc ''workDir'') input))"

definition pending_approval_of :: "run_env \<Rightarrow> pending_session \<Rightarrow> tool_risk \<Rightarrow> jstr option \<Rightarrow> pending_approval" where
  "pending_approval_of v p risk reason =
     (let c = ps_call p
      in \<lparr>pa_run = ps_run p, pa_call_id = call_id c, pa_tool = call_name c, pa_risk = risk, pa_reason = reason,
          pa_command = as_string (obj_field (asc ''command'') (call_input c)), pa_work_dir = work_dir_of (call_input c),
          pa_preview = format_tool_input_preview (rv_num_text v) (rv_number_text v) (Some (call_name c)) (call_input c) 500\<rparr>)"

definition approval_checkpoint :: "run_env \<Rightarrow> pending_session \<Rightarrow> pending_approval \<Rightarrow> checkpoint" where
  "approval_checkpoint v p a =
     \<lparr>ck_run = ps_run p, ck_mode = ps_mode p, ck_input = ps_input p, ck_awaiting = True,
      ck_phase = call_phase v (ps_tools p) (ps_call p), ck_iteration = ps_iteration p, ck_followups = ps_followups p,
      ck_verification = (if call_phase v (ps_tools p) (ps_call p) = Verify then VsInProgress
        else if 0 < ps_followups p then VsPending else VsUnknown),
      ck_completed = ps_completed p, ck_pending = Some (ps_call p), ck_remaining = ps_remaining p, ck_approval = Some a\<rparr>"

definition create_pending_approval ::
  "run_env \<Rightarrow> pending_session \<Rightarrow> tool_risk \<Rightarrow> jstr option \<Rightarrow> (run_state, agent_result) act" where
  "create_pending_approval v p risk reason =
     (let a = pending_approval_of v p risk reason
      in andthen (modify (\<lambda>s. s\<lparr>rs_pending := om_set (ps_run p) p (rs_pending s)\<rparr>))
        (\<lambda>_. andthen (update_checkpoint (approval_checkpoint v p a) False)
          (\<lambda>_. finish_result v
             ((basic_result (ps_run p) (ps_mode p) RsApproval ([38656, 35201, 30830, 35748, 24037, 20855, 35843, 29992, 65306] @ call_name (ps_call p))
                [[27169, 22411, 35831, 27714, 20102, 38656, 35201, 29992, 25143, 30830, 35748, 30340, 24037, 20855, 35843, 29992]] [risk_text risk @ asc '' tool requires approval''])
              \<lparr>ar_approval := Some a\<rparr>))))"

section \<open>One call alone\<close>

definition denied_message :: "tool_call \<Rightarrow> jstr option \<Rightarrow> js_error \<Rightarrow> message" where
  "denied_message c reason e = ToolMsg (call_id c) (call_name c)
     (asc ''Tool '' @ call_name c @ asc '' denied by policy: '' @ (case reason of Some r \<Rightarrow> r | None \<Rightarrow> err_message e))"

definition run_single ::
  "run_env \<Rightarrow> batch_input \<Rightarrow> tool_call \<Rightarrow> tool_call list \<Rightarrow> jstr list \<Rightarrow> message list \<Rightarrow>
   (run_state, batch_exit + jstr list \<times> message list) act" where
  "run_single v b call queue ids done =
     (let ids' = ids @ [call_id call]
      in andthen (observe_tool_call v (eb_run b) call (eb_tools b) (eb_iteration b))
        (\<lambda>_. andthen (call_gateway v (eb_run b) False call)
          (\<lambda>(t, outcome). case outcome of
               Returned r \<Rightarrow>
                 andthen (run_all [amend_checkpoint (progress_checkpoint ids' queue) False,
                                   complete_verification_observation v (eb_run b) False None])
                   (\<lambda>_. ret (Inr (ids', done @ [tool_message call r])))
             | Refused act risk reason e \<Rightarrow>
                 if act = Deny then
                   andthen (run_all [amend_checkpoint (progress_checkpoint ids' queue) False,
                                     complete_verification_observation v (eb_run b) True
                                       (Some (asc ''Tool '' @ call_name call @ asc '' was denied by policy.''))])
                     (\<lambda>_. ret (Inr (ids', done @ [denied_message call reason e])))
                 else
                   andthen (create_pending_approval v
                       \<lparr>ps_run = eb_run b, ps_mode = eb_mode b, ps_input = eb_user b, ps_call = call, ps_remaining = queue,
                        ps_tools = eb_tools b, ps_iteration = eb_iteration b, ps_followups = eb_followups b,
                        ps_completed = uniq_first ids\<rparr> risk reason)
                     (\<lambda>result. ret (Inl (BatchApproval result done)))
             | Threw e \<Rightarrow> batch_failure v e done)))"

section \<open>The loop over the queue\<close>

function batch_loop ::
  "run_env \<Rightarrow> batch_input \<Rightarrow> jstr list \<Rightarrow> tool_call list \<Rightarrow> message list \<Rightarrow> (run_state, batch_exit) act" where
  "batch_loop v b ids [] done = ret (BatchCompleted done)"
| "batch_loop v b ids (call # queue) done =
     andthen (read_signal v)
       (\<lambda>sig. if sig \<noteq> None then ret (BatchAborted (abort_reason sig (asc ''Operation aborted'')) done)
         else andthen (batch_group v b call queue)
           (\<lambda>grp. case grp of
                Some peers \<Rightarrow>
                  andthen (run_reads v b (call # peers) (drop (length peers) queue) ids done)
                    (\<lambda>r. case r of Inl x \<Rightarrow> ret x | Inr (ids', done') \<Rightarrow> batch_loop v b ids' (drop (length peers) queue) done')
              | None \<Rightarrow>
                  andthen (run_single v b call queue ids done)
                    (\<lambda>r. case r of Inl x \<Rightarrow> ret x | Inr (ids', done') \<Rightarrow> batch_loop v b ids' queue done')))"
  by pat_completeness auto

termination
  by (relation "measure (\<lambda>(v, b, ids, queue, done). length queue)") auto

definition execute_tool_batch :: "run_env \<Rightarrow> batch_input \<Rightarrow> (run_state, batch_exit) act" where
  "execute_tool_batch v b = reading (\<lambda>s.
     let completed = (case rs_checkpoint s of
           Some k \<Rightarrow> if ck_run k = eb_run b then ck_completed k else [] | None \<Rightarrow> [])
     in andthen (update_checkpoint (batch_checkpoint v b completed) False)
       (\<lambda>_. batch_loop v b completed (eb_calls b) []))"

section \<open>Which calls are answered\<close>

text \<open>Everything outside the checkpoint and the pending approvals is left alone, but for the trace.\<close>

definition only_bookkeeping :: "run_state \<Rightarrow> run_state \<Rightarrow> bool" where
  "only_bookkeeping s s' \<longleftrightarrow> rs_context s' = rs_context s \<and> rs_yielded s' = rs_yielded s \<and> rs_tick s \<le> rs_tick s'
     \<and> (\<forall>run. \<exists>es. rs_trace s' run = rs_trace s run @ es)"

lemma only_bookkeeping_refl: "only_bookkeeping s s"
  by (simp add: only_bookkeeping_def)

lemma only_bookkeeping_trans: "only_bookkeeping s t \<Longrightarrow> only_bookkeeping t u \<Longrightarrow> only_bookkeeping s u"
  unfolding only_bookkeeping_def by (metis append.assoc order_trans)

interpretation bk: run_law only_bookkeeping
  by unfold_locales (fact only_bookkeeping_refl, rule only_bookkeeping_trans)

lemma obeys_bookkeeping: "obeys only_trace m \<Longrightarrow> obeys only_bookkeeping m"
  unfolding obeys_def only_trace_def only_bookkeeping_def by blast

lemmas book_laws = trace_laws [THEN obeys_bookkeeping]

lemma obeys_notify: "obeys only_bookkeeping notify_checkpoint"
  unfolding notify_checkpoint_def by (rule obeys_modify) (simp add: only_bookkeeping_def)

lemma obeys_update_checkpoint: "obeys only_bookkeeping (update_checkpoint k n)"
  unfolding update_checkpoint_def Let_def
  by (intro bk.obeys_rules obeys_notify obeys_modify) (simp add: only_bookkeeping_def)

lemma obeys_amend: "obeys only_bookkeeping (amend_checkpoint f n)"
  unfolding amend_checkpoint_def
  by (intro bk.obeys_rules) (auto intro!: bk.obeys_rules obeys_update_checkpoint split: option.splits)

lemma obeys_call_gateway: "obeys only_trace (call_gateway v run a c)"
  unfolding call_gateway_def
  by (intro tr.obeys_rules trace_laws obeys_modify) (simp add: only_trace_def add_events_def)

lemma obeys_call_all: "obeys only_trace (call_gateway_all v run cs)"
  by (induction cs) (auto intro!: tr.obeys_rules obeys_call_gateway)

lemma obeys_push: "obeys only_trace (push_answers v run ms)"
proof (induction ms)
  case (Cons m ms)
  show ?case
    by (auto intro!: tr.obeys_rules trace_laws Cons split: option.splits prod.splits)
qed (auto intro!: tr.obeys_rules)

lemma obeys_batch_failure: "obeys only_trace (batch_failure v e done)"
  unfolding batch_failure_def read_signal_def by (intro tr.obeys_rules trace_laws)

lemma obeys_batch_group: "obeys only_trace (batch_group v b c q)"
  unfolding batch_group_def by (intro tr.obeys_rules trace_laws)

lemmas gateway_laws = obeys_call_gateway obeys_call_all obeys_push obeys_batch_failure obeys_batch_group
lemmas gateway_books = gateway_laws [THEN obeys_bookkeeping]

lemma obeys_run_reads: "obeys only_bookkeeping (run_reads v b cs q ids done)"
  unfolding run_reads_def Let_def
  by (auto intro!: bk.obeys_rules book_laws gateway_books obeys_amend
    split: option.splits prod.splits sum.splits)

lemma obeys_create_approval: "obeys only_bookkeeping (create_pending_approval v p risk reason)"
  unfolding create_pending_approval_def Let_def
  by (intro bk.obeys_rules book_laws obeys_update_checkpoint obeys_modify) (simp add: only_bookkeeping_def)

lemma obeys_run_single: "obeys only_bookkeeping (run_single v b c q ids done)"
  unfolding run_single_def Let_def
  by (auto intro!: bk.obeys_rules book_laws gateway_books obeys_amend obeys_create_approval
    split: prod.splits call_outcome.splits)

lemma obeys_batch_loop: "obeys only_bookkeeping (batch_loop v b ids q done)"
proof (induction v b ids q "done" rule: batch_loop.induct)
  case (1 v b ids ms)
  then show ?case by (simp add: bk.obeys_rules)
next
  case (2 v b ids call queue ms)
  show ?case
    unfolding batch_loop.simps
    by (auto intro!: bk.obeys_rules book_laws gateway_books obeys_run_reads obeys_run_single 2
      simp: read_signal_def split: option.splits sum.splits prod.splits)
qed

lemma obeys_execute_batch: "obeys only_bookkeeping (execute_tool_batch v b)"
  unfolding execute_tool_batch_def Let_def
  by (intro bk.obeys_rules obeys_update_checkpoint obeys_batch_loop)

lemma total_update_checkpoint [simp]: "total (update_checkpoint k n)"
  unfolding update_checkpoint_def notify_checkpoint_def Let_def by (intro total_rules) simp_all

lemma total_amend [simp]: "total (amend_checkpoint f n)"
  unfolding amend_checkpoint_def by (intro total_rules) (auto split: option.splits)

lemma total_call_gateway [simp]: "total (call_gateway v run a c)"
  unfolding call_gateway_def by (intro total_rules) simp_all

lemma total_call_all [simp]: "total (call_gateway_all v run cs)"
  by (induction cs) (auto intro!: total_rules)

lemma total_push [simp]: "total (push_answers v run ms)"
proof (induction ms)
  case (Cons m ms)
  show ?case by (auto intro!: total_rules Cons split: option.splits prod.splits)
qed simp

lemma total_batch_failure [simp]: "total (batch_failure v e done)"
  unfolding batch_failure_def read_signal_def by (intro total_rules) simp_all

lemma total_batch_group [simp]: "total (batch_group v b c q)"
  unfolding batch_group_def by (intro total_rules) simp_all

lemma total_run_reads [simp]: "total (run_reads v b cs q ids done)"
  unfolding run_reads_def Let_def by (auto intro!: total_rules split: option.splits prod.splits sum.splits)

lemma total_create_approval [simp]: "total (create_pending_approval v p risk reason)"
  unfolding create_pending_approval_def Let_def by (intro total_rules) simp_all

lemma total_run_single [simp]: "total (run_single v b c q ids done)"
  unfolding run_single_def Let_def by (auto intro!: total_rules split: prod.splits call_outcome.splits)

lemma total_batch_loop [simp]: "total (batch_loop v b ids q done)"
proof (induction v b ids q "done" rule: batch_loop.induct)
  case (2 v b ids call queue ms)
  show ?case
    unfolding batch_loop.simps read_signal_def
    by (auto intro!: total_rules 2 split: option.splits sum.splits prod.splits)
qed simp

lemma total_execute_batch [simp]: "total (execute_tool_batch v b)"
  unfolding execute_tool_batch_def Let_def by (intro total_rules) simp_all

definition answers :: "message list \<Rightarrow> tool_call list \<Rightarrow> bool" where
  "answers ms cs \<longleftrightarrow> list_all2 (\<lambda>m c. \<exists>t. m = ToolMsg (call_id c) (call_name c) t) ms cs"

lemma answers_simps [simp]: "answers [] []" "answers [ToolMsg (call_id c) (call_name c) t] [c]" "answers [tool_message c r] [c]"
  by (simp_all add: answers_def tool_message_def)

lemma answers_append: "answers ms cs \<Longrightarrow> answers ns ds \<Longrightarrow> answers (ms @ ns) (cs @ ds)"
  unfolding answers_def by (rule list_all2_appendI)

lemma answers_Cons: "answers [m] [c] \<Longrightarrow> answers ms cs \<Longrightarrow> answers (m # ms) (c # cs)"
  by (simp add: answers_def)

lemma answers_take: "answers ms cs \<Longrightarrow> answers (take k ms) (take k cs)"
  unfolding answers_def by (rule list_all2_takeI)

lemma answered_ids_of_answers: "answers ms cs \<Longrightarrow> concat (map answered_ids ms) = map call_id cs"
  unfolding answers_def by (induction rule: list_all2_induct) auto

text \<open>The checkpoint of the running batch: the calls done and the calls left.\<close>

definition checkpointed :: "batch_input \<Rightarrow> jstr list \<Rightarrow> tool_call list \<Rightarrow> run_state \<Rightarrow> bool" where
  "checkpointed b ids queue s \<longleftrightarrow> (\<exists>k. rs_checkpoint s = Some k \<and> ck_run k = eb_run b \<and> \<not> ck_awaiting k
     \<and> ck_pending k = None \<and> set (ck_completed k) = set ids \<and> ck_remaining k = queue)"

lemma checkpointed_trace:
  assumes "obeys only_trace m"
  shows "hoare (checkpointed b ids q) m (\<lambda>_. checkpointed b ids q) any_error"
  by (rule hoare_weaken [OF hoare_law [OF assms, of "checkpointed b ids q" "checkpointed b ids q"]])
    (auto simp: only_trace_def checkpointed_def)

lemma update_checkpoint_sets:
  "hoare P (update_checkpoint k n) (\<lambda>_ s. rs_checkpoint s = Some k) any_error"
  unfolding update_checkpoint_def Let_def notify_checkpoint_def
  by (auto simp: hoare_def act_defs clone_checkpoint_def split: option.splits sum.splits if_splits)

lemma update_checkpoint_pending:
  "hoare (\<lambda>s. rs_pending s = p) (update_checkpoint k n) (\<lambda>_ s. rs_pending s = p \<and> rs_checkpoint s = Some k) any_error"
  unfolding update_checkpoint_def Let_def notify_checkpoint_def
  by (auto simp: hoare_def act_defs clone_checkpoint_def split: option.splits sum.splits if_splits)

lemma amend_progress:
  "hoare (checkpointed b ids q) (amend_checkpoint (progress_checkpoint ids' queue) n) (\<lambda>_. checkpointed b ids' queue) any_error"
  unfolding amend_checkpoint_def
proof (rule hoare_reading)
  fix t assume "checkpointed b ids q t"
  then obtain k where k: "rs_checkpoint t = Some k" "ck_run k = eb_run b" "\<not> ck_awaiting k" "ck_pending k = None"
    by (auto simp: checkpointed_def)
  show "hoare (\<lambda>s. s = t) (case rs_checkpoint t of None \<Rightarrow> raise zod_error
      | Some k \<Rightarrow> update_checkpoint (progress_checkpoint ids' queue k) n) (\<lambda>_. checkpointed b ids' queue) any_error"
    using k by (auto intro!: hoare_weaken [OF update_checkpoint_sets] simp: checkpointed_def progress_checkpoint_def)
qed

lemma push_answers_prefix:
  "hoare P (push_answers v run ms) (\<lambda>(done, err) s. (\<exists>k. done = take k ms) \<and> (err = None \<longrightarrow> done = ms)) any_error"
proof (induction ms arbitrary: P)
  case (Cons m ms)
  have one: "hoare P (catching (andthen (complete_verification_observation v run False None) (\<lambda>_. ret None)) (\<lambda>e. ret (Some e)))
      (\<lambda>_ _. True) any_error"
    by (auto simp: hoare_def split: sum.split)
  show ?case
    unfolding push_answers.simps
  proof (rule hoare_andthen [OF one])
    fix err :: "js_error option"
    show "hoare (\<lambda>_. True) (case err of Some e \<Rightarrow> ret ([m], Some e)
        | None \<Rightarrow> andthen (push_answers v run ms) (\<lambda>(done, e). ret (m # done, e)))
        (\<lambda>(done, err) s. (\<exists>k. done = take k (m # ms)) \<and> (err = None \<longrightarrow> done = m # ms)) any_error"
    proof (cases err)
      case None
      have "hoare (\<lambda>_. True) (andthen (push_answers v run ms) (\<lambda>(done, e). ret (m # done, e)))
        (\<lambda>(done, err) s. (\<exists>k. done = take k (m # ms)) \<and> (err = None \<longrightarrow> done = m # ms)) any_error"
      proof (rule hoare_andthen [OF Cons])
        fix x :: "message list \<times> js_error option"
        obtain d e where x: "x = (d, e)" by fastforce
        have "\<exists>j. m # take k ms = take j (m # ms)" for k by (rule exI [of _ "Suc k"]) simp
        then show "hoare (\<lambda>s. (case x of (done, err) \<Rightarrow> \<lambda>s. (\<exists>k. done = take k ms) \<and> (err = None \<longrightarrow> done = ms)) s)
          (case x of (done, e) \<Rightarrow> ret (m # done, e))
          (\<lambda>(done, err) s. (\<exists>k. done = take k (m # ms)) \<and> (err = None \<longrightarrow> done = m # ms)) any_error"
          unfolding x by (auto intro!: hoare_ret)
      qed
      with None show ?thesis by simp
    next
      case (Some e)
      with Some show ?thesis by (auto intro!: hoare_ret exI [of _ "Suc 0"])
    qed
  qed
qed (auto intro!: hoare_ret)

lemma call_all_calls: "hoare P (call_gateway_all v run cs) (\<lambda>rs s. map fst rs = cs) any_error"
proof (induction cs arbitrary: P)
  case (Cons c cs)
  have "hoare P (call_gateway v run False c) (\<lambda>_ _. True) any_error" by (auto simp: hoare_def split: sum.split)
  then show ?case
    unfolding call_gateway_all.simps
    by (rule hoare_andthen) (rule hoare_andthen [OF Cons], rule hoare_ret, simp)
qed (auto intro!: hoare_ret)

lemma settle_answers: "settle_all rs = Inr ms \<Longrightarrow> answers ms (map fst rs)"
proof -
  assume ok: "settle_all rs = Inr ms"
  then have none: "concat (map rejection rs) = []"
    by (auto simp: settle_all_def earliest_None [symmetric] split: option.splits)
  have "answers (concat (map answer_of xs)) (map fst xs)" if "concat (map rejection xs) = []" for xs
    using that
  proof (induction xs)
    case (Cons x xs)
    obtain c t r where "x = (c, t, r)" by (metis prod_cases3)
    with Cons show ?case
      by (cases r) (auto simp: rejection_def answer_of_def intro: answers_Cons)
  qed simp
  with none ok show ?thesis by (auto simp: settle_all_def split: option.splits)
qed

text \<open>What one step of the loop leaves: an abort keeps answers to a prefix of its calls.\<close>

definition stopped_early :: "tool_call list \<Rightarrow> message list \<Rightarrow> batch_exit \<Rightarrow> bool" where
  "stopped_early cs done x \<longleftrightarrow> (\<exists>e ms k. x = BatchAborted e (done @ ms) \<and> answers ms (take k cs))"

definition advanced ::
  "batch_input \<Rightarrow> tool_call list \<Rightarrow> tool_call list \<Rightarrow> jstr list \<Rightarrow> message list \<Rightarrow> jstr list \<times> message list \<Rightarrow> run_state \<Rightarrow> bool" where
  "advanced b cs queue ids done r s \<longleftrightarrow> fst r = ids @ map call_id cs
     \<and> (\<exists>ms. snd r = done @ ms \<and> answers ms cs) \<and> checkpointed b (fst r) queue s"

lemma stopped_with: "answers ms (take k cs) \<Longrightarrow> stopped_early cs done (BatchAborted e (done @ ms))"
  by (auto simp: stopped_early_def)

lemma stopped_at_once: "stopped_early cs done (BatchAborted e done)"
  using stopped_with [of "[]" 0 cs "done" e] by simp

lemma batch_failure_stops:
  "stopped_early cs done (BatchAborted e ms) \<Longrightarrow>
   hoare P (batch_failure v e ms) (\<lambda>r s. case r of Inl x \<Rightarrow> stopped_early cs done x | Inr y \<Rightarrow> Q y s) any_error"
  unfolding batch_failure_def read_signal_def
  by (rule hoare_andthen [where Q = "\<lambda>_ _. True"])
    (auto simp: hoare_def observe_outside_def act_defs split: if_splits)

lemma run_reads_post:
  "hoare (checkpointed b ids0 q0) (run_reads v b cs queue ids done)
     (\<lambda>r s. case r of Inl x \<Rightarrow> stopped_early cs done x | Inr y \<Rightarrow> advanced b cs queue ids done y s) any_error"
  unfolding run_reads_def
proof (rule hoare_andthen [where Q = "\<lambda>settled s. case settled of Inl e \<Rightarrow> True
      | Inr ms \<Rightarrow> answers ms cs \<and> checkpointed b ids0 q0 s"])
  have quiet: "obeys only_trace (run_all (map (\<lambda>c. observe_tool_call v (eb_run b) c (eb_tools b) (eb_iteration b)) cs))"
    by (rule tr.obeys_run_all) (auto intro: trace_laws)
  have calls: "hoare (checkpointed b ids0 q0) (call_gateway_all v (eb_run b) cs)
      (\<lambda>rs s. map fst rs = cs \<and> checkpointed b ids0 q0 s) any_error"
    using call_all_calls [of "checkpointed b ids0 q0" v "eb_run b" cs] checkpointed_trace [OF obeys_call_all, of b ids0 q0 v "eb_run b" cs]
    unfolding hoare_def by (fastforce split: sum.splits)
  show "hoare (checkpointed b ids0 q0)
     (catching
       (andthen (run_all (map (\<lambda>c. observe_tool_call v (eb_run b) c (eb_tools b) (eb_iteration b)) cs))
         (\<lambda>_. andthen (call_gateway_all v (eb_run b) cs)
           (\<lambda>rs. case settle_all rs of Inl e \<Rightarrow> ret (Inl e) | Inr ms \<Rightarrow> ret (Inr ms))))
       (\<lambda>e. ret (Inl e)))
     (\<lambda>settled s. case settled of Inl e \<Rightarrow> True | Inr ms \<Rightarrow> answers ms cs \<and> checkpointed b ids0 q0 s) any_error"
  proof (rule hoare_catching [OF hoare_andthen [OF checkpointed_trace [OF quiet]]])
    show "hoare (checkpointed b ids0 q0)
       (andthen (call_gateway_all v (eb_run b) cs) (\<lambda>rs. case settle_all rs of Inl e \<Rightarrow> ret (Inl e) | Inr ms \<Rightarrow> ret (Inr ms)))
       (\<lambda>settled s. case settled of Inl e \<Rightarrow> True | Inr ms \<Rightarrow> answers ms cs \<and> checkpointed b ids0 q0 s) any_error"
      by (rule hoare_andthen [OF calls]) (auto intro!: hoare_ret split: sum.split dest!: settle_answers)
  qed (auto intro!: hoare_ret)
next
  fix settled :: "js_error + message list"
  show "hoare (\<lambda>s. case settled of Inl e \<Rightarrow> True | Inr ms \<Rightarrow> answers ms cs \<and> checkpointed b ids0 q0 s)
     (case settled of
            Inl e \<Rightarrow> batch_failure v e done
          | Inr ms \<Rightarrow> andthen (push_answers v (eb_run b) ms)
              (\<lambda>(pushed, err). case err of
                   Some e \<Rightarrow> batch_failure v e (done @ pushed)
                 | None \<Rightarrow>
                   let ids' = ids @ map call_id cs
                   in andthen (catching (andthen (amend_checkpoint (progress_checkpoint ids' queue) False) (\<lambda>_. ret None)) (\<lambda>e. ret (Some e)))
                     (\<lambda>err. case err of
                          Some e \<Rightarrow> batch_failure v e (done @ pushed)
                        | None \<Rightarrow> ret (Inr (ids', done @ pushed)))))
     (\<lambda>r s. case r of Inl x \<Rightarrow> stopped_early cs done x | Inr y \<Rightarrow> advanced b cs queue ids done y s) any_error"
  proof (cases settled)
    case (Inl e)
    then show ?thesis by (simp add: batch_failure_stops [OF stopped_at_once])
  next
    case (Inr ms)
    have push: "hoare (\<lambda>s. answers ms cs \<and> checkpointed b ids0 q0 s) (push_answers v (eb_run b) ms)
      (\<lambda>r s. answers ms cs \<and> (\<exists>k. fst r = take k ms) \<and> (snd r = None \<longrightarrow> fst r = ms) \<and> checkpointed b ids0 q0 s) any_error"
      using push_answers_prefix [of "\<lambda>s. answers ms cs \<and> checkpointed b ids0 q0 s" v "eb_run b" ms]
        checkpointed_trace [OF obeys_push, of b ids0 q0 v "eb_run b" ms]
      unfolding hoare_def by (fastforce split: sum.splits prod.splits)
    have "hoare (\<lambda>s. answers ms cs \<and> checkpointed b ids0 q0 s)
       (andthen (push_answers v (eb_run b) ms)
              (\<lambda>(pushed, err). case err of
                   Some e \<Rightarrow> batch_failure v e (done @ pushed)
                 | None \<Rightarrow>
                   let ids' = ids @ map call_id cs
                   in andthen (catching (andthen (amend_checkpoint (progress_checkpoint ids' queue) False) (\<lambda>_. ret None)) (\<lambda>e. ret (Some e)))
                     (\<lambda>err. case err of
                          Some e \<Rightarrow> batch_failure v e (done @ pushed)
                        | None \<Rightarrow> ret (Inr (ids', done @ pushed)))))
     (\<lambda>r s. case r of Inl x \<Rightarrow> stopped_early cs done x | Inr y \<Rightarrow> advanced b cs queue ids done y s) any_error"
    proof (rule hoare_andthen [OF push])
      fix x :: "message list \<times> js_error option"
      obtain pushed err where x: "x = (pushed, err)" by fastforce
      let ?ids = "ids @ map call_id cs"
      let ?save = "catching (andthen (amend_checkpoint (progress_checkpoint ?ids queue) False) (\<lambda>_. ret None)) (\<lambda>e. ret (Some e))"
      let ?Q = "\<lambda>r s. case r of Inl x \<Rightarrow> stopped_early cs done x | Inr y \<Rightarrow> advanced b cs queue ids done y s"
      have early: "stopped_early cs done (BatchAborted e (done @ pushed))" if "answers ms cs" "pushed = take k ms" for e k
        using that answers_take stopped_with by blast
      have save: "hoare (checkpointed b ids0 q0) ?save (\<lambda>err s. err = None \<longrightarrow> checkpointed b ?ids queue s) any_error"
        by (rule hoare_catching [OF hoare_andthen [OF amend_progress]]) (auto intro!: hoare_ret)
      have finish: "hoare (\<lambda>s. answers ms cs \<and> pushed = ms \<and> checkpointed b ids0 q0 s)
          (andthen ?save (\<lambda>err. case err of Some e \<Rightarrow> batch_failure v e (done @ pushed) | None \<Rightarrow> ret (Inr (?ids, done @ pushed)))) ?Q any_error"
      proof (rule hoare_assume, rule hoare_assume)
        assume ans: "answers ms cs" "pushed = ms"
        show "hoare (checkpointed b ids0 q0)
          (andthen ?save (\<lambda>err. case err of Some e \<Rightarrow> batch_failure v e (done @ pushed) | None \<Rightarrow> ret (Inr (?ids, done @ pushed)))) ?Q any_error"
        proof (rule hoare_andthen [OF save])
          fix err
          show "hoare (\<lambda>s. err = None \<longrightarrow> checkpointed b ?ids queue s)
            (case err of Some e \<Rightarrow> batch_failure v e (done @ pushed) | None \<Rightarrow> ret (Inr (?ids, done @ pushed))) ?Q any_error"
            using ans early [of "length ms"]
            by (cases err) (auto intro!: hoare_ret batch_failure_stops simp: advanced_def)
        qed
      qed
      show "hoare (\<lambda>s. answers ms cs \<and> (\<exists>k. fst x = take k ms) \<and> (snd x = None \<longrightarrow> fst x = ms) \<and> checkpointed b ids0 q0 s)
        (case x of (pushed, err) \<Rightarrow> (case err of
             Some e \<Rightarrow> batch_failure v e (done @ pushed)
           | None \<Rightarrow> let ids' = ids @ map call_id cs
               in andthen (catching (andthen (amend_checkpoint (progress_checkpoint ids' queue) False) (\<lambda>_. ret None)) (\<lambda>e. ret (Some e)))
                 (\<lambda>err. case err of Some e \<Rightarrow> batch_failure v e (done @ pushed) | None \<Rightarrow> ret (Inr (ids', done @ pushed))))) ?Q any_error"
      proof (cases err)
        case None
        show ?thesis unfolding x None Let_def by (simp, rule hoare_pre [OF finish]) simp
      next
        case (Some e)
        have "hoare (\<lambda>s. (answers ms cs \<and> (\<exists>k. pushed = take k ms)) \<and> checkpointed b ids0 q0 s)
            (batch_failure v e (done @ pushed)) ?Q any_error"
          by (rule hoare_assume, erule conjE, erule exE, rule batch_failure_stops, rule early)
        then show ?thesis unfolding x Some by (simp add: conj_assoc)
      qed
    qed
    with Inr show ?thesis by simp
  qed
qed

text \<open>A pending approval: the calls before it are answered, it and the calls after it are kept.\<close>

definition suspended :: "batch_input \<Rightarrow> jstr list \<Rightarrow> tool_call \<Rightarrow> tool_call list \<Rightarrow> run_state \<Rightarrow> bool" where
  "suspended b ids call queue s \<longleftrightarrow>
     (\<exists>p k. om_get (rs_pending s) (eb_run b) = Some p \<and> ps_run p = eb_run b \<and> ps_call p = call \<and> ps_remaining p = queue
        \<and> ps_iteration p = eb_iteration b \<and> ps_tools p = eb_tools b \<and> set (ps_completed p) = set ids
        \<and> rs_checkpoint s = Some k \<and> ck_awaiting k \<and> ck_pending k = Some call \<and> ck_remaining k = queue
        \<and> ck_completed k = ps_completed p)"

lemma create_approval_suspends:
  assumes "ps_run p = eb_run b" and "ps_call p = call" and "ps_remaining p = queue" and "ps_iteration p = eb_iteration b"
    and "ps_tools p = eb_tools b" and "set (ps_completed p) = set ids"
  shows "hoare P (create_pending_approval v p risk reason) (\<lambda>r s. ar_status r = RsApproval \<and> suspended b ids call queue s) any_error"
proof -
  define a where "a = pending_approval_of v p risk reason"
  let ?k = "approval_checkpoint v p a"
  have one: "hoare P (modify (\<lambda>s. s\<lparr>rs_pending := om_set (ps_run p) p (rs_pending s)\<rparr>))
      (\<lambda>_ s. om_get (rs_pending s) (eb_run b) = Some p) any_error"
    using assms(1) by (intro hoare_modify) (simp add: om_laws)
  have two: "hoare (\<lambda>s. om_get (rs_pending s) (eb_run b) = Some p) (update_checkpoint ?k n)
      (\<lambda>_ s. om_get (rs_pending s) (eb_run b) = Some p \<and> rs_checkpoint s = Some ?k) any_error" for n
    using update_checkpoint_pending [of _ ?k n] unfolding hoare_def by (fastforce split: sum.splits)
  have three: "hoare (\<lambda>s. om_get (rs_pending s) (eb_run b) = Some p \<and> rs_checkpoint s = Some ?k) (finish_result v r)
      (\<lambda>r s. ar_status r = RsApproval \<and> suspended b ids call queue s) any_error" if "ar_status r = RsApproval" for r
    by (rule hoare_weaken [OF hoare_conj [OF finish_status [where P = "\<lambda>_. True"] hoare_law [OF obeys_finish, where Q = "suspended b ids call queue"
        and P = "\<lambda>s. om_get (rs_pending s) (eb_run b) = Some p \<and> rs_checkpoint s = Some ?k"]]])
      (use that assms in \<open>auto simp: only_trace_def suspended_def approval_checkpoint_def\<close>)
  show ?thesis
    unfolding create_pending_approval_def Let_def a_def [symmetric]
    by (rule hoare_andthen [OF one], rule hoare_andthen [OF two], rule three) (simp add: basic_result_def)
qed

definition single_post ::
  "batch_input \<Rightarrow> tool_call \<Rightarrow> tool_call list \<Rightarrow> jstr list \<Rightarrow> message list \<Rightarrow> batch_exit + jstr list \<times> message list \<Rightarrow> run_state \<Rightarrow> bool" where
  "single_post b call queue ids done r s \<longleftrightarrow> (case r of
     Inr y \<Rightarrow> advanced b [call] queue ids done y s
   | Inl (BatchApproval res ms) \<Rightarrow> ms = done \<and> ar_status res = RsApproval \<and> suspended b ids call queue s
   | Inl x \<Rightarrow> stopped_early [call] done x)"

lemma complete_after_amend:
  "hoare (checkpointed b ids0 q0)
     (run_all [amend_checkpoint (progress_checkpoint ids' queue) n, complete_verification_observation v run f reason])
     (\<lambda>_. checkpointed b ids' queue) any_error"
  unfolding run_all.simps
  by (rule hoare_andthen [OF amend_progress], rule hoare_andthen [OF checkpointed_trace [OF obeys_complete_observation]])
    (auto intro: hoare_ret)

lemma run_single_post:
  "hoare (checkpointed b ids0 q0) (run_single v b call queue ids done) (single_post b call queue ids done) any_error"
  unfolding run_single_def Let_def
proof (rule hoare_andthen [OF checkpointed_trace [OF obeys_observe_call]], rule hoare_andthen [OF checkpointed_trace [OF obeys_call_gateway]])
  fix r :: "nat \<times> call_outcome"
  obtain t oc where r: "r = (t, oc)" by fastforce
  have go: "hoare (checkpointed b ids0 q0)
      (andthen (run_all [amend_checkpoint (progress_checkpoint (ids @ [call_id call]) queue) n, complete_verification_observation v run f reason])
        (\<lambda>_. ret (Inr (ids @ [call_id call], done @ [m])))) (single_post b call queue ids done) any_error"
    if "answers [m] [call]" for m n run f reason
    using that by (intro hoare_andthen [OF complete_after_amend] hoare_ret) (auto simp: single_post_def advanced_def)
  show "hoare (checkpointed b ids0 q0) (case r of (t, oc) \<Rightarrow> (case oc of
               Returned r \<Rightarrow>
                 andthen (run_all [amend_checkpoint (progress_checkpoint (ids @ [call_id call]) queue) False,
                                   complete_verification_observation v (eb_run b) False None])
                   (\<lambda>_. ret (Inr (ids @ [call_id call], done @ [tool_message call r])))
             | Refused act risk reason e \<Rightarrow>
                 if act = Deny then
                   andthen (run_all [amend_checkpoint (progress_checkpoint (ids @ [call_id call]) queue) False,
                                     complete_verification_observation v (eb_run b) True
                                       (Some (asc ''Tool '' @ call_name call @ asc '' was denied by policy.''))])
                     (\<lambda>_. ret (Inr (ids @ [call_id call], done @ [denied_message call reason e])))
                 else
                   andthen (create_pending_approval v
                       \<lparr>ps_run = eb_run b, ps_mode = eb_mode b, ps_input = eb_user b, ps_call = call, ps_remaining = queue,
                        ps_tools = eb_tools b, ps_iteration = eb_iteration b, ps_followups = eb_followups b,
                        ps_completed = uniq_first ids\<rparr> risk reason)
                     (\<lambda>result. ret (Inl (BatchApproval result done)))
             | Threw e \<Rightarrow> batch_failure v e done))
     (single_post b call queue ids done) any_error"
  proof (cases oc)
    case (Returned x)
    have "answers [tool_message call x] [call]" by simp
    from go [OF this] show ?thesis unfolding r Returned by simp
  next
    case (Refused act risk reason e)
    show ?thesis
    proof (cases "act = Deny")
      case True
      have "answers [denied_message call reason e] [call]" by (simp add: denied_message_def)
      from go [OF this] show ?thesis unfolding r Refused True by simp
    next
      case False
      have "hoare (checkpointed b ids0 q0) (andthen (create_pending_approval v
                       \<lparr>ps_run = eb_run b, ps_mode = eb_mode b, ps_input = eb_user b, ps_call = call, ps_remaining = queue,
                        ps_tools = eb_tools b, ps_iteration = eb_iteration b, ps_followups = eb_followups b,
                        ps_completed = uniq_first ids\<rparr> risk reason)
                     (\<lambda>result. ret (Inl (BatchApproval result done)))) (single_post b call queue ids done) any_error"
        by (rule hoare_andthen [OF create_approval_suspends [where b = b and ids = ids and call = call and queue = queue]])
          (auto intro!: hoare_ret simp: single_post_def)
      with False show ?thesis unfolding r Refused by simp
    qed
  next
    case (Threw e)
    have "hoare (checkpointed b ids0 q0) (batch_failure v e done) (single_post b call queue ids done) any_error"
      by (rule hoare_weaken [OF batch_failure_stops [OF stopped_at_once [of "[call]"], where Q = "\<lambda>_ _. False"]])
        (auto simp: single_post_def stopped_early_def split: sum.splits)
    then show ?thesis unfolding r Threw by simp
  qed
qed

definition batch_post :: "batch_input \<Rightarrow> jstr list \<Rightarrow> tool_call list \<Rightarrow> message list \<Rightarrow> batch_exit \<Rightarrow> run_state \<Rightarrow> bool" where
  "batch_post b ids q done x s \<longleftrightarrow> (case x of
     BatchCompleted ms \<Rightarrow> \<exists>ms'. ms = done @ ms' \<and> answers ms' q \<and> checkpointed b (ids @ map call_id q) [] s
   | BatchApproval r ms \<Rightarrow> ar_status r = RsApproval \<and> (\<exists>before c rest ms'. q = before @ c # rest \<and> ms = done @ ms' \<and> answers ms' before
       \<and> suspended b (ids @ map call_id before) c rest s)
   | BatchAborted e ms \<Rightarrow> stopped_early q done x)"

lemma stopped_early_append: "stopped_early cs done x \<Longrightarrow> stopped_early (cs @ q) done x"
proof -
  assume "stopped_early cs done x"
  then obtain e ms k where x: "x = BatchAborted e (done @ ms)" "answers ms (take k cs)" by (auto simp: stopped_early_def)
  have "take k cs = take (min k (length cs)) (cs @ q)" by (cases "k \<le> length cs") simp_all
  with x show ?thesis unfolding stopped_early_def by metis
qed

lemma stopped_early_later:
  "answers ms cs \<Longrightarrow> stopped_early q (done @ ms) x \<Longrightarrow> stopped_early (cs @ q) done x"
proof -
  assume ms: "answers ms cs" and "stopped_early q (done @ ms) x"
  then obtain e ns k where x: "x = BatchAborted e ((done @ ms) @ ns)" "answers ns (take k q)" by (auto simp: stopped_early_def)
  have "answers (ms @ ns) (take (length cs + k) (cs @ q))" using answers_append [OF ms x(2)] by simp
  with x(1) show ?thesis unfolding stopped_early_def by (metis append.assoc)
qed

lemma batch_post_later:
  assumes adv: "answers ms cs" and post: "batch_post b (ids @ map call_id cs) q (done @ ms) x s"
  shows "batch_post b ids (cs @ q) done x s"
proof (cases x)
  case (BatchCompleted ns)
  then obtain ms' where "ns = (done @ ms) @ ms'" "answers ms' q" "checkpointed b ((ids @ map call_id cs) @ map call_id q) [] s"
    using post by (auto simp: batch_post_def)
  with answers_append [OF adv] show ?thesis unfolding BatchCompleted by (simp add: batch_post_def)
next
  case (BatchApproval r ns)
  then obtain before c rest ms' where "ar_status r = RsApproval" "q = before @ c # rest" "ns = (done @ ms) @ ms'" "answers ms' before"
      "suspended b ((ids @ map call_id cs) @ map call_id before) c rest s"
    using post by (auto simp: batch_post_def)
  then have "ar_status r = RsApproval \<and> cs @ q = (cs @ before) @ c # rest \<and> ns = done @ (ms @ ms') \<and> answers (ms @ ms') (cs @ before)
      \<and> suspended b (ids @ map call_id (cs @ before)) c rest s"
    using answers_append [OF adv, of ms' before] by simp
  then show ?thesis unfolding BatchApproval batch_post_def batch_exit.case by blast
next
  case (BatchAborted e ns)
  with post have "stopped_early q (done @ ms) x" by (simp add: batch_post_def)
  with stopped_early_later [OF adv] BatchAborted show ?thesis by (simp add: batch_post_def)
qed

lemma batch_group_prefix:
  "hoare P (batch_group v b call queue) (\<lambda>g s. \<forall>peers. g = Some peers \<longrightarrow> peers = take (length peers) queue) any_error"
  unfolding batch_group_def
  by (auto simp: hoare_def act_defs observe_outside_def split: option.splits sum.splits if_splits dest: take_parallel_prefix)

lemma suspended_post:
  "ar_status r = RsApproval \<Longrightarrow> suspended b ids call queue s \<Longrightarrow> batch_post b ids (call # queue) done (BatchApproval r done) s"
  unfolding batch_post_def batch_exit.case by (intro conjI exI [of _ "[]"]) auto

lemma batch_loop_post: "hoare (checkpointed b ids q) (batch_loop v b ids q done) (batch_post b ids q done) any_error"
proof (induction v b ids q "done" rule: batch_loop.induct)
  case (1 v b ids ms)
  show ?case by (auto intro!: hoare_ret simp: batch_post_def)
next
  case (2 v b ids call queue ms)
  let ?post = "batch_post b ids (call # queue) ms"
  have later: "hoare (\<lambda>s. case r of Inl x \<Rightarrow> ?post x s | Inr y \<Rightarrow> advanced b cs (drop n queue) ids ms y s)
      (case r of Inl x \<Rightarrow> ret x | Inr (ids', ms') \<Rightarrow> batch_loop v b ids' (drop n queue) ms') ?post any_error"
    if split: "cs @ drop n queue = call # queue"
      and IH: "\<And>ids' ms'. hoare (checkpointed b ids' (drop n queue)) (batch_loop v b ids' (drop n queue) ms')
        (batch_post b ids' (drop n queue) ms') any_error"
    for r cs n
  proof (cases r)
    case (Inl x)
    then show ?thesis by (auto intro!: hoare_ret)
  next
    case (Inr y)
    obtain ids' ms' where y: "y = (ids', ms')" by fastforce
    have "hoare (\<lambda>s. (ids' = ids @ map call_id cs \<and> (\<exists>d. ms' = ms @ d \<and> answers d cs)) \<and> checkpointed b ids' (drop n queue) s)
        (batch_loop v b ids' (drop n queue) ms') ?post any_error"
    proof (rule hoare_assume)
      assume eqs: "ids' = ids @ map call_id cs \<and> (\<exists>d. ms' = ms @ d \<and> answers d cs)"
      then obtain d where d: "ms' = ms @ d" "answers d cs" by blast
      show "hoare (checkpointed b ids' (drop n queue)) (batch_loop v b ids' (drop n queue) ms') ?post any_error"
        by (rule hoare_weaken [OF IH]) (use eqs d batch_post_later [OF d(2), of b ids "drop n queue" ms] split in auto)
    qed
    then show ?thesis unfolding Inr y by (simp add: advanced_def conj_assoc)
  qed
  have readp: "hoare (checkpointed b ids (call # queue)) (read_signal v) (\<lambda>_. checkpointed b ids (call # queue)) any_error"
    unfolding read_signal_def by (rule checkpointed_trace [OF obeys_outside])
  have group: "hoare (checkpointed b ids (call # queue)) (batch_group v b call queue)
      (\<lambda>g s. (\<forall>peers. g = Some peers \<longrightarrow> peers = take (length peers) queue) \<and> checkpointed b ids (call # queue) s) any_error"
    using batch_group_prefix [of "checkpointed b ids (call # queue)" v b call queue]
      checkpointed_trace [OF obeys_batch_group, of b ids "call # queue" v b call queue]
    unfolding hoare_def by (fastforce split: sum.splits)
  have early: "?post x s" if whole: "cs @ r = call # queue" and st: "stopped_early cs ms x" for cs r x s
  proof -
    have "stopped_early (call # queue) ms x" using stopped_early_append [OF st, of r] whole by simp
    moreover obtain e ns where "x = BatchAborted e ns" using st by (auto simp: stopped_early_def)
    ultimately show ?thesis by (simp add: batch_post_def)
  qed
  show ?case
    unfolding batch_loop.simps
  proof (rule hoare_andthen [OF readp], rule hoare_if)
    fix sig :: abort_state
    show "hoare (checkpointed b ids (call # queue)) (ret (BatchAborted (abort_reason sig (asc ''Operation aborted'')) ms)) ?post any_error"
      by (auto intro!: hoare_ret stopped_at_once simp: batch_post_def)
  next
    fix sig :: abort_state assume sig: "\<not> sig \<noteq> None"
    show "hoare (checkpointed b ids (call # queue)) (andthen (batch_group v b call queue)
           (\<lambda>group. case group of
                Some peers \<Rightarrow>
                  andthen (run_reads v b (call # peers) (drop (length peers) queue) ids ms)
                    (\<lambda>r. case r of Inl x \<Rightarrow> ret x | Inr (ids', done') \<Rightarrow> batch_loop v b ids' (drop (length peers) queue) done')
              | None \<Rightarrow>
                  andthen (run_single v b call queue ids ms)
                    (\<lambda>r. case r of Inl x \<Rightarrow> ret x | Inr (ids', done') \<Rightarrow> batch_loop v b ids' queue done'))) ?post any_error"
    proof (rule hoare_andthen [OF group], rule hoare_assume)
      fix g :: "tool_call list option"
      assume pre: "\<forall>peers. g = Some peers \<longrightarrow> peers = take (length peers) queue"
      show "hoare (checkpointed b ids (call # queue)) (case g of
                Some peers \<Rightarrow>
                  andthen (run_reads v b (call # peers) (drop (length peers) queue) ids ms)
                    (\<lambda>r. case r of Inl x \<Rightarrow> ret x | Inr (ids', done') \<Rightarrow> batch_loop v b ids' (drop (length peers) queue) done')
              | None \<Rightarrow>
                  andthen (run_single v b call queue ids ms)
                    (\<lambda>r. case r of Inl x \<Rightarrow> ret x | Inr (ids', done') \<Rightarrow> batch_loop v b ids' queue done')) ?post any_error"
      proof (cases g)
        case (Some peers)
        with pre have split: "(call # peers) @ drop (length peers) queue = call # queue"
          by (metis append_Cons append_take_drop_id)
        have reads: "hoare (checkpointed b ids (call # queue)) (run_reads v b (call # peers) (drop (length peers) queue) ids ms)
            (\<lambda>r s. case r of Inl x \<Rightarrow> ?post x s | Inr y \<Rightarrow> advanced b (call # peers) (drop (length peers) queue) ids ms y s) any_error"
          by (rule hoare_weaken [OF run_reads_post [of b ids "call # queue"]]) (auto dest: early [OF split] split: sum.splits)
        show ?thesis unfolding Some
          by (simp, rule hoare_andthen [OF reads], rule later [OF split]) (rule 2(2) [OF sig])
      next
        case None
        have alone: "stopped_early [call] ms x \<Longrightarrow> ?post x s" for x s
          by (rule early [of "[call]" queue]) simp_all
        have single: "hoare (checkpointed b ids (call # queue)) (run_single v b call queue ids ms)
            (\<lambda>r s. case r of Inl x \<Rightarrow> ?post x s | Inr y \<Rightarrow> advanced b [call] (drop 0 queue) ids ms y s) any_error"
          by (rule hoare_weaken [OF run_single_post [of b ids "call # queue"]])
            (auto simp: single_post_def split: sum.splits batch_exit.splits dest: alone suspended_post)
        have split: "[call] @ drop 0 queue = call # queue" by simp
        show ?thesis unfolding None
          using hoare_andthen [OF single later [OF split]] 2(1) sig None by simp
      qed
    qed
  qed
qed

definition completed_before :: "batch_input \<Rightarrow> run_state \<Rightarrow> jstr list" where
  "completed_before b s = (case rs_checkpoint s of Some k \<Rightarrow> if ck_run k = eb_run b then ck_completed k else [] | None \<Rightarrow> [])"

lemma execute_batch_post:
  assumes "execute_tool_batch v b s = Some (s', Inr x)"
  shows "batch_post b (completed_before b s) (eb_calls b) [] x s'"
proof -
  have "hoare (\<lambda>t. True) (andthen (update_checkpoint (batch_checkpoint v b (completed_before b s)) False)
       (\<lambda>_. batch_loop v b (completed_before b s) (eb_calls b) [])) (batch_post b (completed_before b s) (eb_calls b) []) any_error"
    by (rule hoare_andthen [OF update_checkpoint_sets], rule hoare_pre [OF batch_loop_post])
      (simp add: checkpointed_def batch_checkpoint_def)
  then show ?thesis
    by (rule hoareD [of _ _ _ _ s]) (use assms in \<open>simp_all add: execute_tool_batch_def reading_def completed_before_def Let_def\<close>)
qed

text \<open>
  C0. Running the calls of a reply always returns, and it touches neither the conversation nor what
  was shown. When it completes, every call has exactly one answer, in the order of the calls. When a
  call needs an approval, the calls before it are answered, and the session and the checkpoint keep that call
  and exactly the calls after it, with the finished ones marked. When it is aborted, the answers to a prefix of
  the calls are handed over. Only another error loses answers.
\<close>

theorem batch_answers_in_order:
  "\<exists>s' r. execute_tool_batch v b s = Some (s', r) \<and> rs_context s' = rs_context s \<and> rs_yielded s' = rs_yielded s
     \<and> (case r of
          Inl e \<Rightarrow> True
        | Inr (BatchCompleted ms) \<Rightarrow> answers ms (eb_calls b)
        | Inr (BatchApproval res ms) \<Rightarrow> \<exists>before c rest. eb_calls b = before @ c # rest \<and> answers ms before
            \<and> suspended b (completed_before b s @ map call_id before) c rest s'
        | Inr (BatchAborted e ms) \<Rightarrow> \<exists>k. answers ms (take k (eb_calls b)))"
proof -
  obtain s' r where run: "execute_tool_batch v b s = Some (s', r)"
    using total_execute_batch [of v b] unfolding total_def by (metis option.exhaust surj_pair)
  have same: "rs_context s' = rs_context s" "rs_yielded s' = rs_yielded s"
    using obeysD [OF obeys_execute_batch run] by (simp_all add: only_bookkeeping_def)
  show ?thesis
  proof (cases r)
    case (Inl e)
    with run same show ?thesis by auto
  next
    case (Inr x)
    with run have "batch_post b (completed_before b s) (eb_calls b) [] x s'" by (simp add: execute_batch_post)
    then have "case x of BatchCompleted ms \<Rightarrow> answers ms (eb_calls b)
        | BatchApproval res ms \<Rightarrow> \<exists>before c rest. eb_calls b = before @ c # rest \<and> answers ms before
            \<and> suspended b (completed_before b s @ map call_id before) c rest s'
        | BatchAborted e ms \<Rightarrow> \<exists>k. answers ms (take k (eb_calls b))"
      by (cases x) (auto simp: batch_post_def stopped_early_def)
    with run same Inr show ?thesis by auto
  qed
qed

end
