(* ===== verification/Spec2Isabelle.thy ===== *)
theory Spec2Isabelle
  imports Todo_Store Permission_Modes Stall_Detector Verification_Report Run_Phase Tool_Scheduler Governor_Safety Thread_Restore Apply_Patch Tool_Batch
begin

text \<open>
  Root of the development: see the component theories.
\<close>

end
